(* ===== verification/Prelude.thy ===== *)
theory Prelude
  imports Main "HOL-Library.Word" "HOL-Library.AList" "HOL-Library.List_Lexorder" "HOL-Library.Char_ord"
    "HOL-Library.Multiset"
begin

text \<open>
  Shared vocabulary of the development: the machine types and the parts of the Rust standard
  library that several components use (saturating arithmetic on \<open>u64\<close>, \<open>Duration\<close>,
  \<open>partition_point\<close>, \<open>str::trim\<close>, substring search, a hash map as an association list),
  with the lemmas about them that the components share.

  A \<open>u64\<close> is a \<open>64 word\<close>, so \<open>+\<close> wraps exactly as \<open>AtomicU64::fetch_add\<close> does.
  A \<open>usize\<close> that only measures an in-memory list is a \<open>nat\<close>; a \<open>usize\<close> counter that can
  wrap is a \<open>64 word\<close>. A \<open>Duration\<close> is its number of nanoseconds.
  A byte string is a \<open>char list\<close>: one \<open>char\<close> is one byte, so a Rust \<open>str\<close> is its
  UTF-8 encoding.
\<close>

type_synonym u64 = "64 word"
type_synonym bytes = "char list"
type_synonym duration = nat
type_synonym ('e, 'a) result = "'e + 'a"

named_theorems frame_simps \<open>what an operation leaves unchanged\<close>

subsection \<open>Results\<close>

definition map_err :: "('e \<Rightarrow> 'f) \<Rightarrow> ('e, 'a) result \<Rightarrow> ('f, 'a) result" where
  "map_err f r = (case r of Inl e \<Rightarrow> Inl (f e) | Inr a \<Rightarrow> Inr a)"

definition and_then :: "('e, 'a) result \<Rightarrow> ('a \<Rightarrow> ('e, 'b) result) \<Rightarrow> ('e, 'b) result" where
  "and_then r f = (case r of Inl e \<Rightarrow> Inl e | Inr a \<Rightarrow> f a)"

lemma map_err_simps [simp]: "map_err f (Inl e) = Inl (f e)" "map_err f (Inr a) = Inr a"
  by (simp_all add: map_err_def)

lemma and_then_simps [simp]: "and_then (Inl e) f = Inl e" "and_then (Inr a) f = f a"
  by (simp_all add: and_then_def)

lemma and_then_Inr [simp]: "and_then r f = Inr b \<longleftrightarrow> (\<exists>a. r = Inr a \<and> f a = Inr b)"
  by (cases r) simp_all

lemma map_err_Inr [simp]: "map_err f r = Inr b \<longleftrightarrow> r = Inr b"
  by (cases r) simp_all

text \<open>Collecting an iterator of results: the first error ends it.\<close>

fun collect_results :: "('e, 'a) result list \<Rightarrow> ('e, 'a list) result" where
  "collect_results [] = Inr []"
| "collect_results (Inl e # rs) = Inl e"
| "collect_results (Inr a # rs) = and_then (collect_results rs) (\<lambda>as. Inr (a # as))"

lemma collect_results_Inr: "collect_results rs = Inr as \<longleftrightarrow> rs = map Inr as"
proof (induction rs arbitrary: as rule: collect_results.induct)
  case (3 a rs)
  then show ?case by (cases as) auto
qed auto

subsection \<open>Arithmetic on \<open>u64\<close>\<close>

definition sat_sub :: "u64 \<Rightarrow> u64 \<Rightarrow> u64" where
  "sat_sub a b = (if a \<le> b then 0 else a - b)"

definition sat_add :: "u64 \<Rightarrow> u64 \<Rightarrow> u64" where
  "sat_add a b = (if unat a + unat b < 2 ^ 64 then a + b else - 1)"

definition sat_mul :: "u64 \<Rightarrow> u64 \<Rightarrow> u64" where
  "sat_mul a b = (if unat a * unat b < 2 ^ 64 then a * b else - 1)"

lemma unat_max_u64: "unat (- 1 :: u64) = 2 ^ 64 - 1"
  by (simp add: unat_eq_nat_uint uint_word_ariths)

lemma unat_sat_sub [simp]: "unat (sat_sub a b) = unat a - unat b"
proof (cases "a \<le> b")
  case True
  then show ?thesis by (simp add: sat_sub_def word_le_nat_alt)
next
  case False
  then have "b \<le> a" by simp
  with False show ?thesis by (simp add: sat_sub_def unat_sub)
qed

lemma unat_add_u64: "unat a + unat b < 2 ^ 64 \<Longrightarrow> unat (a + b :: u64) = unat a + unat b"
  by (simp add: unat_word_ariths)

lemma unat_sat_add: "unat (sat_add a b) = min (unat a + unat b) (2 ^ 64 - 1)"
  using unat_max_u64 by (simp add: sat_add_def unat_add_u64 min_def)

lemma unat_sat_mul: "unat (sat_mul a b) = min (unat a * unat b) (2 ^ 64 - 1)"
  using unat_max_u64 by (simp add: sat_mul_def unat_word_ariths min_def)

lemma unat_of_nat_u64: "n < 2 ^ 64 \<Longrightarrow> unat (of_nat n :: u64) = n"
  by (simp add: unat_of_nat)

subsection \<open>Durations\<close>

definition from_secs :: "u64 \<Rightarrow> duration" where
  "from_secs s = unat s * 1000000000"

definition from_millis :: "u64 \<Rightarrow> duration" where
  "from_millis ms = unat ms * 1000000"

definition from_micros :: "u64 \<Rightarrow> duration" where
  "from_micros us = unat us * 1000"

text \<open>\<open>as_micros() as u64\<close> and \<open>as_millis() as u64\<close>: the cast keeps the low 64 bits.\<close>

definition micros_u64 :: "duration \<Rightarrow> u64" where
  "micros_u64 d = of_nat (d div 1000)"

definition millis_u64 :: "duration \<Rightarrow> u64" where
  "millis_u64 d = of_nat (d div 1000000)"

definition as_secs :: "duration \<Rightarrow> u64" where
  "as_secs d = of_nat (d div 1000000000)"

lemma micros_from_micros [simp]: "micros_u64 (from_micros us) = us"
  by (simp add: micros_u64_def from_micros_def)

subsection \<open>Slices and hash maps\<close>

text \<open>
  \<open>slice::partition_point\<close> on a slice whose true elements come first: the index of the first
  element that fails the predicate.
\<close>

definition partition_point :: "('a \<Rightarrow> bool) \<Rightarrow> 'a list \<Rightarrow> nat" where
  "partition_point p xs = length (takeWhile p xs)"

lemma partition_point_le [simp]: "partition_point p xs \<le> length xs"
  by (simp add: partition_point_def length_takeWhile_le)

lemma partition_point_less: "i < partition_point p xs \<Longrightarrow> p (xs ! i)"
  unfolding partition_point_def by (metis nth_mem set_takeWhileD takeWhile_nth)

lemma partition_point_nth: "partition_point p xs < length xs \<Longrightarrow> \<not> p (xs ! partition_point p xs)"
  unfolding partition_point_def by (rule nth_length_takeWhile)

text \<open>
  \<open>slots.get(i)\<close> followed by \<open>fetch_add(1)\<close>: a slot out of range is left alone.
\<close>

definition bump_slot :: "nat \<Rightarrow> u64 list \<Rightarrow> u64 list" where
  "bump_slot i bs = (if i < length bs then bs[i := bs ! i + 1] else bs)"

lemma length_bump_slot [simp, frame_simps]: "length (bump_slot i bs) = length bs"
  by (simp add: bump_slot_def)

lemma sum_list_bump_slot:
  "sum_list (bump_slot i bs) = sum_list bs + (if i < length bs then 1 else 0)"
proof (induction bs arbitrary: i)
  case Nil
  then show ?case by (simp add: bump_slot_def)
next
  case (Cons b bs)
  show ?case
  proof (cases i)
    case 0
    then show ?thesis by (simp add: bump_slot_def)
  next
    case (Suc j)
    with Cons.IH [of j] show ?thesis by (simp add: bump_slot_def algebra_simps split: if_splits)
  qed
qed

text \<open>
  A \<open>HashMap\<close> is an association list with distinct keys; its order stands for the unspecified
  iteration order. \<open>AList.map_entry\<close> changes the value of a key that is present.
\<close>

lemma map_of_map_entry [simp]:
  "map_of (AList.map_entry k f al) = (\<lambda>k'. if k' = k then map_option f (map_of al k) else map_of al k')"
  by (induction al) (auto simp: fun_eq_iff)

lemma keys_map_entry [simp, frame_simps]: "map fst (AList.map_entry k f al) = map fst al"
  by (induction al) auto

definition rekey :: "('k \<times> 'a) list \<Rightarrow> ('a \<Rightarrow> 'b) \<Rightarrow> ('k \<times> 'b) list" where
  "rekey al f = map (\<lambda>(k, v). (k, f v)) al"

lemma map_of_rekey [simp]: "map_of (rekey al f) k = map_option f (map_of al k)"
  by (induction al) (auto simp: rekey_def)

lemma keys_rekey [simp]: "map fst (rekey al f) = map fst al"
  by (induction al) (auto simp: rekey_def)

subsection \<open>Byte strings\<close>

text \<open>\<open>memmem\<close> and \<open>str::find\<close>: the first index at which the needle occurs.\<close>

fun starts_with :: "bytes \<Rightarrow> bytes \<Rightarrow> bool" where
  "starts_with [] s = True"
| "starts_with (p # ps) [] = False"
| "starts_with (p # ps) (c # cs) = (p = c \<and> starts_with ps cs)"

fun find_sub :: "bytes \<Rightarrow> bytes \<Rightarrow> nat option" where
  "find_sub n [] = (if n = [] then Some 0 else None)"
| "find_sub n (c # cs) = (if starts_with n (c # cs) then Some 0 else map_option Suc (find_sub n cs))"

definition contains :: "bytes \<Rightarrow> bytes \<Rightarrow> bool" where
  "contains n s \<longleftrightarrow> find_sub n s \<noteq> None"

lemma starts_with_iff: "starts_with p s \<longleftrightarrow> (\<exists>r. s = p @ r)"
  by (induction p s rule: starts_with.induct) auto

lemma find_sub_Some:
  "find_sub n s = Some i \<Longrightarrow> \<exists>post. s = take i s @ n @ post \<and> i + length n \<le> length s"
proof (induction n s arbitrary: i rule: find_sub.induct)
  case (1 n)
  then show ?case by (auto split: if_splits)
next
  case (2 n c cs)
  show ?case
  proof (cases "starts_with n (c # cs)")
    case True
    with 2 obtain r where "c # cs = n @ r" "i = 0" by (auto simp: starts_with_iff)
    then show ?thesis by (metis append_Nil le_add1 length_append plus_nat.add_0 take0)
  next
    case False
    with 2 show ?thesis by auto
  qed
qed

lemma find_sub_None: "find_sub n s = None \<longleftrightarrow> (\<forall>pre post. s \<noteq> pre @ n @ post)"
proof (induction n s rule: find_sub.induct)
  case (1 n)
  then show ?case by auto
next
  case (2 n c cs)
  show ?case
  proof (cases "starts_with n (c # cs)")
    case True
    then show ?thesis by (auto simp: starts_with_iff) (metis append_Nil)
  next
    case False
    have "(\<forall>pre post. c # cs \<noteq> pre @ n @ post) \<longleftrightarrow> (\<forall>pre post. cs \<noteq> pre @ n @ post)"
      using False by (auto simp: starts_with_iff Cons_eq_append_conv)
    with 2 False show ?thesis by simp
  qed
qed

lemma contains_iff: "contains n s \<longleftrightarrow> (\<exists>pre post. s = pre @ n @ post)"
  by (simp add: contains_def find_sub_None)

text \<open>
  \<open>str::trim\<close> removes the scalars with the Unicode property \<open>White_Space\<close> at both ends. On
  UTF-8 bytes they are these byte sequences; no sequence is a suffix of another scalar's, so
  trimming at the end may match them from the back.
\<close>

definition ws_scalars :: "bytes list" where
  "ws_scalars =
     [[CHR 0x09], [CHR 0x0A], [CHR 0x0B], [CHR 0x0C], [CHR 0x0D], [CHR 0x20],
      [CHR 0xC2, CHR 0x85], [CHR 0xC2, CHR 0xA0], [CHR 0xE1, CHR 0x9A, CHR 0x80],
      [CHR 0xE2, CHR 0x80, CHR 0x80], [CHR 0xE2, CHR 0x80, CHR 0x81], [CHR 0xE2, CHR 0x80, CHR 0x82],
      [CHR 0xE2, CHR 0x80, CHR 0x83], [CHR 0xE2, CHR 0x80, CHR 0x84], [CHR 0xE2, CHR 0x80, CHR 0x85],
      [CHR 0xE2, CHR 0x80, CHR 0x86], [CHR 0xE2, CHR 0x80, CHR 0x87], [CHR 0xE2, CHR 0x80, CHR 0x88],
      [CHR 0xE2, CHR 0x80, CHR 0x89], [CHR 0xE2, CHR 0x80, CHR 0x8A], [CHR 0xE2, CHR 0x80, CHR 0xA8],
      [CHR 0xE2, CHR 0x80, CHR 0xA9], [CHR 0xE2, CHR 0x80, CHR 0xAF], [CHR 0xE2, CHR 0x81, CHR 0x9F],
      [CHR 0xE3, CHR 0x80, CHR 0x80]]"

fun strip_one :: "bytes list \<Rightarrow> bytes \<Rightarrow> bytes option" where
  "strip_one [] s = None"
| "strip_one (w # ws) s = (if w \<noteq> [] \<and> starts_with w s then Some (drop (length w) s) else strip_one ws s)"

lemma strip_one_shorter: "strip_one ws s = Some r \<Longrightarrow> length r < length s"
  by (induction ws s rule: strip_one.induct)
    (auto simp: starts_with_iff split: if_splits)

function trim_with :: "bytes list \<Rightarrow> bytes \<Rightarrow> bytes" where
  "trim_with ws s = (case strip_one ws s of None \<Rightarrow> s | Some r \<Rightarrow> trim_with ws r)"
  by pat_completeness auto
termination
  by (relation "measure (\<lambda>(ws, s). length s)") (auto dest: strip_one_shorter)

declare trim_with.simps [simp del]

definition trim :: "bytes \<Rightarrow> bytes" where
  "trim s = rev (trim_with (map rev ws_scalars) (rev (trim_with ws_scalars s)))"

lemma trim_with_Nil [simp]: "trim_with ws [] = []"
proof -
  have "strip_one ws [] = None" by (induction ws) (auto simp: starts_with_iff)
  then show ?thesis by (subst trim_with.simps) simp
qed

lemma trim_Nil [simp]: "trim [] = []"
  by (simp add: trim_def)

text \<open>A string that trims to nothing is called blank.\<close>

definition blank :: "bytes \<Rightarrow> bool" where
  "blank s \<longleftrightarrow> trim s = []"

lemma blank_Nil [simp]: "blank []"
  by (simp add: blank_def)

text \<open>Decimal printing of an unsigned integer, as \<open>Display\<close> does it.\<close>

fun dec :: "nat \<Rightarrow> bytes" where
  "dec n = (if n < 10 then [char_of (48 + n)] else dec (n div 10) @ [char_of (48 + n mod 10)])"

declare dec.simps [simp del]

subsection \<open>\<open>BTreeMap\<close>\<close>

text \<open>A \<open>BTreeMap\<close> is its entries in strictly increasing key order.\<close>

fun btree_insert :: "'k :: linorder \<Rightarrow> 'v \<Rightarrow> ('k \<times> 'v) list \<Rightarrow> ('k \<times> 'v) list" where
  "btree_insert k v [] = [(k, v)]"
| "btree_insert k v (e # m) =
     (if fst e < k then e # btree_insert k v m
      else if fst e = k then (k, v) # m
      else (k, v) # e # m)"

lemma map_of_btree_insert [simp]: "map_of (btree_insert k v m) = (map_of m)(k \<mapsto> v)"
  by (induction k v m rule: btree_insert.induct) (auto simp: fun_eq_iff)

end
