(* ===== verification/Jsonrpc.thy ===== *)
theory Jsonrpc
  imports Prelude
begin

text \<open>
  \<open>src/jsonrpc/mod.rs\<close>: what the proxy reads from a JSON-RPC body and what it writes back.
  Parsing and printing JSON (\<open>serde_json\<close>) and the hash (\<open>xxh3\<close>) are third-party code: they are
  the fields of the record \<open>serde\<close>, an argument of every definition that uses them.
\<close>

subsection \<open>The third-party interface\<close>

text \<open>\<open>serde_json::Value\<close>; an object lists its entries in key order.\<close>

datatype json =
  JNull
| JBool bool
| JInt int
| JFloat bytes
| JStr bytes
| JArr "json list"
| JObj "(bytes \<times> json) list"

record error_object =
  err_code :: int
  err_message :: bytes

text \<open>
  \<open>from_slice\<close> at each of the types the code asks for (\<open>None\<close> is a parse error), \<open>to_writer\<close>,
  \<open>to_vec\<close> and \<open>to_string\<close>, and \<open>Xxh3::digest128\<close>. \<open>de_error\<close> reads an \<open>ErrorEnvelope\<close>
  (inner \<open>None\<close>: no \<open>error\<close>, or null); \<open>de_method\<close> a \<open>MethodEnvelope\<close>; \<open>de_id\<close> an
  \<open>IdEnvelope\<close> (inner \<open>None\<close>: no \<open>id\<close>; a null id is present) with the raw text of the id;
  \<open>de_raw_map\<close> a map from keys to raw text.
\<close>

record serde =
  de_error :: "bytes \<Rightarrow> error_object option option"
  de_method :: "bytes \<Rightarrow> bytes option"
  de_value :: "bytes \<Rightarrow> json option"
  de_id :: "bytes \<Rightarrow> bytes option option"
  de_raw_map :: "bytes \<Rightarrow> (bytes \<times> bytes) list option"
  ser_raw_map :: "(bytes \<times> bytes) list \<Rightarrow> bytes option"
  ser_value :: "json \<Rightarrow> bytes option"
  print_value :: "json \<Rightarrow> bytes"
  digest128 :: "bytes \<Rightarrow> 128 word"

subsection \<open>The shape of a request body\<close>

datatype shape_kind = Batch | Single | Malformed

definition is_ascii_whitespace :: "char \<Rightarrow> bool" where
  "is_ascii_whitespace c \<longleftrightarrow> c \<in> {CHR 0x09, CHR 0x0A, CHR 0x0C, CHR 0x0D, CHR 0x20}"

fun memchr2 :: "char \<Rightarrow> char \<Rightarrow> bytes \<Rightarrow> nat option" where
  "memchr2 a b [] = None"
| "memchr2 a b (c # cs) = (if c = a \<or> c = b then Some 0 else map_option Suc (memchr2 a b cs))"

definition shape :: "bytes \<Rightarrow> shape_kind" where
  "shape body =
     (case memchr2 CHR ''{'' CHR ''['' body of
        Some i \<Rightarrow>
          if list_all is_ascii_whitespace (take i body) then
            if body ! i = CHR ''['' then Batch else Single
          else Malformed
      | None \<Rightarrow> Malformed)"

subsection \<open>Errors in a response\<close>

definition JSONRPC_INTERNAL_ERROR :: int where "JSONRPC_INTERNAL_ERROR = -32603"
definition LIMIT_EXCEEDED :: int where "LIMIT_EXCEEDED = -32005"
definition RESOURCE_UNAVAILABLE :: int where "RESOURCE_UNAVAILABLE = -32002"
definition GETH_SERVER_ERROR :: int where "GETH_SERVER_ERROR = -32000"

record rpc_fault =
  fault_code :: int
  fault_retryable :: bool

definition is_retryable_code :: "int \<Rightarrow> bytes \<Rightarrow> bool" where
  "is_retryable_code code message =
     (if code \<in> {LIMIT_EXCEEDED, RESOURCE_UNAVAILABLE, JSONRPC_INTERNAL_ERROR} then True
      else if code = GETH_SERVER_ERROR then find_sub ''execution reverted'' message = None
      else False)"

definition rpc_fault_in :: "serde \<Rightarrow> bytes \<Rightarrow> rpc_fault option" where
  "rpc_fault_in sj body =
     (case find_sub ''\"error\"'' body of
        None \<Rightarrow> None
      | Some _ \<Rightarrow>
          (case de_error sj body of
             None \<Rightarrow> None
           | Some None \<Rightarrow> None
           | Some (Some e) \<Rightarrow>
               Some \<lparr>fault_code = err_code e,
                     fault_retryable = is_retryable_code (err_code e) (err_message e)\<rparr>))"

subsection \<open>Methods\<close>

definition OTHER_METHOD :: bytes where "OTHER_METHOD = ''other''"

definition SENDS :: "bytes list" where
  "SENDS =
     [''eth_sendRawTransaction'', ''eth_sendTransaction'', ''eth_sendRawTransactionConditional'',
      ''eth_sendBundle'', ''eth_sendPrivateTransaction'']"

definition IDEMPOTENT_READS :: "bytes list" where
  "IDEMPOTENT_READS =
     [''eth_blockNumber'', ''eth_call'', ''eth_chainId'', ''eth_estimateGas'',
      ''eth_createAccessList'', ''eth_feeHistory'', ''eth_gasPrice'', ''eth_maxPriorityFeePerGas'',
      ''eth_blobBaseFee'', ''eth_getBalance'', ''eth_getCode'', ''eth_getStorageAt'',
      ''eth_getProof'', ''eth_getTransactionCount'', ''eth_getLogs'', ''eth_getBlockByHash'',
      ''eth_getBlockByNumber'', ''eth_getBlockReceipts'', ''eth_getBlockTransactionCountByHash'',
      ''eth_getBlockTransactionCountByNumber'', ''eth_getTransactionByHash'',
      ''eth_getTransactionByBlockHashAndIndex'', ''eth_getTransactionByBlockNumberAndIndex'',
      ''eth_getTransactionReceipt'', ''eth_getUncleCountByBlockHash'',
      ''eth_getUncleCountByBlockNumber'', ''eth_getUncleByBlockHashAndIndex'',
      ''eth_getUncleByBlockNumberAndIndex'', ''eth_syncing'', ''eth_protocolVersion'',
      ''net_version'', ''net_listening'', ''net_peerCount'', ''web3_clientVersion'', ''web3_sha3'']"

definition is_idempotent_read :: "bytes \<Rightarrow> bool" where
  "is_idempotent_read method \<longleftrightarrow> method \<in> set IDEMPOTENT_READS"

definition is_write_method :: "bytes \<Rightarrow> bool" where
  "is_write_method method \<longleftrightarrow> \<not> is_idempotent_read method"

definition method_labels :: "bytes list" where
  "method_labels = IDEMPOTENT_READS @ SENDS @ [OTHER_METHOD]"

definition method_label :: "serde \<Rightarrow> bytes \<Rightarrow> bytes" where
  "method_label sj body =
     (case de_method sj body of
        None \<Rightarrow> OTHER_METHOD
      | Some method \<Rightarrow>
          (case find (\<lambda>label. label = method) method_labels of
             Some label \<Rightarrow> label
           | None \<Rightarrow> OTHER_METHOD))"

subsection \<open>The dedup key\<close>

definition dedup_key :: "serde \<Rightarrow> bytes \<Rightarrow> 128 word option" where
  "dedup_key sj body =
     (case de_value sj body of
        Some (JObj request) \<Rightarrow>
          let params = (case map_of request ''params'' of Some p \<Rightarrow> p | None \<Rightarrow> JArr []);
              request' = AList.delete ''params'' request
          in (case map_of request' ''method'' of
                Some (JStr method) \<Rightarrow>
                  if \<not> is_idempotent_read method then None
                  else (case ser_value sj (JStr method) of
                          None \<Rightarrow> None
                        | Some m \<Rightarrow>
                            (case ser_value sj params of
                               None \<Rightarrow> None
                             | Some p \<Rightarrow> Some (digest128 sj (m @ p))))
              | _ \<Rightarrow> None)
      | _ \<Rightarrow> None)"

subsection \<open>Bodies the proxy writes\<close>

definition rpc_error_body :: "serde \<Rightarrow> int \<Rightarrow> bytes \<Rightarrow> bytes" where
  "rpc_error_body sj code msg =
     print_value sj
       (JObj [(''error'', JObj [(''code'', JInt code), (''message'', JStr msg)]),
              (''id'', JNull),
              (''jsonrpc'', JStr ''2.0'')])"

definition request_id :: "serde \<Rightarrow> bytes \<Rightarrow> bytes option" where
  "request_id sj body =
     (if shape body \<noteq> Single then None
      else (case de_id sj body of None \<Rightarrow> None | Some rid \<Rightarrow> rid))"

definition readdress :: "serde \<Rightarrow> bytes \<Rightarrow> bytes \<Rightarrow> bytes option" where
  "readdress sj body rid =
     (case de_raw_map sj body of
        None \<Rightarrow> None
      | Some envelope \<Rightarrow> ser_raw_map sj (btree_insert ''id'' rid envelope))"

subsection \<open>Shape: the first byte that is not white space decides\<close>

lemma memchr2_Some:
  "memchr2 a b s = Some i \<longleftrightarrow>
     i < length s \<and> (s ! i = a \<or> s ! i = b) \<and> a \<notin> set (take i s) \<and> b \<notin> set (take i s)"
proof (induction a b s arbitrary: i rule: memchr2.induct)
  case (2 a b c cs)
  then show ?case by (cases i) auto
qed simp

lemma ws_not_bracket:
  "list_all is_ascii_whitespace ws \<Longrightarrow> CHR ''{'' \<notin> set ws \<and> CHR ''['' \<notin> set ws"
proof -
  have "\<not> is_ascii_whitespace CHR ''{''" "\<not> is_ascii_whitespace CHR ''[''"
    by (simp_all add: is_ascii_whitespace_def)
  then show "list_all is_ascii_whitespace ws \<Longrightarrow> ?thesis" unfolding list_all_iff by blast
qed

lemma shape_bracket:
  assumes "list_all is_ascii_whitespace ws" "c = CHR ''{'' \<or> c = CHR ''[''"
  shows "shape (ws @ c # rest) = (if c = CHR ''['' then Batch else Single)"
proof -
  have "memchr2 CHR ''{'' CHR ''['' (ws @ c # rest) = Some (length ws)"
    using assms ws_not_bracket [OF assms(1)] by (auto simp: memchr2_Some)
  with assms show ?thesis by (simp add: shape_def)
qed

lemma shape_not_Malformed:
  assumes "shape body \<noteq> Malformed"
  obtains ws c rest where "body = ws @ c # rest" "list_all is_ascii_whitespace ws"
    "c = CHR ''{'' \<or> c = CHR ''[''"
proof -
  from assms obtain i where i: "memchr2 CHR ''{'' CHR ''['' body = Some i"
    and ws: "list_all is_ascii_whitespace (take i body)"
    by (auto simp: shape_def split: option.splits if_splits)
  from i have "i < length body" "body ! i = CHR ''{'' \<or> body ! i = CHR ''[''"
    by (auto simp: memchr2_Some)
  then show thesis using ws that [of "take i body" "body ! i" "drop (Suc i) body"]
    by (simp add: id_take_nth_drop [symmetric])
qed

text \<open>
  The shape of a request body is decided by its first byte that is not ASCII white space: an
  object opens a single request, an array a batch, and everything else (an empty body included) is
  malformed.
\<close>

theorem shape_correct:
  "(shape body = Single \<longleftrightarrow>
      (\<exists>ws rest. body = ws @ CHR ''{'' # rest \<and> list_all is_ascii_whitespace ws)) \<and>
   (shape body = Batch \<longleftrightarrow>
      (\<exists>ws rest. body = ws @ CHR ''['' # rest \<and> list_all is_ascii_whitespace ws))"
proof (cases "shape body = Malformed")
  case True
  have "shape (ws @ CHR ''{'' # rest) = Single" "shape (ws @ CHR ''['' # rest) = Batch"
    if "list_all is_ascii_whitespace ws" for ws rest
    using that by (simp_all add: shape_bracket)
  with True show ?thesis by (metis shape_kind.distinct(3,5))
next
  case False
  then obtain ws c rest where b: "body = ws @ c # rest" "list_all is_ascii_whitespace ws"
    "c = CHR ''{'' \<or> c = CHR ''[''"
    by (rule shape_not_Malformed)
  have kinds: "shape (ws @ CHR ''{'' # rest) = Single" "shape (ws @ CHR ''['' # rest) = Batch"
    if "list_all is_ascii_whitespace ws" for ws rest
    using that by (simp_all add: shape_bracket)
  show ?thesis
  proof (cases "c = CHR ''{''")
    case True
    with b kinds(1) have "shape body = Single" by simp
    with b True kinds(2) show ?thesis by (metis shape_kind.distinct(1))
  next
    case False
    with b have "c = CHR ''[''" by simp
    with b kinds(2) have "shape body = Batch" by simp
    with b \<open>c = CHR ''[''\<close> kinds(1) show ?thesis by (metis shape_kind.distinct(1))
  qed
qed

subsection \<open>Methods: the labels, the reads and the writes\<close>

lemma distinct_method_labels: "distinct method_labels"
  by (simp add: method_labels_def IDEMPOTENT_READS_def SENDS_def OTHER_METHOD_def)

lemma reads_not_sends: "m \<in> set SENDS \<Longrightarrow> \<not> is_idempotent_read m"
  using distinct_method_labels by (auto simp: is_idempotent_read_def method_labels_def)

lemma other_is_write [simp]: "is_write_method OTHER_METHOD"
  using distinct_method_labels by (auto simp: is_write_method_def is_idempotent_read_def method_labels_def)

lemma find_eq: "find (\<lambda>x. x = y) xs = (if y \<in> set xs then Some y else None)"
  by (induction xs) auto

lemma method_label_eq:
  "method_label sj body =
     (case de_method sj body of
        Some m \<Rightarrow> if m \<in> set method_labels then m else OTHER_METHOD
      | None \<Rightarrow> OTHER_METHOD)"
  by (auto simp: method_label_def find_eq split: option.splits)

lemma method_label_in: "method_label sj body \<in> set method_labels"
  by (auto simp: method_label_eq method_labels_def split: option.splits)

lemma read_label:
  "\<not> is_write_method (method_label sj body) \<longleftrightarrow>
     (\<exists>m. de_method sj body = Some m \<and> is_idempotent_read m)"
  using other_is_write
  by (auto simp: method_label_eq is_write_method_def is_idempotent_read_def method_labels_def
      split: option.splits)

subsection \<open>The dedup key stands for the question\<close>

text \<open>
  What a body asks, apart from the key the code computes: the method and the parameters, an absent
  \<open>params\<close> being the empty list; only a known read asks a question that can be shared.
\<close>

definition question :: "serde \<Rightarrow> bytes \<Rightarrow> (bytes \<times> json) option" where
  "question sj body =
     (case de_value sj body of
        Some (JObj request) \<Rightarrow>
          (case map_of request ''method'' of
             Some (JStr method) \<Rightarrow>
               if is_idempotent_read method then
                 Some (method, case map_of request ''params'' of Some p \<Rightarrow> p | None \<Rightarrow> JArr [])
               else None
           | _ \<Rightarrow> None)
      | _ \<Rightarrow> None)"

definition hash_input :: "serde \<Rightarrow> bytes \<Rightarrow> json \<Rightarrow> bytes option" where
  "hash_input sj method params =
     (case (ser_value sj (JStr method), ser_value sj params) of
        (Some m, Some p) \<Rightarrow> Some (m @ p)
      | _ \<Rightarrow> None)"

lemma dedup_key_question:
  "dedup_key sj body =
     (case question sj body of
        None \<Rightarrow> None
      | Some (m, p) \<Rightarrow> map_option (digest128 sj) (hash_input sj m p))"
proof (cases "de_value sj body")
  case (Some v)
  show ?thesis
  proof (cases v)
    case (JObj request)
    have "map_of (AList.delete ''params'' request) ''method'' = map_of request ''method''"
      by (simp add: AList.delete_conv')
    with Some JObj show ?thesis
      by (simp add: dedup_key_def question_def hash_input_def Let_def split: option.split json.split)
  qed (simp_all add: dedup_key_def question_def Some)
qed (simp add: dedup_key_def question_def)

lemma question_read: "question sj body = Some (m, p) \<Longrightarrow> is_idempotent_read m"
  by (auto simp: question_def split: option.splits json.splits if_splits)

text \<open>No allowlisted name contains a double quote, so its printed form ends at the next one.\<close>

lemma reads_no_quote: "is_idempotent_read m \<Longrightarrow> CHR 0x22 \<notin> set m"
proof -
  have "list_all (\<lambda>m. CHR 0x22 \<notin> set m) IDEMPOTENT_READS"
    by (simp add: IDEMPOTENT_READS_def)
  then show "is_idempotent_read m \<Longrightarrow> ?thesis"
    unfolding is_idempotent_read_def list_all_iff by blast
qed

definition prints_names :: "serde \<Rightarrow> bool" where
  "prints_names sj \<longleftrightarrow>
     (\<forall>m. is_idempotent_read m \<longrightarrow> ser_value sj (JStr m) = Some (CHR 0x22 # m @ [CHR 0x22]))"

definition prints_apart :: "serde \<Rightarrow> json \<Rightarrow> json \<Rightarrow> bool" where
  "prints_apart sj p q \<longleftrightarrow> (ser_value sj p = ser_value sj q \<longrightarrow> p = q)"

lemma append_stop:
  "a \<notin> set xs \<Longrightarrow> a \<notin> set ys \<Longrightarrow> xs @ a # us = ys @ a # vs \<Longrightarrow> xs = ys \<and> us = vs"
proof (induction xs arbitrary: ys)
  case Nil
  then show ?case by (cases ys) auto
next
  case (Cons x xs)
  then show ?case by (cases ys) auto
qed

lemma hash_input_inj:
  assumes "prints_names sj" "is_idempotent_read m1" "is_idempotent_read m2"
    "hash_input sj m1 p1 = Some x" "hash_input sj m2 p2 = Some x" "prints_apart sj p1 p2"
  shows "m1 = m2 \<and> p1 = p2"
proof -
  let ?q = "CHR 0x22"
  have n1: "ser_value sj (JStr m1) = Some (?q # m1 @ [?q])"
    and n2: "ser_value sj (JStr m2) = Some (?q # m2 @ [?q])"
    using assms(1-3) unfolding prints_names_def by blast+
  obtain t1 where t1: "ser_value sj p1 = Some t1" and x1: "x = ?q # m1 @ ?q # t1"
    using assms(4) n1 by (auto simp: hash_input_def split: option.splits)
  obtain t2 where t2: "ser_value sj p2 = Some t2" and x2: "x = ?q # m2 @ ?q # t2"
    using assms(5) n2 by (auto simp: hash_input_def split: option.splits)
  have eq: "m1 @ ?q # t1 = m2 @ ?q # t2" using x1 x2 by simp
  have "m1 = m2 \<and> t1 = t2"
    by (rule append_stop [OF reads_no_quote [OF assms(2)] reads_no_quote [OF assms(3)] eq])
  with t1 t2 assms(6) show ?thesis by (simp add: prints_apart_def)
qed

text \<open>
  C34: Two keyed requests get the same dedup key exactly when they ask the same question: the id,
  the protocol version and the order of object keys play no part, and distinct methods or parameters
  get distinct keys as long as the hash does not collide on the two texts. The printer of
  \<open>serde_json\<close> is assumed to quote the plain allowlisted names and to print the two parameter
  values apart.
\<close>

theorem dedup_key_same_question:
  assumes "dedup_key sj b1 = Some k1" "dedup_key sj b2 = Some k2"
    and "question sj b1 = Some (m1, p1)" "question sj b2 = Some (m2, p2)"
    and "prints_names sj" "prints_apart sj p1 p2"
    and "inj_on (digest128 sj) {x. hash_input sj m1 p1 = Some x \<or> hash_input sj m2 p2 = Some x}"
  shows "k1 = k2 \<longleftrightarrow> m1 = m2 \<and> p1 = p2"
proof -
  obtain x1 where x1: "hash_input sj m1 p1 = Some x1" and k1: "k1 = digest128 sj x1"
    using assms(1,3) by (auto simp: dedup_key_question)
  obtain x2 where x2: "hash_input sj m2 p2 = Some x2" and k2: "k2 = digest128 sj x2"
    using assms(2,4) by (auto simp: dedup_key_question)
  have "k1 = k2 \<longleftrightarrow> x1 = x2"
    using assms(7) x1 x2 by (simp add: k1 k2 inj_on_def) metis
  also have "\<dots> \<longleftrightarrow> m1 = m2 \<and> p1 = p2"
  proof
    assume "x1 = x2"
    then show "m1 = m2 \<and> p1 = p2"
      using hash_input_inj [OF assms(5) question_read [OF assms(3)] question_read [OF assms(4)]]
        x1 x2 assms(6) by blast
  next
    assume "m1 = m2 \<and> p1 = p2"
    with x1 x2 show "x1 = x2" by simp
  qed
  finally show ?thesis .
qed

subsection \<open>A small instance of the interface\<close>

text \<open>
  Functions in the place of the third-party ones, for evaluating the theorems on concrete bodies: the
  method of a body is what follows its first character, a body with an error carries code -32005, and
  an envelope is kept as the text of its id alone.
\<close>

definition demo_serde :: serde where
  "demo_serde =
     \<lparr>de_error = (\<lambda>b. Some (Some \<lparr>err_code = - 32005, err_message = []\<rparr>)),
      de_method = (\<lambda>b. Some (tl b)),
      de_value = (\<lambda>b. Some (JObj [(''method'', JStr (tl b))])),
      de_id = (\<lambda>b. Some (Some ''7'')),
      de_raw_map = (\<lambda>b. Some [(''id'', b)]),
      ser_raw_map = (\<lambda>m. map_of m ''id''),
      ser_value = (\<lambda>v. case v of JStr s \<Rightarrow> Some (CHR 0x22 # s @ [CHR 0x22]) | _ \<Rightarrow> Some []),
      print_value = (\<lambda>v. ''error''),
      digest128 = (\<lambda>b. of_nat (length b))\<rparr>"

theorem dedup_key_same_question_witness:
  "((10 :: 128 word) = 13) = (''eth_call'' = ''eth_chainId'' \<and> JArr [] = JArr [])"
  using dedup_key_same_question [of demo_serde "''{eth_call''" 10 "''{eth_chainId''" 13
      "''eth_call''" "JArr []" "''eth_chainId''" "JArr []"]
  by (simp add: demo_serde_def dedup_key_def question_def is_idempotent_read_def IDEMPOTENT_READS_def
      prints_names_def prints_apart_def hash_input_def inj_on_def)

end
