(* ===== verification/Settings.thy ===== *)
theory Settings
  imports Prelude
begin

text \<open>
  The settings records of \<open>src/config.rs\<close>, field by field, and the names of the deciders. How they
  are read, expanded and validated is in theory \<open>Config\<close>.
\<close>

record hedge_settings =
  hedge_enabled :: bool
  after_in_millis :: u64

record dedup_settings =
  dedup_enabled :: bool

record proxy_settings =
  ps_max_attempt :: u64
  retry_after_in_secs :: u64
  rpc_timeout_in_secs :: u64
  ps_max_response_bytes :: u64
  ps_hedge :: hedge_settings
  ps_dedup :: dedup_settings

record cors_settings =
  allowed_origins :: "bytes list"

record application_settings =
  port :: "16 word"
  host :: bytes
  proxy :: proxy_settings
  cors :: cors_settings

datatype decider_kind = RoundRobin | PreferLeastErrors | LeastLatency

fun kind_as_str :: "decider_kind \<Rightarrow> bytes" where
  "kind_as_str RoundRobin = ''ROUND_ROBIN''"
| "kind_as_str PreferLeastErrors = ''PREFER_LEAST_ERRORS''"
| "kind_as_str LeastLatency = ''LEAST_LATENCY''"

record upstream_settings =
  us_label :: bytes
  us_url :: bytes
  hedge_after_in_millis :: "u64 option"

record settings =
  application :: application_settings
  upstreams :: "upstream_settings list"
  legacy_rpc_timeout_in_secs :: "u64 option"
  decider :: decider_kind

end
