(* ===== verification/Upstream.thy ===== *)
theory Upstream
  imports Jsonrpc Settings
begin

text \<open>
  \<open>src/upstream/mod.rs\<close> and \<open>src/upstream/call.rs\<close>: an upstream, how it is built from settings,
  what one call to it returns and which failures may be retried elsewhere. The HTTP client
  (\<open>reqwest\<close>) is third-party: what it reports for one request is an argument, either a transport
  error or a response with its status, its \<open>Content-Length\<close> and the chunks of its body.
\<close>

subsection \<open>Identity\<close>

datatype upstream_id = UpstreamId (as_str: bytes)

text \<open>Sorting by id is sorting by label.\<close>

instantiation upstream_id :: linorder
begin

definition less_eq_upstream_id :: "upstream_id \<Rightarrow> upstream_id \<Rightarrow> bool" where
  "less_eq_upstream_id a b \<longleftrightarrow> as_str a \<le> as_str b"

definition less_upstream_id :: "upstream_id \<Rightarrow> upstream_id \<Rightarrow> bool" where
  "less_upstream_id a b \<longleftrightarrow> as_str a < as_str b"

instance
proof
  fix a b c :: upstream_id
  show "a < b \<longleftrightarrow> a \<le> b \<and> \<not> b \<le> a"
    by (auto simp: less_eq_upstream_id_def less_upstream_id_def)
  show "a \<le> a" by (simp add: less_eq_upstream_id_def)
  show "a \<le> b \<Longrightarrow> b \<le> c \<Longrightarrow> a \<le> c" by (simp add: less_eq_upstream_id_def)
  show "a \<le> b \<Longrightarrow> b \<le> a \<Longrightarrow> a = b" by (simp add: less_eq_upstream_id_def upstream_id.expand)
  show "a \<le> b \<or> b \<le> a" by (auto simp: less_eq_upstream_id_def)
qed

end

definition DEFAULT_RPC_TIMEOUT_IN_SECS :: u64 where "DEFAULT_RPC_TIMEOUT_IN_SECS = 3"
definition DEFAULT_HEDGE_AFTER_IN_MILLIS :: u64 where "DEFAULT_HEDGE_AFTER_IN_MILLIS = 250"
definition DEFAULT_MAX_RESPONSE_BYTES :: u64 where "DEFAULT_MAX_RESPONSE_BYTES = 10 * 1024 * 1024"

text \<open>The shared HTTP client of an upstream is the transport of the call, not a field here.\<close>

record upstream =
  url :: bytes
  uid :: upstream_id
  timeout :: duration
  hedge_after :: duration
  max_response_bytes :: u64

subsection \<open>Building upstreams\<close>

text \<open>The variants \<open>Upstream::new\<close> returns; \<open>HttpClient\<close> is declared, but no code constructs it.\<close>

datatype build_error =
  EmptyLabel | EmptyUrl | ZeroTimeout | ZeroHedgeAfter | ZeroMaxResponseBytes

record build_all_error =
  bad_label :: bytes
  source :: build_error

definition new_upstream ::
  "bytes \<Rightarrow> bytes \<Rightarrow> u64 option \<Rightarrow> u64 option \<Rightarrow> u64 option \<Rightarrow> (build_error, upstream) result" where
  "new_upstream label url' timeout_secs hedge_millis max_bytes =
     (let rpc_timeout = (case timeout_secs of Some t \<Rightarrow> t | None \<Rightarrow> DEFAULT_RPC_TIMEOUT_IN_SECS);
          hedge = (case hedge_millis of Some h \<Rightarrow> h | None \<Rightarrow> DEFAULT_HEDGE_AFTER_IN_MILLIS);
          cap = (case max_bytes of Some m \<Rightarrow> m | None \<Rightarrow> DEFAULT_MAX_RESPONSE_BYTES)
      in if blank label then Inl EmptyLabel
         else if blank url' then Inl EmptyUrl
         else if rpc_timeout = 0 then Inl ZeroTimeout
         else if hedge = 0 then Inl ZeroHedgeAfter
         else if cap = 0 then Inl ZeroMaxResponseBytes
         else Inr \<lparr>url = url', uid = UpstreamId label, timeout = from_secs rpc_timeout,
                   hedge_after = from_millis hedge, max_response_bytes = cap\<rparr>)"

definition build_one :: "proxy_settings \<Rightarrow> upstream_settings \<Rightarrow> (build_all_error, upstream) result" where
  "build_one ps item =
     map_err (\<lambda>e. \<lparr>bad_label = us_label item, source = e\<rparr>)
       (new_upstream (us_label item) (us_url item) (Some (rpc_timeout_in_secs ps))
          (Some (case hedge_after_in_millis item of Some h \<Rightarrow> h | None \<Rightarrow> after_in_millis (ps_hedge ps)))
          (Some (ps_max_response_bytes ps)))"

text \<open>\<open>build_http_client\<close>: what the client shared by all upstreams is built with.\<close>

record http_client_config =
  pool_max_idle_per_host :: nat
  pool_idle_timeout :: duration
  connect_timeout :: duration

definition POOL_MAX_IDLE_PER_HOST :: nat where "POOL_MAX_IDLE_PER_HOST = 32"
definition POOL_IDLE_TIMEOUT :: duration where "POOL_IDLE_TIMEOUT = from_secs 90"

definition build_http_client :: "proxy_settings \<Rightarrow> http_client_config" where
  "build_http_client ps =
     \<lparr>pool_max_idle_per_host = POOL_MAX_IDLE_PER_HOST, pool_idle_timeout = POOL_IDLE_TIMEOUT,
      connect_timeout = from_secs (rpc_timeout_in_secs ps)\<rparr>"

definition build_all ::
  "upstream_settings list \<Rightarrow> proxy_settings \<Rightarrow> (build_all_error, upstream list) result" where
  "build_all items ps = collect_results (map (build_one ps) items)"

subsection \<open>One call\<close>

record http_request =
  rq_url :: bytes
  rq_content_type :: bytes
  rq_body :: bytes
  rq_timeout :: duration

text \<open>\<open>Upstream::send\<close>: the POST request handed to the client.\<close>

definition send_request :: "upstream \<Rightarrow> bytes \<Rightarrow> http_request" where
  "send_request u body =
     \<lparr>rq_url = url u, rq_content_type = ''application/json'', rq_body = body, rq_timeout = timeout u\<rparr>"

text \<open>A client error, already without its URL: its own text and the texts of its sources.\<close>

record reqwest_error =
  re_display :: bytes
  re_sources :: "bytes list"

definition error_chain :: "reqwest_error \<Rightarrow> bytes" where
  "error_chain err = foldl (\<lambda>out cause. out @ '': '' @ cause) (re_display err) (re_sources err)"

record http_response =
  res_status :: nat
  content_length :: "u64 option"
  chunks :: "(reqwest_error, bytes) result list"

type_synonym sent = "(reqwest_error, http_response) result"

datatype call_error =
  Unreachable (ce_error: bytes)
| ReadFailed (ce_status: nat) (ce_error: bytes)
| RpcError (ce_status: nat) (ce_code: int) (ce_retryable: bool) (ce_body: bytes)
| ErrorStatus (ce_status: nat)

record call_outcome =
  co_http_status :: nat
  response_body :: bytes

record call_result =
  cr_duration :: duration
  cr_result :: "(call_error, call_outcome) result"

record call_record =
  rec_duration :: duration
  rec_outcome :: "(call_error, nat) result"

definition call_record_of :: "call_result \<Rightarrow> call_record" where
  "call_record_of c =
     \<lparr>rec_duration = cr_duration c,
      rec_outcome = (case cr_result c of Inr outcome \<Rightarrow> Inr (co_http_status outcome) | Inl e \<Rightarrow> Inl e)\<rparr>"

fun http_status :: "call_error \<Rightarrow> nat option" where
  "http_status (Unreachable _) = None"
| "http_status (ReadFailed s _) = Some s"
| "http_status (ErrorStatus s) = Some s"
| "http_status (RpcError s _ _ _) = Some s"

definition is_server_error :: "nat \<Rightarrow> bool" where
  "is_server_error s \<longleftrightarrow> 500 \<le> s \<and> s < 600"

fun is_retryable :: "call_error \<Rightarrow> bool" where
  "is_retryable (Unreachable _) = True"
| "is_retryable (ReadFailed _ _) = True"
| "is_retryable (ErrorStatus s) = (s = 429 \<or> is_server_error s)"
| "is_retryable (RpcError _ _ r _) = r"

fun display_error :: "call_error \<Rightarrow> bytes" where
  "display_error (Unreachable e) = e"
| "display_error (ReadFailed _ e) = e"
| "display_error (RpcError _ code _ _) =
     ''upstream returned rpc error code '' @ (if code < 0 then ''-'' else []) @ dec (nat \<bar>code\<bar>)"
| "display_error (ErrorStatus s) = ''upstream returned error status '' @ dec s"

definition too_large :: "upstream \<Rightarrow> nat \<Rightarrow> call_error" where
  "too_large u status =
     ReadFailed status
       (''response exceeds max_response_bytes ('' @ dec (unat (max_response_bytes u)) @ '')'')"

text \<open>The loop over \<open>chunk()\<close>, with the bytes read so far.\<close>

fun read_chunks ::
  "upstream \<Rightarrow> nat \<Rightarrow> bytes \<Rightarrow> (reqwest_error, bytes) result list \<Rightarrow> (call_error, bytes) result" where
  "read_chunks u status body [] = Inr body"
| "read_chunks u status body (Inl err # cs) = Inl (ReadFailed status (error_chain err))"
| "read_chunks u status body (Inr chunk # cs) =
     (if unat (max_response_bytes u) < length body + length chunk then Inl (too_large u status)
      else read_chunks u status (body @ chunk) cs)"

definition call_inner :: "serde \<Rightarrow> upstream \<Rightarrow> sent \<Rightarrow> (call_error, call_outcome) result" where
  "call_inner sj u sent =
     (case sent of
        Inl err \<Rightarrow> Inl (Unreachable (error_chain err))
      | Inr res \<Rightarrow>
          let status = res_status res
          in if (case content_length res of Some len \<Rightarrow> max_response_bytes u < len | None \<Rightarrow> False)
             then Inl (too_large u status)
             else and_then (read_chunks u status [] (chunks res)) (\<lambda>body.
               if status \<noteq> 200 then Inl (ErrorStatus status)
               else (case rpc_fault_in sj body of
                       Some fault \<Rightarrow>
                         Inl (RpcError status (fault_code fault) (fault_retryable fault) body)
                     | None \<Rightarrow> Inr \<lparr>co_http_status = status, response_body = body\<rparr>)))"

definition upstream_call :: "serde \<Rightarrow> upstream \<Rightarrow> sent \<Rightarrow> duration \<Rightarrow> call_result" where
  "upstream_call sj u sent elapsed = \<lparr>cr_duration = elapsed, cr_result = call_inner sj u sent\<rparr>"

subsection \<open>The body that is read\<close>

lemma read_chunks_Inr:
  "read_chunks u status acc cs = Inr body \<longleftrightarrow>
     (\<exists>parts. cs = map Inr parts \<and> body = acc @ concat parts \<and>
        (cs = [] \<or> length body \<le> unat (max_response_bytes u)))"
proof (induction u status acc cs rule: read_chunks.induct)
  case (3 u status acc chunk cs)
  show ?case
  proof (cases "unat (max_response_bytes u) < length acc + length chunk")
    case True
    then show ?thesis by (auto simp: Cons_eq_map_conv)
  next
    case False
    with 3 show ?thesis by (auto simp: Cons_eq_map_conv)
  qed
qed auto

lemma read_chunks_prefix:
  "length (acc @ concat parts) \<le> unat (max_response_bytes u) \<Longrightarrow>
   read_chunks u status acc (map Inr parts @ cs) = read_chunks u status (acc @ concat parts) cs"
  by (induction parts arbitrary: acc) auto

text \<open>Where the reading of a body stops: at a chunk past the cap, or at one that did not arrive.\<close>

definition chunks_stop :: "upstream \<Rightarrow> nat \<Rightarrow> (reqwest_error, bytes) result list \<Rightarrow> call_error \<Rightarrow> bool" where
  "chunks_stop u status cs e \<longleftrightarrow>
     (\<exists>parts c rest. cs = map Inr parts @ c # rest \<and> length (concat parts) \<le> unat (max_response_bytes u) \<and>
        (case c of
           Inl err \<Rightarrow> e = ReadFailed status (error_chain err)
         | Inr chunk \<Rightarrow> unat (max_response_bytes u) < length (concat parts) + length chunk \<and> e = too_large u status))"

lemma read_chunks_stop:
  "read_chunks u status acc cs = Inl e \<Longrightarrow> length acc \<le> unat (max_response_bytes u) \<Longrightarrow>
   \<exists>parts c rest. cs = map Inr parts @ c # rest \<and> length (acc @ concat parts) \<le> unat (max_response_bytes u) \<and>
     (case c of
        Inl err \<Rightarrow> e = ReadFailed status (error_chain err)
      | Inr chunk \<Rightarrow> unat (max_response_bytes u) < length (acc @ concat parts) + length chunk \<and> e = too_large u status)"
proof (induction u status acc cs rule: read_chunks.induct)
  case (2 u status acc err cs)
  then show ?case by (intro exI [of _ "[]"] exI [of _ "Inl err"] exI [of _ cs]) simp
next
  case (3 u status acc chunk cs)
  show ?case
  proof (cases "unat (max_response_bytes u) < length acc + length chunk")
    case True
    with 3(2,3) show ?thesis by (intro exI [of _ "[]"] exI [of _ "Inr chunk"] exI [of _ cs]) simp
  next
    case False
    with 3 obtain parts c rest where "cs = map Inr parts @ c # rest"
      "length ((acc @ chunk) @ concat parts) \<le> unat (max_response_bytes u)"
      "case c of
        Inl err \<Rightarrow> e = ReadFailed status (error_chain err)
      | Inr chunk' \<Rightarrow> unat (max_response_bytes u) < length ((acc @ chunk) @ concat parts) + length chunk' \<and>
          e = too_large u status" by auto
    then show ?thesis by (intro exI [of _ "chunk # parts"] exI [of _ c] exI [of _ rest]) (simp split: sum.splits)
  qed
qed simp

lemma read_chunks_Inl: "read_chunks u status [] cs = Inl e \<longleftrightarrow> chunks_stop u status cs e"
proof
  assume "read_chunks u status [] cs = Inl e"
  from read_chunks_stop [OF this] show "chunks_stop u status cs e" by (simp add: chunks_stop_def cong: sum.case_cong)
next
  assume "chunks_stop u status cs e"
  then obtain parts c rest where c: "cs = map Inr parts @ c # rest" "length (concat parts) \<le> unat (max_response_bytes u)"
    "case c of Inl err \<Rightarrow> e = ReadFailed status (error_chain err)
     | Inr chunk \<Rightarrow> unat (max_response_bytes u) < length (concat parts) + length chunk \<and> e = too_large u status"
    by (auto simp: chunks_stop_def)
  then show "read_chunks u status [] cs = Inl e" by (cases c) (simp_all add: read_chunks_prefix)
qed

text \<open>
  C32: A call succeeds exactly when a response arrived, no declared length and no prefix of the body
  exceeds the cap, no chunk failed, the status is 200 and the body carries no JSON-RPC error; the
  outcome then holds that status and the whole body.
\<close>

theorem call_inner_success:
  "call_inner sj u sent = Inr out \<longleftrightarrow>
     (\<exists>res parts. sent = Inr res \<and> chunks res = map Inr parts \<and> res_status res = 200 \<and>
        (\<forall>len. content_length res = Some len \<longrightarrow> len \<le> max_response_bytes u) \<and>
        length (concat parts) \<le> unat (max_response_bytes u) \<and>
        rpc_fault_in sj (concat parts) = None \<and>
        out = \<lparr>co_http_status = 200, response_body = concat parts\<rparr>)"
proof (cases sent)
  case (Inl err)
  then show ?thesis by (simp add: call_inner_def)
next
  case (Inr res)
  show ?thesis
  proof (cases "case content_length res of Some len \<Rightarrow> max_response_bytes u < len | None \<Rightarrow> False")
    case True
    with Inr show ?thesis by (auto simp: call_inner_def Let_def split: option.splits)
  next
    case False
    then have "\<forall>len. content_length res = Some len \<longrightarrow> len \<le> max_response_bytes u"
      by (auto simp: not_less)
    with False Inr show ?thesis
      by (auto simp: call_inner_def Let_def read_chunks_Inr split: option.splits if_splits)
  qed
qed

text \<open>
  C33: What a failed call reports, and when. No answer is unreachable. An answer whose declared length
  is past the cap, or that is past it with some chunk, is a failed read that says so; one with a chunk
  that did not arrive, within the cap so far, is a failed read with the causes of that; then an answer with
  another status than 200 is an error status; and a 200 with a JSON-RPC error keeps the body, the code
  and the retry verdict on it.
\<close>

theorem call_inner_failure:
  "call_inner sj u sent = Inl e \<longleftrightarrow>
     (case sent of
        Inl err \<Rightarrow> e = Unreachable (error_chain err)
      | Inr res \<Rightarrow>
          if (case content_length res of Some len \<Rightarrow> max_response_bytes u < len | None \<Rightarrow> False)
          then e = too_large u (res_status res)
          else chunks_stop u (res_status res) (chunks res) e \<or>
            (\<exists>parts. chunks res = map Inr parts \<and> length (concat parts) \<le> unat (max_response_bytes u) \<and>
               (if res_status res \<noteq> 200 then e = ErrorStatus (res_status res)
                else \<exists>fault. rpc_fault_in sj (concat parts) = Some fault \<and>
                  e = RpcError 200 (fault_code fault) (fault_retryable fault) (concat parts))))"
proof (cases sent)
  case (Inl err)
  then show ?thesis by (auto simp: call_inner_def)
next
  case (Inr res)
  show ?thesis
  proof (cases "read_chunks u (res_status res) [] (chunks res)")
    case (Inl e')
    have "\<not> (chunks res = map Inr parts \<and> length (concat parts) \<le> unat (max_response_bytes u))" for parts
      using Inl read_chunks_Inr [of u "res_status res" "[]" "chunks res" "concat parts"] by auto
    moreover have "chunks_stop u (res_status res) (chunks res) e \<longleftrightarrow> e' = e" using Inl by (simp flip: read_chunks_Inl)
    ultimately show ?thesis using Inr Inl by (auto simp: call_inner_def Let_def)
  next
    case body: (Inr body)
    then obtain parts where p: "chunks res = map Inr parts" "body = concat parts"
        "length body \<le> unat (max_response_bytes u)"
      by (auto simp: read_chunks_Inr)
    have "chunks res = map Inr parts' \<longleftrightarrow> parts' = parts" for parts'
      by (auto simp: p(1) inj_map_eq_map)
    moreover have "\<not> chunks_stop u (res_status res) (chunks res) e" using body by (simp flip: read_chunks_Inl)
    ultimately show ?thesis using Inr body p
      by (auto simp: call_inner_def Let_def split: option.splits)
  qed
qed

subsection \<open>Concrete calls\<close>

definition demo_upstream :: "bytes \<Rightarrow> upstream" where
  "demo_upstream l =
     \<lparr>url = l, uid = UpstreamId l, timeout = 1, hedge_after = 1, max_response_bytes = 100\<rparr>"

definition demo_ok :: sent where
  "demo_ok = Inr \<lparr>res_status = 200, content_length = Some 2, chunks = [Inr ''{'', Inr ''}'']\<rparr>"

definition demo_fault :: sent where
  "demo_fault = Inr \<lparr>res_status = 200, content_length = None,
     chunks = [Inr (''{'' @ [CHR 0x22] @ ''error''), Inr ([CHR 0x22] @ '':1}'')]\<rparr>"

definition demo_down :: sent where
  "demo_down = Inl \<lparr>re_display = ''down'', re_sources = []\<rparr>"

theorem call_inner_success_witness:
  "call_inner demo_serde (demo_upstream ''a'') demo_ok = Inr \<lparr>co_http_status = 200, response_body = ''{}''\<rparr>"
proof -
  have "rpc_fault_in demo_serde ''{}'' = None"
    by (simp add: rpc_fault_in_def)
  then show ?thesis
    unfolding call_inner_success
    by (intro exI [of _ "\<lparr>res_status = 200, content_length = Some 2, chunks = [Inr ''{'', Inr ''}'']\<rparr>"]
        exI [of _ "[''{'', ''}'']"])
      (simp add: demo_ok_def demo_upstream_def)
qed

lemma demo_fault_result:
  "call_inner demo_serde (demo_upstream ''a'') demo_fault =
     Inl (RpcError 200 (- 32005) True (''{'' @ [CHR 0x22] @ ''error'' @ [CHR 0x22] @ '':1}''))"
  by (simp add: call_inner_def demo_fault_def demo_upstream_def rpc_fault_in_def demo_serde_def
      is_retryable_code_def LIMIT_EXCEEDED_def)

text \<open>The third chunk would pass the cap of 100 bytes, or never arrives.\<close>

theorem call_inner_failure_witness:
  "call_inner demo_serde (demo_upstream ''a'') (Inr \<lparr>res_status = 200, content_length = None,
      chunks = [Inr ''{'', Inr ''}'', Inr (replicate 99 CHR 0x20), Inr ''}'']\<rparr>) =
     Inl (ReadFailed 200 ''response exceeds max_response_bytes (100)'') \<and>
   call_inner demo_serde (demo_upstream ''a'') (Inr \<lparr>res_status = 503, content_length = Some 3,
      chunks = [Inr ''{'', Inr ''}'', Inl \<lparr>re_display = ''reset'', re_sources = [''eof'']\<rparr>]\<rparr>) =
     Inl (ReadFailed 503 ''reset: eof'')"
proof
  have "chunks_stop (demo_upstream ''a'') 200 [Inr ''{'', Inr ''}'', Inr (replicate 99 CHR 0x20), Inr ''}'']
      (ReadFailed 200 ''response exceeds max_response_bytes (100)'')"
    unfolding chunks_stop_def
    by (intro exI [of _ "[''{'', ''}'']"] exI [of _ "Inr (replicate 99 CHR 0x20)"] exI [of _ "[Inr ''}'']"])
      (simp add: too_large_def demo_upstream_def dec.simps [of 100] dec.simps [of 10] dec.simps [of "Suc 0"] char_of_def bit_0)
  then show "call_inner demo_serde (demo_upstream ''a'') (Inr \<lparr>res_status = 200, content_length = None,
      chunks = [Inr ''{'', Inr ''}'', Inr (replicate 99 CHR 0x20), Inr ''}'']\<rparr>) =
     Inl (ReadFailed 200 ''response exceeds max_response_bytes (100)'')"
    unfolding call_inner_failure by simp
next
  have "chunks_stop (demo_upstream ''a'') 503 [Inr ''{'', Inr ''}'', Inl \<lparr>re_display = ''reset'', re_sources = [''eof'']\<rparr>]
      (ReadFailed 503 ''reset: eof'')"
    unfolding chunks_stop_def
    by (intro exI [of _ "[''{'', ''}'']"] exI [of _ "Inl \<lparr>re_display = ''reset'', re_sources = [''eof'']\<rparr>"]
        exI [of _ "[]"]) (simp add: demo_upstream_def error_chain_def)
  then show "call_inner demo_serde (demo_upstream ''a'') (Inr \<lparr>res_status = 503, content_length = Some 3,
      chunks = [Inr ''{'', Inr ''}'', Inl \<lparr>re_display = ''reset'', re_sources = [''eof'']\<rparr>]\<rparr>) =
     Inl (ReadFailed 503 ''reset: eof'')"
    unfolding call_inner_failure by (simp add: demo_upstream_def)
qed

end
