(* ===== verification/Decider.thy ===== *)
theory Decider
  imports Upstream
begin

text \<open>
  \<open>src/decider.rs\<close> and the three deciders' \<open>decide\<close>: \<open>src/decider/round_robin.rs\<close>,
  \<open>src/decider/prefer_least_errors/mod.rs\<close> and \<open>src/decider/least_latency/mod.rs\<close>. The trait is the
  locale \<open>decider_contract\<close>; each decider is an interpretation of it. A decider's atomic counter is a
  field of its state, advanced by \<open>decide\<close>; the ranking is replaced by the refreshers (theories
  \<open>Ranking\<close> and \<open>Refresher\<close>).
\<close>

subsection \<open>The deciders\<close>

datatype decider_error = EmptyUpstreams | UnknownUpstream upstream_id | ZeroWindow

record round_robin =
  rr_upstreams :: "upstream list"
  rr_next :: u64

definition rr_new :: "upstream list \<Rightarrow> (decider_error, round_robin) result" where
  "rr_new ups = (if ups = [] then Inl EmptyUpstreams else Inr \<lparr>rr_upstreams = ups, rr_next = 0\<rparr>)"

definition rr_decide :: "round_robin \<Rightarrow> nat \<Rightarrow> upstream list \<times> round_robin" where
  "rr_decide s cap =
     (if rr_upstreams s = [] \<or> cap = 0 then ([], s)
      else
        let start = unat (rr_next s) mod length (rr_upstreams s);
            head = take start (rr_upstreams s);
            tail = drop start (rr_upstreams s)
        in (take cap (tail @ head), s\<lparr>rr_next := rr_next s + 1\<rparr>))"

definition rr_upstream_len :: "round_robin \<Rightarrow> nat" where
  "rr_upstream_len s = length (rr_upstreams s)"

record prefer_least_errors =
  ple_ranking :: "upstream list"

definition ple_decide :: "prefer_least_errors \<Rightarrow> nat \<Rightarrow> upstream list \<times> prefer_least_errors" where
  "ple_decide s cap = (take cap (ple_ranking s), s)"

definition ple_upstream_len :: "prefer_least_errors \<Rightarrow> nat" where
  "ple_upstream_len s = length (ple_ranking s)"

definition PROBE_EVERY :: u64 where "PROBE_EVERY = 20"

record least_latency =
  ll_ranking :: "upstream list"
  ll_requests :: u64

definition ll_decide :: "least_latency \<Rightarrow> nat \<Rightarrow> upstream list \<times> least_latency" where
  "ll_decide s cap =
     (let ranking = ll_ranking s;
          request = ll_requests s;
          s' = s\<lparr>ll_requests := request + 1\<rparr>;
          challengers = length ranking - 1
      in if challengers = 0 \<or> request mod PROBE_EVERY \<noteq> 0 then (take cap ranking, s')
         else
           let probed = unat (request div PROBE_EVERY) mod challengers + 1
           in (take cap (ranking ! probed # take probed ranking @ drop (probed + 1) ranking), s'))"

definition ll_upstream_len :: "least_latency \<Rightarrow> nat" where
  "ll_upstream_len s = length (ll_ranking s)"

text \<open>The trait's default: always ready. No decider overrides it.\<close>

definition decider_ready :: "'s \<Rightarrow> bool" where
  "decider_ready s = True"

subsection \<open>The contract\<close>

text \<open>
  What the pipeline relies on: a chain is the first \<open>max\<close> elements of some arrangement of the pool,
  and deciding changes neither the pool nor the invariant.
\<close>

locale decider_contract =
  fixes decide :: "'s \<Rightarrow> nat \<Rightarrow> upstream list \<times> 's"
    and upstream_len :: "'s \<Rightarrow> nat"
    and pool :: "'s \<Rightarrow> upstream list"
    and invar :: "'s \<Rightarrow> bool"
  assumes arrangement: "invar s \<Longrightarrow> \<exists>ys. mset ys = mset (pool s) \<and> fst (decide s cap) = take cap ys"
    and keeps_pool: "pool (snd (decide s cap)) = pool s"
    and keeps_invar: "invar s \<Longrightarrow> invar (snd (decide s cap))"
    and len_pool: "upstream_len s = length (pool s)"
    and pool_used: "invar s \<Longrightarrow> pool s \<noteq> []"
begin

lemma chain_length: "invar s \<Longrightarrow> length (fst (decide s cap)) = min cap (upstream_len s)"
  using arrangement [of s cap] by (metis len_pool length_take min.commute size_mset)

lemma chain_subset: "invar s \<Longrightarrow> set (fst (decide s cap)) \<subseteq> set (pool s)"
  using arrangement [of s cap] by (metis set_mset_mset set_take_subset)

lemma chain_distinct:
  assumes "invar s" "distinct (map f (pool s))"
  shows "distinct (map f (fst (decide s cap)))"
proof -
  obtain ys where ys: "mset ys = mset (pool s)" "fst (decide s cap) = take cap ys"
    using arrangement assms(1) by blast
  then have "mset (map f ys) = mset (map f (pool s))" by simp
  with assms(2) have "distinct (map f ys)" by (metis mset_eq_imp_distinct_iff)
  with ys show ?thesis by (simp add: take_map [symmetric])
qed

lemma chain_full:
  assumes "invar s" "upstream_len s \<le> cap"
  shows "mset (fst (decide s cap)) = mset (pool s)"
proof -
  obtain ys where ys: "mset ys = mset (pool s)" "fst (decide s cap) = take cap ys"
    using arrangement assms(1) by blast
  from ys(1) have "length ys = length (pool s)" by (rule mset_eq_length)
  with ys assms(2) show ?thesis by (simp add: len_pool)
qed

lemma chain_empty: "invar s \<Longrightarrow> fst (decide s cap) = [] \<longleftrightarrow> cap = 0"
proof -
  assume i: "invar s"
  have "0 < length (pool s)" using pool_used [OF i] by simp
  then have "min cap (upstream_len s) = 0 \<longleftrightarrow> cap = 0" by (simp add: len_pool min_def)
  with chain_length [OF i, of cap] show ?thesis by (metis length_0_conv)
qed

end

text \<open>Deciding \<open>n\<close> times in a row: the chains in order, and the last state.\<close>

fun decide_seq :: "('s \<Rightarrow> nat \<Rightarrow> upstream list \<times> 's) \<Rightarrow> 's \<Rightarrow> nat \<Rightarrow> nat \<Rightarrow> upstream list list \<times> 's" where
  "decide_seq decide s cap 0 = ([], s)"
| "decide_seq decide s cap (Suc n) =
     (let (chain, s') = decide s cap; (chains, s'') = decide_seq decide s' cap n
      in (chain # chains, s''))"

context decider_contract
begin

lemma decide_seq_chains:
  "invar s \<Longrightarrow> chain \<in> set (fst (decide_seq decide s cap n)) \<Longrightarrow>
     length chain = min cap (upstream_len s) \<and> set chain \<subseteq> set (pool s)"
proof (induction n arbitrary: s)
  case (Suc n)
  let ?s' = "snd (decide s cap)"
  have split: "fst (decide_seq decide s cap (Suc n)) =
      fst (decide s cap) # fst (decide_seq decide ?s' cap n)"
    by (simp add: split_beta)
  show ?case
  proof (cases "chain = fst (decide s cap)")
    case True
    with Suc.prems show ?thesis by (simp add: chain_length chain_subset)
  next
    case False
    with Suc.prems split have "chain \<in> set (fst (decide_seq decide ?s' cap n))" by simp
    with Suc.IH [OF keeps_invar [OF Suc.prems(1), of cap]] show ?thesis
      by (simp add: keeps_pool len_pool)
  qed
qed simp

end

subsection \<open>The deciders keep the contract\<close>

lemma mset_move_front:
  "i < length xs \<Longrightarrow> mset (xs ! i # take i xs @ drop (i + 1) xs) = mset xs"
  by (metis Suc_eq_plus1 id_take_nth_drop mset.simps(2) mset_append union_mset_add_mset_right)

interpretation rr: decider_contract rr_decide rr_upstream_len rr_upstreams "\<lambda>s. rr_upstreams s \<noteq> []"
proof unfold_locales
  fix s :: round_robin and cap :: nat
  assume ne: "rr_upstreams s \<noteq> []"
  let ?k = "unat (rr_next s) mod length (rr_upstreams s)"
  have "mset (drop ?k (rr_upstreams s) @ take ?k (rr_upstreams s)) = mset (rr_upstreams s)"
    by (metis append_take_drop_id mset_append union_commute)
  moreover have "fst (rr_decide s cap) = take cap (drop ?k (rr_upstreams s) @ take ?k (rr_upstreams s))"
    using ne by (cases "cap = 0") (simp_all add: rr_decide_def Let_def)
  ultimately show "\<exists>ys. mset ys = mset (rr_upstreams s) \<and> fst (rr_decide s cap) = take cap ys"
    by blast
qed (simp_all add: rr_decide_def rr_upstream_len_def Let_def)

interpretation ple: decider_contract ple_decide ple_upstream_len ple_ranking "\<lambda>s. ple_ranking s \<noteq> []"
  by unfold_locales (auto simp: ple_decide_def ple_upstream_len_def)

lemma probed_in_range:
  "0 < n - (1 :: nat) \<Longrightarrow> k mod (n - 1) + 1 < n"
  using mod_less_divisor [of "n - 1" k] by linarith

interpretation ll: decider_contract ll_decide ll_upstream_len ll_ranking "\<lambda>s. ll_ranking s \<noteq> []"
proof unfold_locales
  fix s :: least_latency and cap :: nat
  assume "ll_ranking s \<noteq> []"
  let ?n = "length (ll_ranking s)" and ?k = "unat (ll_requests s div PROBE_EVERY)"
  show "\<exists>ys. mset ys = mset (ll_ranking s) \<and> fst (ll_decide s cap) = take cap ys"
  proof (cases "?n - 1 = 0 \<or> ll_requests s mod PROBE_EVERY \<noteq> 0")
    case True
    then show ?thesis by (auto simp: ll_decide_def Let_def)
  next
    case False
    then have "?k mod (?n - 1) + 1 < ?n" by (intro probed_in_range) simp
    from mset_move_front [OF this] False show ?thesis
      by (auto simp: ll_decide_def Let_def simp del: mset.simps)
  qed
qed (auto simp: ll_decide_def ll_upstream_len_def Let_def)

subsection \<open>Whose turn it is\<close>

lemma rr_decide_rotate:
  assumes "rr_upstreams s \<noteq> []" "0 < cap"
  shows "rr_decide s cap =
    (take cap (rotate (unat (rr_next s)) (rr_upstreams s)), s\<lparr>rr_next := rr_next s + 1\<rparr>)"
  using assms by (simp add: rr_decide_def Let_def rotate_drop_take)

lemma hd_take: "0 < n \<Longrightarrow> hd (take n xs) = hd xs"
  by (cases n; cases xs) auto

lemma rr_seq_heads:
  assumes "rr_upstreams s \<noteq> []" "0 < cap" "unat (rr_next s) + n < 2 ^ 64"
  shows "map hd (fst (decide_seq rr_decide s cap n)) =
    map (\<lambda>i. rr_upstreams s ! ((unat (rr_next s) + i) mod length (rr_upstreams s))) [0..<n]"
  using assms
proof (induction n arbitrary: s)
  case (Suc n)
  let ?s' = "s\<lparr>rr_next := rr_next s + 1\<rparr>"
  have u: "unat (rr_next ?s') = unat (rr_next s) + 1"
    using Suc.prems(3) by (simp add: unat_add_u64)
  have "map hd (fst (decide_seq rr_decide s cap (Suc n))) =
      hd (rotate (unat (rr_next s)) (rr_upstreams s)) # map hd (fst (decide_seq rr_decide ?s' cap n))"
    using Suc.prems by (simp add: rr_decide_rotate split_beta hd_take)
  also have "hd (rotate (unat (rr_next s)) (rr_upstreams s)) =
      rr_upstreams s ! (unat (rr_next s) mod length (rr_upstreams s))"
    using Suc.prems(1) by (rule hd_rotate_conv_nth)
  also have "map hd (fst (decide_seq rr_decide ?s' cap n)) =
      map (\<lambda>i. rr_upstreams s ! ((unat (rr_next s) + 1 + i) mod length (rr_upstreams s))) [0..<n]"
    using Suc.IH [of ?s'] Suc.prems unfolding u by simp
  finally show ?case by (simp add: map_upt_Suc add.assoc del: upt_Suc)
qed simp

text \<open>
  Round robin gives each upstream a turn: over as many consecutive decisions as there are
  upstreams, every upstream leads the chain exactly once, in the configured order starting from the
  counter's position (the counter not wrapping in between).
\<close>

theorem rr_each_leads_once:
  assumes "rr_upstreams s \<noteq> []" "0 < cap"
    and "unat (rr_next s) + length (rr_upstreams s) < 2 ^ 64"
  shows "map hd (fst (decide_seq rr_decide s cap (length (rr_upstreams s)))) =
    rotate (unat (rr_next s)) (rr_upstreams s)"
  using rr_seq_heads [OF assms]
  by (auto intro!: nth_equalityI simp: nth_rotate)

theorem rr_each_leads_once_witness:
  "map hd (fst (decide_seq rr_decide
      \<lparr>rr_upstreams = [demo_upstream ''a'', demo_upstream ''b''], rr_next = 3\<rparr> 2
      (length [demo_upstream ''a'', demo_upstream ''b'']))) =
   rotate 3 [demo_upstream ''a'', demo_upstream ''b'']"
  using rr_each_leads_once [of
      "\<lparr>rr_upstreams = [demo_upstream ''a'', demo_upstream ''b''], rr_next = 3\<rparr>" 2]
  by (simp del: decide_seq.simps)

subsection \<open>When a challenger is probed\<close>

text \<open>The index, in the ranking, of the upstream that leads the chain of request number \<open>r\<close>.\<close>

definition leader_index :: "nat \<Rightarrow> nat \<Rightarrow> nat" where
  "leader_index n r = (if n - 1 = 0 \<or> r mod 20 \<noteq> 0 then 0 else r div 20 mod (n - 1) + 1)"

lemma leader_index_less: "0 < n \<Longrightarrow> leader_index n r < n"
  using probed_in_range [of n "r div 20"] by (auto simp: leader_index_def simp del: One_nat_def)

lemma probe_every: "unat PROBE_EVERY = 20"
  by (simp add: PROBE_EVERY_def)

lemma ll_decide_head:
  assumes "ll_ranking s \<noteq> []" "0 < cap"
  shows "hd (fst (ll_decide s cap)) =
    ll_ranking s ! leader_index (length (ll_ranking s)) (unat (ll_requests s))"
proof -
  let ?r = "ll_requests s" and ?n = "length (ll_ranking s)"
  have m: "?r mod PROBE_EVERY = 0 \<longleftrightarrow> unat ?r mod 20 = 0"
    by (metis probe_every unat_0 unat_eq_zero unat_mod)
  have d: "unat (?r div PROBE_EVERY) = unat ?r div 20"
    by (metis probe_every unat_div)
  show ?thesis
    using assms by (simp add: ll_decide_def Let_def m d hd_take leader_index_def hd_conv_nth)
qed

lemma ll_decide_next:
  "ll_ranking (snd (ll_decide s cap)) = ll_ranking s"
  "ll_requests (snd (ll_decide s cap)) = ll_requests s + 1"
  by (simp_all add: ll_decide_def Let_def)

lemma ll_seq_heads:
  assumes "ll_ranking s \<noteq> []" "0 < cap" "unat (ll_requests s) + n < 2 ^ 64"
  shows "map hd (fst (decide_seq ll_decide s cap n)) =
    map (\<lambda>i. ll_ranking s ! leader_index (length (ll_ranking s)) (unat (ll_requests s) + i)) [0..<n]"
  using assms
proof (induction n arbitrary: s)
  case (Suc n)
  let ?s' = "snd (ll_decide s cap)"
  have u: "unat (ll_requests s + 1) = unat (ll_requests s) + 1"
    using Suc.prems(3) by (simp add: unat_add_u64)
  have "map hd (fst (decide_seq ll_decide s cap (Suc n))) =
      hd (fst (ll_decide s cap)) # map hd (fst (decide_seq ll_decide ?s' cap n))"
    by (simp add: split_beta)
  also have "map hd (fst (decide_seq ll_decide ?s' cap n)) =
      map (\<lambda>i. ll_ranking s ! leader_index (length (ll_ranking s)) (unat (ll_requests s) + 1 + i)) [0..<n]"
    using Suc.IH [of ?s'] Suc.prems unfolding ll_decide_next u by simp
  finally show ?case
    using Suc.prems by (simp add: map_upt_Suc add.assoc ll_decide_head del: upt_Suc)
qed simp

text \<open>Of \<open>m\<close> consecutive numbers, exactly one has a given remainder modulo \<open>m\<close>.\<close>

lemma same_residue:
  assumes "(r + i) mod m = (r + j) mod m" "i < (m :: nat)" "j < m"
  shows "i = j"
  using assms
proof (induction i j rule: linorder_wlog)
  case (le i j)
  then have "m dvd (r + j) - (r + i)" by (metis add_le_cancel_left mod_eq_dvd_iff_nat)
  with le show ?case by (auto dest: dvd_imp_le)
qed simp

lemma one_residue:
  assumes "t < (m :: nat)"
  shows "length (filter (\<lambda>i. (r + i) mod m = t) [0..<m]) = 1"
proof -
  have inj: "inj_on (\<lambda>i. (r + i) mod m) {0..<m}"
    by (rule inj_onI) (rule same_residue, assumption, simp_all)
  then have "(\<lambda>i. (r + i) mod m) ` {0..<m} = {0..<m}"
    using assms by (intro endo_inj_surj) auto
  with assms have "t \<in> (\<lambda>i. (r + i) mod m) ` {0..<m}" by simp
  then obtain i where i: "i < m" "(r + i) mod m = t" by auto
  have "k = i" if "k < m" "(r + k) mod m = t" for k
    using that i by (intro same_residue [of r k m i]) simp_all
  with i have "{k. k < m \<and> (r + k) mod m = t} = {i}" by blast
  moreover have "length (filter (\<lambda>i. (r + i) mod m = t) [0..<m]) = card {k. k < m \<and> (r + k) mod m = t}"
    by (simp add: length_filter_conv_card cong: conj_cong)
  ultimately show ?thesis by simp
qed

lemma twenty_split:
  assumes "0 < j" "b < 20"
  shows "20 * a + b = 20 * (j - 1) \<longleftrightarrow> b = 0 \<and> a + 1 = (j :: nat)"
proof
  assume e: "20 * a + b = 20 * (j - 1)"
  have "b = (20 * a + b) mod 20" using assms(2) by simp
  also have "\<dots> = 0" unfolding e by simp
  finally show "b = 0 \<and> a + 1 = j" using e assms(1) by simp
qed (use assms in auto)

lemma leader_once:
  assumes "0 < j" "j < n"
  shows "length (filter (\<lambda>i. leader_index n (r + i) = j) [0..<20 * (n - 1)]) = 1"
proof -
  have "leader_index n k = j \<longleftrightarrow> k mod (20 * (n - 1)) = 20 * (j - 1)" for k
  proof -
    have m: "k mod (20 * (n - 1)) = 20 * (k div 20 mod (n - 1)) + k mod 20"
      by (rule mod_mult2_eq)
    have split: "b < 20 \<Longrightarrow> 20 * a + b = 20 * (j - 1) \<longleftrightarrow> b = 0 \<and> a + 1 = j" for a b
      using assms(1) by (rule twenty_split)
    have "k mod 20 < 20" by simp
    from split [OF this, of "k div 20 mod (n - 1)"]
    have "k mod (20 * (n - 1)) = 20 * (j - 1) \<longleftrightarrow> k mod 20 = 0 \<and> k div 20 mod (n - 1) + 1 = j"
      by (simp only: m)
    moreover have "leader_index n k = j \<longleftrightarrow> k mod 20 = 0 \<and> k div 20 mod (n - 1) + 1 = j"
      using assms unfolding leader_index_def by (cases "k mod 20 = 0") simp_all
    ultimately show ?thesis by simp
  qed
  with one_residue [of "20 * (j - 1)" "20 * (n - 1)" r] assms show ?thesis by simp
qed

text \<open>
  Least latency probes every challenger: over any \<open>20 * c\<close> consecutive decisions, where \<open>c\<close> is
  the number of upstreams behind the first of the ranking, each of them leads the chain exactly once
  (the ranking unchanged and the counter not wrapping in between).
\<close>

theorem ll_probes_each_challenger:
  assumes "distinct (ll_ranking s)" "0 < j" "j < length (ll_ranking s)" "0 < cap"
    and "unat (ll_requests s) + 20 * (length (ll_ranking s) - 1) < 2 ^ 64"
  shows "length (filter (\<lambda>u. u = ll_ranking s ! j)
      (map hd (fst (decide_seq ll_decide s cap (20 * (length (ll_ranking s) - 1)))))) = 1"
proof -
  let ?n = "length (ll_ranking s)"
  have same: "ll_ranking s ! leader_index ?n k = ll_ranking s ! j \<longleftrightarrow> leader_index ?n k = j" for k
    using assms(1-3) by (intro nth_eq_iff_index_eq leader_index_less) auto
  have "ll_ranking s \<noteq> []" using assms(3) by auto
  with ll_seq_heads [OF this assms(4,5)] leader_once [OF assms(2,3)] show ?thesis
    by (simp add: filter_map o_def same del: upt_Suc)
qed

theorem ll_probes_each_challenger_witness:
  "length (filter (\<lambda>u. u = [demo_upstream ''a'', demo_upstream ''b'', demo_upstream ''c''] ! 2)
      (map hd (fst (decide_seq ll_decide
        \<lparr>ll_ranking = [demo_upstream ''a'', demo_upstream ''b'', demo_upstream ''c''], ll_requests = 7\<rparr> 3 40)))) = 1"
  using ll_probes_each_challenger [of
      "\<lparr>ll_ranking = [demo_upstream ''a'', demo_upstream ''b'', demo_upstream ''c''], ll_requests = 7\<rparr>" 2 3]
  by (simp add: demo_upstream_def del: decide_seq.simps)

end
