(* ===== verification/F64.thy ===== *)
theory F64
  imports Complex_Main Prelude
begin

text \<open>
  The IEEE 754 binary64 arithmetic the rankings use, on non-negative finite values. A double is the
  rational number it denotes and every operation rounds its exact result to 53 significant bits,
  to nearest, ties to even. The exponent is unbounded: the values computed here (ratios of two
  \<open>u64\<close> counts, durations in seconds, both scaled by a constant below 1) are zero or lie between
  \<open>2 ^ -65\<close> and \<open>2 ^ 65\<close>, far inside the normal range, so no operation over- or underflows.
\<close>

type_synonym f64 = rat

subsection \<open>Rounding to an integer, ties to even\<close>

definition round_even :: "rat \<Rightarrow> int" where
  "round_even x =
     (let n = \<lfloor>x\<rfloor>; d = x - of_int n
      in if d < 1 / 2 then n else if 1 / 2 < d then n + 1 else if even n then n else n + 1)"

lemma round_even_bounds: "\<lfloor>x\<rfloor> \<le> round_even x" "round_even x \<le> \<lfloor>x\<rfloor> + 1"
  by (simp_all add: round_even_def Let_def)

lemma round_even_of_int [simp]: "round_even (of_int n) = n"
  by (simp add: round_even_def)

lemma round_even_mono:
  assumes "x \<le> y"
  shows "round_even x \<le> round_even y"
proof (cases "\<lfloor>x\<rfloor> = \<lfloor>y\<rfloor>")
  case True
  with assms show ?thesis by (simp add: round_even_def Let_def)
next
  case False
  with assms have "\<lfloor>x\<rfloor> + 1 \<le> \<lfloor>y\<rfloor>" using floor_mono [OF assms] by linarith
  with round_even_bounds [of x] round_even_bounds [of y] show ?thesis by linarith
qed

lemma round_even_le_int: "x \<le> of_int n \<Longrightarrow> round_even x \<le> n"
  using round_even_mono [of x "of_int n"] by simp

lemma int_le_round_even: "of_int n \<le> x \<Longrightarrow> n \<le> round_even x"
  using round_even_mono [of "of_int n" x] by simp

lemma round_even_nonneg: "0 \<le> x \<Longrightarrow> 0 \<le> round_even x"
  using int_le_round_even [of 0 x] by simp

lemma round_even_error: "\<bar>of_int (round_even x) - x\<bar> \<le> 1 / 2"
proof -
  have "of_int \<lfloor>x\<rfloor> \<le> x" "x < of_int \<lfloor>x\<rfloor> + 1" by linarith+
  then show ?thesis by (simp add: round_even_def Let_def abs_le_iff)
qed

subsection \<open>The binary exponent\<close>

fun bits :: "nat \<Rightarrow> nat" where
  "bits n = (if n = 0 then 0 else Suc (bits (n div 2)))"

declare bits.simps [simp del]

lemma bits_0 [simp]: "bits 0 = 0"
  by (simp add: bits.simps)

lemma bits_bounds: "0 < n \<Longrightarrow> 2 ^ (bits n - 1) \<le> n \<and> n < 2 ^ bits n"
proof (induction n rule: bits.induct)
  case (1 n)
  show ?case
  proof (cases "n div 2 = 0")
    case True
    with "1.prems" have "n = 1" by simp
    moreover have "bits (Suc 0) = Suc 0" by (subst bits.simps) simp
    ultimately show ?thesis by simp
  next
    case False
    with "1.IH" "1.prems" have IH: "2 ^ (bits (n div 2) - 1) \<le> n div 2" "n div 2 < 2 ^ bits (n div 2)"
      by auto
    from False have "bits (n div 2) \<noteq> 0" by (subst bits.simps) simp
    then obtain k where k: "bits (n div 2) = Suc k" by (cases "bits (n div 2)") auto
    with "1.prems" have "bits n = Suc (Suc k)" by (subst bits.simps) simp
    with IH k show ?thesis by auto
  qed
qed

definition ilog2 :: "rat \<Rightarrow> int" where
  "ilog2 x =
     (case quotient_of x of (p, q) \<Rightarrow>
        let e = int (bits (nat p)) - int (bits (nat q))
        in if 2 powi e \<le> x then e else e - 1)"

lemma powi_pos [simp]: "0 < (2 :: rat) powi e"
  by (simp add: zero_less_power_int)

lemma powi_mono: "d \<le> e \<Longrightarrow> (2 :: rat) powi d \<le> 2 powi e"
  by (simp add: power_int_increasing)

lemma powi_Suc: "(2 :: rat) powi (e + 1) = 2 * 2 powi e"
  by (simp add: power_int_add)

lemma bits_bounds_rat:
  assumes "0 < n"
  shows "(2 :: rat) powi (int (bits n) - 1) \<le> of_nat n" "of_nat n < (2 :: rat) powi int (bits n)"
proof -
  from assms have b: "0 < bits n" by (subst bits.simps) simp
  have "(2 :: rat) powi (int (bits n) - 1) = of_nat (2 ^ (bits n - 1))"
    using b by (simp add: power_int_def nat_diff_distrib)
  also have "\<dots> \<le> of_nat n"
    using bits_bounds [OF assms] by (simp only: of_nat_le_iff)
  finally show "(2 :: rat) powi (int (bits n) - 1) \<le> of_nat n" .
  have "(of_nat n :: rat) < of_nat (2 ^ bits n)"
    using bits_bounds [OF assms] by (simp only: of_nat_less_iff)
  then show "of_nat n < (2 :: rat) powi int (bits n)" by (simp add: power_int_def)
qed

lemma ilog2_bounds:
  assumes "0 < x"
  shows "2 powi ilog2 x \<le> x" "x < 2 powi (ilog2 x + 1)"
proof -
  obtain p q where pq: "quotient_of x = (p, q)" by force
  have q: "0 < q" using quotient_of_denom_pos [OF pq] .
  have x: "x = of_int p / of_int q" using quotient_of_div [OF pq] .
  with assms q have p: "0 < p" by (simp add: zero_less_divide_iff)
  define P Q where "P = int (bits (nat p))" and "Q = int (bits (nat q))"
  have bp: "(2 :: rat) powi (P - 1) \<le> of_int p" "(of_int p :: rat) < 2 powi P"
    using bits_bounds_rat [of "nat p"] p by (simp_all add: P_def)
  have bq: "(2 :: rat) powi (Q - 1) \<le> of_int q" "(of_int q :: rat) < 2 powi Q"
    using bits_bounds_rat [of "nat q"] q by (simp_all add: Q_def)
  have "x < 2 powi P / 2 powi (Q - 1)"
    unfolding x using bp(2) bq(1) p q by (intro frac_less) auto
  then have hi: "x < 2 powi (P - Q + 1)" by (simp add: power_int_diff power_int_add)
  have "2 powi (P - 1) / 2 powi Q \<le> x"
    unfolding x using bp(1) bq(2) p q by (intro frac_le) auto
  then have lo: "2 powi (P - Q - 1) \<le> x" by (simp add: power_int_diff)
  from hi lo show "2 powi ilog2 x \<le> x" "x < 2 powi (ilog2 x + 1)"
    by (auto simp: ilog2_def pq Let_def P_def Q_def not_le)
qed

lemma ilog2_mono:
  assumes "0 < x" "x \<le> y"
  shows "ilog2 x \<le> ilog2 y"
proof (rule ccontr)
  assume "\<not> ilog2 x \<le> ilog2 y"
  then have "ilog2 y + 1 \<le> ilog2 x" by simp
  then have "(2 :: rat) powi (ilog2 y + 1) \<le> 2 powi ilog2 x" by (rule powi_mono)
  with ilog2_bounds(1) [of x] ilog2_bounds(2) [of y] assms show False by simp
qed

subsection \<open>Rounding to 53 significant bits\<close>

text \<open>The distance between two doubles in the binade of \<open>x\<close>.\<close>

definition ulp :: "rat \<Rightarrow> rat" where
  "ulp x = 2 powi (ilog2 x - 52)"

definition rnd :: "rat \<Rightarrow> f64" where
  "rnd x = (if x \<le> 0 then 0 else of_int (round_even (x / ulp x)) * ulp x)"

lemma ulp_pos [simp]: "0 < ulp x"
  by (simp add: ulp_def)

lemma ulp_nonneg [simp]: "0 \<le> ulp x"
  using ulp_pos [of x] by (simp del: ulp_pos)

lemma rnd_0 [simp]: "rnd 0 = 0"
  by (simp add: rnd_def)

lemma rnd_nonneg: "0 \<le> rnd x"
  by (simp add: rnd_def round_even_nonneg divide_nonneg_nonneg)

lemma rnd_binade:
  assumes "0 < x"
  shows "2 powi ilog2 x \<le> rnd x" "rnd x \<le> 2 powi (ilog2 x + 1)"
proof -
  have split: "(2 :: rat) powi ilog2 x = of_int (2 ^ 52) * ulp x"
    by (simp add: ulp_def power_int_diff)
  have "of_int (2 ^ 52) \<le> x / ulp x"
    using ilog2_bounds(1) [OF assms] split by (simp add: pos_le_divide_eq)
  then have "2 ^ 52 \<le> round_even (x / ulp x)" by (rule int_le_round_even)
  then have "of_int (2 ^ 52) \<le> (of_int (round_even (x / ulp x)) :: rat)"
    by (simp only: of_int_le_iff)
  with assms split show "2 powi ilog2 x \<le> rnd x"
    by (simp add: rnd_def mult_right_mono)
  have split': "(2 :: rat) powi (ilog2 x + 1) = of_int (2 ^ 53) * ulp x"
    by (simp add: ulp_def power_int_diff power_int_add)
  have "x / ulp x \<le> of_int (2 ^ 53)"
    using ilog2_bounds(2) [OF assms] split' by (simp add: pos_divide_le_eq)
  then have "round_even (x / ulp x) \<le> 2 ^ 53" by (rule round_even_le_int)
  then have "(of_int (round_even (x / ulp x)) :: rat) \<le> of_int (2 ^ 53)"
    by (simp only: of_int_le_iff)
  with assms split' show "rnd x \<le> 2 powi (ilog2 x + 1)"
    by (simp add: rnd_def mult_right_mono)
qed

lemma rnd_mono:
  assumes "x \<le> y"
  shows "rnd x \<le> rnd y"
proof (cases "x \<le> 0")
  case True
  then show ?thesis by (simp add: rnd_def [of x] rnd_nonneg)
next
  case False
  with assms have x: "0 < x" and y: "0 < y" by simp_all
  show ?thesis
  proof (cases "ilog2 x = ilog2 y")
    case True
    then have "ulp x = ulp y" by (simp add: ulp_def)
    moreover have "x / ulp y \<le> y / ulp y"
      using assms ulp_nonneg by (rule divide_right_mono)
    ultimately show ?thesis
      using x y by (simp add: rnd_def round_even_mono mult_right_mono)
  next
    case False
    with ilog2_mono [OF x assms] have "ilog2 x + 1 \<le> ilog2 y" by simp
    then have "(2 :: rat) powi (ilog2 x + 1) \<le> 2 powi ilog2 y" by (rule powi_mono)
    with rnd_binade(2) [OF x] rnd_binade(1) [OF y] show ?thesis by simp
  qed
qed

text \<open>The relative error is at most half a unit in the last place.\<close>

lemma rnd_error:
  assumes "0 \<le> x"
  shows "\<bar>rnd x - x\<bar> \<le> x / 2 ^ 53"
proof (cases "x = 0")
  case False
  with assms have x: "0 < x" by simp
  have "rnd x - x = (of_int (round_even (x / ulp x)) - x / ulp x) * ulp x"
    using x ulp_pos [of x] by (simp add: rnd_def left_diff_distrib del: ulp_pos ulp_nonneg)
  then have "\<bar>rnd x - x\<bar> = \<bar>of_int (round_even (x / ulp x)) - x / ulp x\<bar> * ulp x"
    by (simp add: abs_mult)
  also have "\<dots> \<le> 1 / 2 * ulp x"
    by (rule mult_right_mono [OF round_even_error ulp_nonneg])
  also have "\<dots> \<le> x / 2 ^ 53"
    using ilog2_bounds(1) [OF x] by (simp add: ulp_def power_int_diff field_simps)
  finally show ?thesis .
qed simp

lemma rnd_le: "0 \<le> x \<Longrightarrow> rnd x \<le> x * (1 + 1 / 2 ^ 53)"
  using rnd_error [of x] by (simp only: abs_le_iff) (simp add: field_simps)

lemma rnd_ge: "0 \<le> x \<Longrightarrow> x * (1 - 1 / 2 ^ 53) \<le> rnd x"
  using rnd_error [of x] by (simp only: abs_le_iff) (simp add: field_simps)

subsection \<open>Exactness\<close>

text \<open>A natural number of at most 53 bits is a double.\<close>

lemma rnd_of_nat [simp]:
  assumes "n \<le> 2 ^ 53"
  shows "rnd (of_nat n) = of_nat n"
proof (cases "n = 0")
  case False
  define x :: rat where "x = of_nat n"
  with False have x: "0 < x" by simp
  have le: "x \<le> 2 ^ 53" using assms unfolding x_def by (metis of_nat_le_iff of_nat_numeral of_nat_power)
  have "ilog2 x - 52 \<le> 1"
  proof (rule ccontr)
    assume "\<not> ilog2 x - 52 \<le> 1"
    then have "(2 :: rat) powi 54 \<le> 2 powi ilog2 x" by (intro powi_mono) simp
    with ilog2_bounds(1) [OF x] le show False by simp
  qed
  then consider "ilog2 x - 52 \<le> 0" | "ilog2 x = 53" by linarith
  then show ?thesis
  proof cases
    case 1
    then obtain k where k: "ilog2 x - 52 = - int k" by (metis int_nat_eq minus_minus neg_0_le_iff_le nonneg_int_cases)
    then have u: "ulp x = 1 / 2 ^ k" by (simp add: ulp_def power_int_minus divide_simps)
    have "x / ulp x = of_int (int n * 2 ^ k)" unfolding u by (simp add: x_def)
    then have "round_even (x / ulp x) = int n * 2 ^ k" by (simp only: round_even_of_int)
    with x u show ?thesis by (simp add: rnd_def x_def)
  next
    case 2
    with ilog2_bounds(1) [OF x] have "2 ^ 53 \<le> x" by simp
    with le have n: "x = 2 ^ 53" by simp
    from 2 have u: "ulp x = 2" by (simp add: ulp_def)
    have "x / ulp x = of_int (2 ^ 52)" using n u by simp
    then have "round_even (x / ulp x) = 2 ^ 52" by (simp only: round_even_of_int)
    with x u n show ?thesis by (simp add: rnd_def x_def)
  qed
qed simp

subsection \<open>Ratios of counts\<close>

lemma ratio_le_1: "n \<le> m \<Longrightarrow> of_nat n / of_nat m \<le> (1 :: rat)"
  by (cases "m = 0") (simp_all add: divide_le_eq_1)

lemma ratio_mono:
  assumes "0 < b" "0 < d" "a * d \<le> c * b"
  shows "of_nat a / of_nat b \<le> (of_nat c / of_nat d :: rat)"
proof -
  have "(of_nat (a * d) :: rat) \<le> of_nat (c * b)" using assms(3) by (simp only: of_nat_le_iff)
  with assms(1,2) show ?thesis by (simp add: field_simps)
qed

subsection \<open>The operations of the code\<close>

text \<open>\<open>u as f64\<close>, \<open>a / b\<close>, \<open>a * b\<close>, \<open>a + b\<close> and \<open>a - b\<close> (used for \<open>b \<le> a\<close> only).\<close>

definition f64_of_u64 :: "u64 \<Rightarrow> f64" where
  "f64_of_u64 w = rnd (of_nat (unat w))"

definition f64_div :: "f64 \<Rightarrow> f64 \<Rightarrow> f64" where
  "f64_div a b = rnd (a / b)"

definition f64_mul :: "f64 \<Rightarrow> f64 \<Rightarrow> f64" where
  "f64_mul a b = rnd (a * b)"

definition f64_add :: "f64 \<Rightarrow> f64 \<Rightarrow> f64" where
  "f64_add a b = rnd (a + b)"

definition f64_sub :: "f64 \<Rightarrow> f64 \<Rightarrow> f64" where
  "f64_sub a b = rnd (a - b)"

text \<open>
  \<open>Duration::as_secs_f64\<close> adds the rounded whole seconds to the rounded fraction;
  \<open>Duration::mul_f64\<close> multiplies that and \<open>Duration::from_secs_f64\<close> takes the nearest
  nanosecond, ties to even.
\<close>

definition as_secs_f64 :: "duration \<Rightarrow> f64" where
  "as_secs_f64 d =
     f64_add (rnd (of_nat (d div 1000000000))) (f64_div (rnd (of_nat (d mod 1000000000))) 1000000000)"

definition from_secs_f64 :: "f64 \<Rightarrow> duration" where
  "from_secs_f64 x = nat (round_even (x * 1000000000))"

definition mul_f64 :: "duration \<Rightarrow> f64 \<Rightarrow> duration" where
  "mul_f64 d x = from_secs_f64 (f64_mul x (as_secs_f64 d))"

end
