(* ===== verification/Snapshot.thy ===== *)
theory Snapshot
  imports Upstream F64
begin

text \<open>
  \<open>src/observer/snapshot.rs\<close>: the counters of one upstream, of one ordered pair and of one method,
  and the difference of two snapshots with its two scores. Atomics are read and written one at a
  time by relaxed operations; a counter is its value, and \<open>UpstreamStats\<close> and its \<open>Snapshot\<close> have the
  same fields, so one record serves for both and \<open>snapshot()\<close> is a copy.
\<close>

definition MICROS_PER_SEC :: u64 where "MICROS_PER_SEC = 1000000"

definition BUCKET_BOUNDS_MICROS :: "u64 list" where
  "BUCKET_BOUNDS_MICROS =
     [5000, 10000, 25000, 50000, 100000, 250000, 500000, MICROS_PER_SEC,
      DEFAULT_RPC_TIMEOUT_IN_SECS * MICROS_PER_SEC, 5 * MICROS_PER_SEC]"

definition ATTEMPT_BOUNDS :: "u64 list" where "ATTEMPT_BOUNDS = [1, 2, 3, 5, 10]"

text \<open>The compile-time assertion of the source.\<close>

lemma bucket_bounds_increase: "sorted_wrt (<) BUCKET_BOUNDS_MICROS"
  by (simp add: BUCKET_BOUNDS_MICROS_def MICROS_PER_SEC_def DEFAULT_RPC_TIMEOUT_IN_SECS_def)

lemma length_bucket_bounds [simp]: "length BUCKET_BOUNDS_MICROS = 10"
  by (simp add: BUCKET_BOUNDS_MICROS_def)

lemma attempt_bounds_increase: "sorted_wrt (<) ATTEMPT_BOUNDS"
  by (simp add: ATTEMPT_BOUNDS_def)

lemma length_attempt_bounds [simp]: "length ATTEMPT_BOUNDS = 5"
  by (simp add: ATTEMPT_BOUNDS_def)

record snapshot =
  success :: u64
  unreachable :: u64
  read_failed :: u64
  error_status :: u64
  rpc_error :: u64
  rpc_caller_fault :: u64
  abandoned :: u64
  retryable_failures :: u64
  buckets :: "u64 list"
  duration_micros_total :: u64
  retryable_failures_micros_total :: u64

definition default_snapshot :: snapshot where
  "default_snapshot =
     \<lparr>success = 0, unreachable = 0, read_failed = 0, error_status = 0, rpc_error = 0,
      rpc_caller_fault = 0, abandoned = 0, retryable_failures = 0, buckets = replicate 10 0,
      duration_micros_total = 0, retryable_failures_micros_total = 0\<rparr>"

definition stats_snapshot :: "snapshot \<Rightarrow> snapshot" where
  "stats_snapshot s = s"

record hedge_snapshot =
  started :: u64
  won :: u64

record request_snapshot =
  answered :: u64
  failed :: u64
  attempt_buckets :: "u64 list"
  attempts_total :: u64
  duration_buckets :: "u64 list"
  rq_duration_micros_total :: u64

definition default_request_snapshot :: request_snapshot where
  "default_request_snapshot =
     \<lparr>answered = 0, failed = 0, attempt_buckets = replicate 5 0, attempts_total = 0,
      duration_buckets = replicate 10 0, rq_duration_micros_total = 0\<rparr>"

subsection \<open>The difference of two snapshots\<close>

record stats_diff =
  d_success :: u64
  d_unreachable :: u64
  d_read_failed :: u64
  d_error_status :: u64
  d_rpc_error :: u64
  d_rpc_caller_fault :: u64
  d_abandoned :: u64
  d_retryable_failures :: u64
  d_duration_micros :: u64
  d_retryable_failures_micros :: u64

definition snapshot_diff :: "snapshot \<Rightarrow> snapshot \<Rightarrow> stats_diff" where
  "snapshot_diff self base =
     (let d = (\<lambda>f. sat_sub (f self) (f base))
      in \<lparr>d_success = d success, d_unreachable = d unreachable, d_read_failed = d read_failed,
          d_error_status = d error_status, d_rpc_error = d rpc_error,
          d_rpc_caller_fault = d rpc_caller_fault, d_abandoned = d abandoned,
          d_retryable_failures = d retryable_failures,
          d_duration_micros = d duration_micros_total,
          d_retryable_failures_micros = d retryable_failures_micros_total\<rparr>)"

definition diff_error :: "stats_diff \<Rightarrow> u64" where
  "diff_error d = d_error_status d + d_read_failed d + d_unreachable d + d_rpc_error d"

definition diff_success :: "stats_diff \<Rightarrow> u64" where
  "diff_success d = d_success d + d_rpc_caller_fault d"

definition diff_answered :: "stats_diff \<Rightarrow> u64" where
  "diff_answered d = diff_error d + diff_success d"

definition diff_calls :: "stats_diff \<Rightarrow> u64" where
  "diff_calls d = diff_answered d + d_abandoned d"

definition error_rate :: "stats_diff \<Rightarrow> f64" where
  "error_rate d =
     (let answered = diff_answered d
      in if answered = 0 then 0 else f64_div (f64_of_u64 (diff_error d)) (f64_of_u64 answered))"

definition latency_score :: "stats_diff \<Rightarrow> duration \<Rightarrow> duration option" where
  "latency_score d penalty =
     (let calls = diff_calls d
      in if calls = 0 then None
         else
           let measured_micros = sat_sub (d_duration_micros d) (d_retryable_failures_micros d);
               retryable_failures_cost_micros = sat_mul (d_retryable_failures d) (micros_u64 penalty)
           in Some (from_micros (sat_add measured_micros retryable_failures_cost_micros div calls)))"

subsection \<open>The counts of a difference\<close>

text \<open>All calls of a window, as a natural number; below \<open>2 ^ 64\<close> no sum of the code wraps.\<close>

definition calls_nat :: "stats_diff \<Rightarrow> nat" where
  "calls_nat d =
     unat (d_success d) + unat (d_unreachable d) + unat (d_read_failed d) + unat (d_error_status d) +
     unat (d_rpc_error d) + unat (d_rpc_caller_fault d) + unat (d_abandoned d)"

lemma diff_counts:
  assumes "calls_nat d < 2 ^ 64"
  shows "unat (diff_error d) =
           unat (d_error_status d) + unat (d_read_failed d) + unat (d_unreachable d) + unat (d_rpc_error d)"
    and "unat (diff_success d) = unat (d_success d) + unat (d_rpc_caller_fault d)"
    and "unat (diff_answered d) = unat (diff_error d) + unat (diff_success d)"
    and "unat (diff_calls d) = calls_nat d"
  using assms by (simp_all add: calls_nat_def diff_error_def diff_success_def diff_answered_def
      diff_calls_def unat_add_u64)

text \<open>
  The error rate of a window is a proportion: between 0 and 1, exactly 0 when no answered call
  failed, and no higher than that of any window with at least the same exact share of failures among
  its answered calls (the counts of each window staying below 2^53, where they are exact as
  doubles): the rounding of the division never reverses the order of two windows.
\<close>

theorem error_rate_monotone:
  assumes "calls_nat d < 2 ^ 53" "calls_nat d' < 2 ^ 53"
  shows "0 \<le> error_rate d \<and> error_rate d \<le> 1 \<and> (diff_error d = 0 \<longrightarrow> error_rate d = 0) \<and>
    (0 < diff_answered d \<and> 0 < diff_answered d' \<and>
     unat (diff_error d) * unat (diff_answered d') \<le> unat (diff_error d') * unat (diff_answered d)
       \<longrightarrow> error_rate d \<le> error_rate d')"
proof -
  have counts: "unat (diff_error e) \<le> unat (diff_answered e)" "unat (diff_answered e) \<le> 2 ^ 53"
    if "calls_nat e < 2 ^ 53" for e
  proof -
    from that have "calls_nat e < 2 ^ 64" by simp
    note c = diff_counts [OF this]
    show "unat (diff_error e) \<le> unat (diff_answered e)" using c by simp
    show "unat (diff_answered e) \<le> 2 ^ 53" using c that by (simp add: calls_nat_def)
  qed
  have rate: "error_rate e = rnd (of_nat (unat (diff_error e)) / of_nat (unat (diff_answered e)))"
    if "calls_nat e < 2 ^ 53" "diff_answered e \<noteq> 0" for e
  proof -
    have "unat (diff_error e) \<le> 2 ^ 53" "unat (diff_answered e) \<le> 2 ^ 53"
      using counts [OF that(1)] by simp_all
    then show ?thesis
      using that(2) by (simp only: error_rate_def f64_div_def f64_of_u64_def Let_def rnd_of_nat if_False)
  qed
  have le1: "error_rate d \<le> 1"
  proof (cases "diff_answered d = 0")
    case True
    then show ?thesis by (simp add: error_rate_def)
  next
    case False
    have "of_nat (unat (diff_error d)) / of_nat (unat (diff_answered d)) \<le> (1 :: rat)"
      by (rule ratio_le_1) (rule counts(1) [OF assms(1)])
    then have "error_rate d \<le> rnd 1" unfolding rate [OF assms(1) False] by (rule rnd_mono)
    also have "rnd 1 = 1" using rnd_of_nat [of 1] by simp
    finally show ?thesis .
  qed
  have ge0: "0 \<le> error_rate d" by (simp add: error_rate_def f64_div_def Let_def rnd_nonneg)
  have zero: "diff_error d = 0 \<longrightarrow> error_rate d = 0"
    by (simp add: error_rate_def f64_of_u64_def f64_div_def Let_def)
  have mono: "error_rate d \<le> error_rate d'"
    if "0 < diff_answered d" "0 < diff_answered d'"
      "unat (diff_error d) * unat (diff_answered d') \<le> unat (diff_error d') * unat (diff_answered d)"
  proof -
    have nz: "diff_answered d \<noteq> 0" "diff_answered d' \<noteq> 0" using that(1,2) by auto
    then have p: "0 < unat (diff_answered d)" "0 < unat (diff_answered d')" by (simp_all add: unat_gt_0)
    have "(of_nat (unat (diff_error d)) / of_nat (unat (diff_answered d)) :: rat)
        \<le> of_nat (unat (diff_error d')) / of_nat (unat (diff_answered d'))"
      by (rule ratio_mono [OF p that(3)])
    then show ?thesis unfolding rate [OF assms(1) nz(1)] rate [OF assms(2) nz(2)] by (rule rnd_mono)
  qed
  from le1 ge0 zero mono show ?thesis by blast
qed

text \<open>
  The latency score of a window is the mean, in whole microseconds rounded down, of what its
  calls cost: a retryable failure costs the penalty instead of the time it ran, every other call the
  time it ran. A window without calls has no score. (The counts and the total cost stay below 2^64,
  where nothing saturates.)
\<close>

theorem latency_score_mean:
  assumes "calls_nat d < 2 ^ 64" "penalty div 1000 < 2 ^ 64"
    and "unat (d_duration_micros d) - unat (d_retryable_failures_micros d) +
           unat (d_retryable_failures d) * (penalty div 1000) < 2 ^ 64"
  shows "latency_score d penalty =
    (if calls_nat d = 0 then None
     else Some (1000 * ((unat (d_duration_micros d) - unat (d_retryable_failures_micros d) +
            unat (d_retryable_failures d) * (penalty div 1000)) div calls_nat d)))"
proof -
  have c: "unat (diff_calls d) = calls_nat d" by (rule diff_counts(4) [OF assms(1)])
  then have z: "diff_calls d = 0 \<longleftrightarrow> calls_nat d = 0" by (metis unat_eq_zero)
  have pm: "unat (micros_u64 penalty) = penalty div 1000"
    using assms(2) by (simp add: micros_u64_def unat_of_nat_u64)
  have m: "unat (sat_mul (d_retryable_failures d) (micros_u64 penalty)) =
      unat (d_retryable_failures d) * (penalty div 1000)"
    unfolding unat_sat_mul pm using assms(3) by simp
  show ?thesis
    using assms(3) by (simp add: latency_score_def z Let_def from_micros_def unat_div c
        unat_sat_add m)
qed

subsection \<open>A concrete window\<close>

definition demo_diff :: stats_diff where
  "demo_diff =
     \<lparr>d_success = 6, d_unreachable = 2, d_read_failed = 0, d_error_status = 1, d_rpc_error = 0,
      d_rpc_caller_fault = 1, d_abandoned = 2, d_retryable_failures = 3, d_duration_micros = 9000,
      d_retryable_failures_micros = 3000\<rparr>"

theorem error_rate_monotone_witness:
  "error_rate demo_diff \<le> error_rate (demo_diff\<lparr>d_success := 5\<rparr>)"
  using error_rate_monotone [of demo_diff "demo_diff\<lparr>d_success := 5\<rparr>"]
  by (simp add: demo_diff_def calls_nat_def diff_error_def diff_answered_def diff_success_def)

theorem latency_score_mean_witness:
  "latency_score demo_diff 2000000 = Some 1000000"
  using latency_score_mean [of demo_diff 2000000]
  by (simp add: demo_diff_def calls_nat_def)

end
