(* ===== verification/Observer.thy ===== *)
theory Observer
  imports Snapshot
begin

text \<open>
  \<open>src/observer/mod.rs\<close>: the metrics observer. Its hash maps are association lists whose keys are
  fixed at construction; every \<open>record_*\<close> handler is a function from observer to observer, and an
  upstream or pair it was not built with leaves it unchanged (the code logs a warning and returns).
  The second half proves that the counters are exact: after any history of events they hold what
  counting that history gives.
\<close>

record metrics_observer =
  stats :: "(upstream_id \<times> snapshot) list"
  hedges :: "((upstream_id \<times> upstream_id) \<times> hedge_snapshot) list"
  coalesced :: u64
  failovers :: "(upstream_id \<times> u64) list"
  requests :: "(bytes \<times> request_snapshot) list"

subsection \<open>Construction and reading\<close>

definition new_observer :: "upstream_id list \<Rightarrow> metrics_observer" where
  "new_observer ids =
     (let st = foldl (\<lambda>al i. AList.update i default_snapshot al) [] ids;
          keys = map fst st
      in \<lparr>stats = st,
          hedges = concat (map (\<lambda>overtaken.
            map (\<lambda>to. ((overtaken, to), \<lparr>started = 0, won = 0\<rparr>)) (filter (\<lambda>to. to \<noteq> overtaken) keys)) keys),
          coalesced = 0,
          failovers = map (\<lambda>i. (i, 0)) keys,
          requests = map (\<lambda>m. (m, default_request_snapshot)) method_labels\<rparr>)"

definition snapshot_of :: "metrics_observer \<Rightarrow> upstream_id \<Rightarrow> snapshot option" where
  "snapshot_of obs u = map_option stats_snapshot (map_of (stats obs) u)"

definition snapshots :: "metrics_observer \<Rightarrow> (upstream_id \<times> snapshot) list" where
  "snapshots obs = sort_key fst (rekey (stats obs) stats_snapshot)"

definition snapshot_map :: "metrics_observer \<Rightarrow> (upstream_id \<times> snapshot) list" where
  "snapshot_map obs = rekey (stats obs) stats_snapshot"

definition hedge_snapshot_of ::
  "metrics_observer \<Rightarrow> upstream_id \<Rightarrow> upstream_id \<Rightarrow> hedge_snapshot option" where
  "hedge_snapshot_of obs overtaken to = map_of (hedges obs) (overtaken, to)"

definition hedge_snapshots ::
  "metrics_observer \<Rightarrow> ((upstream_id \<times> upstream_id) \<times> hedge_snapshot) list" where
  "hedge_snapshots obs = sort_key (\<lambda>((overtaken, to), _). [overtaken, to]) (hedges obs)"

definition failover_counts :: "metrics_observer \<Rightarrow> (upstream_id \<times> u64) list" where
  "failover_counts obs = sort_key fst (failovers obs)"

definition request_snapshots :: "metrics_observer \<Rightarrow> (bytes \<times> request_snapshot) list" where
  "request_snapshots obs = sort_key fst (requests obs)"

subsection \<open>Recording\<close>

definition record_duration :: "u64 list \<Rightarrow> u64 \<Rightarrow> duration \<Rightarrow> u64 list \<times> u64 \<times> u64" where
  "record_duration bs sum_us d =
     (let micros = micros_u64 d;
          idx = partition_point (\<lambda>b. b < micros) BUCKET_BOUNDS_MICROS
      in (bump_slot idx bs, sum_us + micros, micros))"

text \<open>The counter an outcome adds to.\<close>

fun count_outcome :: "(call_error, nat) result \<Rightarrow> snapshot \<Rightarrow> snapshot" where
  "count_outcome (Inr _) s = s\<lparr>success := success s + 1\<rparr>"
| "count_outcome (Inl (ErrorStatus _)) s = s\<lparr>error_status := error_status s + 1\<rparr>"
| "count_outcome (Inl (ReadFailed _ _)) s = s\<lparr>read_failed := read_failed s + 1\<rparr>"
| "count_outcome (Inl (Unreachable _)) s = s\<lparr>unreachable := unreachable s + 1\<rparr>"
| "count_outcome (Inl (RpcError _ _ r _)) s =
     (if r then s\<lparr>rpc_error := rpc_error s + 1\<rparr>
      else s\<lparr>rpc_caller_fault := rpc_caller_fault s + 1\<rparr>)"

definition retryable_outcome :: "(call_error, nat) result \<Rightarrow> bool" where
  "retryable_outcome r = (case r of Inl err \<Rightarrow> is_retryable err | Inr _ \<Rightarrow> False)"

definition stat_record :: "call_record \<Rightarrow> snapshot \<Rightarrow> snapshot" where
  "stat_record r s =
     (let s1 = count_outcome (rec_outcome r) s;
          (bs, sum_us, micros) = record_duration (buckets s1) (duration_micros_total s1) (rec_duration r);
          s2 = s1\<lparr>buckets := bs, duration_micros_total := sum_us\<rparr>
      in if retryable_outcome (rec_outcome r) then
           s2\<lparr>retryable_failures := retryable_failures s2 + 1,
              retryable_failures_micros_total := retryable_failures_micros_total s2 + micros\<rparr>
         else s2)"

definition stat_abandoned :: "duration \<Rightarrow> snapshot \<Rightarrow> snapshot" where
  "stat_abandoned elapsed s =
     (let s1 = s\<lparr>abandoned := abandoned s + 1\<rparr>;
          (bs, sum_us, _) = record_duration (buckets s1) (duration_micros_total s1) elapsed
      in s1\<lparr>buckets := bs, duration_micros_total := sum_us\<rparr>)"

definition stat_request :: "bool \<Rightarrow> nat \<Rightarrow> duration \<Rightarrow> request_snapshot \<Rightarrow> request_snapshot" where
  "stat_request ok attempts elapsed s =
     (let s1 = (if ok then s\<lparr>answered := answered s + 1\<rparr> else s\<lparr>failed := failed s + 1\<rparr>);
          n = (of_nat attempts :: u64);
          s2 = s1\<lparr>attempts_total := attempts_total s1 + n,
                  attempt_buckets :=
                    bump_slot (partition_point (\<lambda>b. b < n) ATTEMPT_BOUNDS) (attempt_buckets s1)\<rparr>;
          (bs, sum_us, _) = record_duration (duration_buckets s2) (rq_duration_micros_total s2) elapsed
      in s2\<lparr>duration_buckets := bs, rq_duration_micros_total := sum_us\<rparr>)"

definition obs_record :: "upstream_id \<Rightarrow> call_record \<Rightarrow> metrics_observer \<Rightarrow> metrics_observer" where
  "obs_record u r obs = obs\<lparr>stats := AList.map_entry u (stat_record r) (stats obs)\<rparr>"

definition record_abandoned :: "upstream_id \<Rightarrow> duration \<Rightarrow> metrics_observer \<Rightarrow> metrics_observer" where
  "record_abandoned u elapsed obs = obs\<lparr>stats := AList.map_entry u (stat_abandoned elapsed) (stats obs)\<rparr>"

definition record_hedge :: "upstream_id \<Rightarrow> upstream_id \<Rightarrow> metrics_observer \<Rightarrow> metrics_observer" where
  "record_hedge overtaken to obs =
     obs\<lparr>hedges := AList.map_entry (overtaken, to) (\<lambda>h. h\<lparr>started := started h + 1\<rparr>) (hedges obs)\<rparr>"

definition record_hedge_win :: "upstream_id \<Rightarrow> upstream_id \<Rightarrow> metrics_observer \<Rightarrow> metrics_observer" where
  "record_hedge_win overtaken to obs =
     obs\<lparr>hedges := AList.map_entry (overtaken, to) (\<lambda>h. h\<lparr>won := won h + 1\<rparr>) (hedges obs)\<rparr>"

definition record_coalesced :: "metrics_observer \<Rightarrow> metrics_observer" where
  "record_coalesced obs = obs\<lparr>coalesced := coalesced obs + 1\<rparr>"

definition record_failover :: "upstream_id \<Rightarrow> metrics_observer \<Rightarrow> metrics_observer" where
  "record_failover from obs = obs\<lparr>failovers := AList.map_entry from (\<lambda>c. c + 1) (failovers obs)\<rparr>"

definition record_request ::
  "bytes \<Rightarrow> bool \<Rightarrow> nat \<Rightarrow> duration \<Rightarrow> metrics_observer \<Rightarrow> metrics_observer" where
  "record_request method ok attempts elapsed obs =
     (let key = (case map_of (requests obs) method of Some _ \<Rightarrow> method | None \<Rightarrow> OTHER_METHOD)
      in obs\<lparr>requests := AList.map_entry key (stat_request ok attempts elapsed) (requests obs)\<rparr>)"

subsection \<open>Histories\<close>

text \<open>An event is one call of a handler; a run applies a history of them, oldest first.\<close>

datatype obs_event =
  Record upstream_id call_record
| Abandoned upstream_id duration
| Hedge upstream_id upstream_id
| HedgeWin upstream_id upstream_id
| Coalesced
| Failover upstream_id
| Request bytes bool nat duration

fun apply_event :: "obs_event \<Rightarrow> metrics_observer \<Rightarrow> metrics_observer" where
  "apply_event (Record u r) obs = obs_record u r obs"
| "apply_event (Abandoned u d) obs = record_abandoned u d obs"
| "apply_event (Hedge o' t) obs = record_hedge o' t obs"
| "apply_event (HedgeWin o' t) obs = record_hedge_win o' t obs"
| "apply_event Coalesced obs = record_coalesced obs"
| "apply_event (Failover u) obs = record_failover u obs"
| "apply_event (Request m ok n d) obs = record_request m ok n d obs"

definition run_events :: "obs_event list \<Rightarrow> metrics_observer \<Rightarrow> metrics_observer" where
  "run_events evs obs = fold apply_event evs obs"

lemma run_events_Nil [simp]: "run_events [] obs = obs"
  by (simp add: run_events_def)

lemma run_events_snoc [simp]: "run_events (evs @ [e]) obs = apply_event e (run_events evs obs)"
  by (simp add: run_events_def)

lemma run_events_append: "run_events (xs @ ys) obs = run_events ys (run_events xs obs)"
  by (simp add: run_events_def)

text \<open>No handler adds or removes a key.\<close>

lemmas handler_defs =
  obs_record_def record_abandoned_def record_hedge_def record_hedge_win_def record_coalesced_def
  record_failover_def record_request_def

lemma apply_event_keys [frame_simps]:
  "map fst (stats (apply_event e obs)) = map fst (stats obs)"
  "map fst (hedges (apply_event e obs)) = map fst (hedges obs)"
  "map fst (failovers (apply_event e obs)) = map fst (failovers obs)"
  "map fst (requests (apply_event e obs)) = map fst (requests obs)"
  by (cases e; simp add: handler_defs Let_def)+

lemma run_events_keys [frame_simps]:
  "map fst (stats (run_events evs obs)) = map fst (stats obs)"
  "map fst (hedges (run_events evs obs)) = map fst (hedges obs)"
  "map fst (failovers (run_events evs obs)) = map fst (failovers obs)"
  "map fst (requests (run_events evs obs)) = map fst (requests obs)"
  by (induction evs rule: rev_induct) (simp_all add: frame_simps)

lemma keys_foldl_update:
  "set (map fst (foldl (\<lambda>al i. AList.update i v al) al ids)) = set (map fst al) \<union> set ids"
  by (induction ids arbitrary: al) (simp_all add: dom_update)

lemma new_observer_keys: "set (map fst (stats (new_observer ids))) = set ids"
  by (simp add: new_observer_def Let_def keys_foldl_update del: set_map)

lemma foldl_update_lookup:
  "map_of (foldl (\<lambda>al i. AList.update i v al) al ids) u = (if u \<in> set ids then Some v else map_of al u)"
  by (induction ids arbitrary: al) (simp_all add: update_conv')

lemma new_observer_stats: "map_of (stats (new_observer ids)) u = (if u \<in> set ids then Some default_snapshot else None)"
  by (simp add: new_observer_def Let_def foldl_update_lookup)

subsection \<open>What a history says of one upstream\<close>

text \<open>How an attempt ended: with a record, or dropped after some time.\<close>

datatype attempt_end = Ended call_record | Dropped duration

fun attempt_of :: "upstream_id \<Rightarrow> obs_event \<Rightarrow> attempt_end option" where
  "attempt_of u (Record v r) = (if v = u then Some (Ended r) else None)"
| "attempt_of u (Abandoned v d) = (if v = u then Some (Dropped d) else None)"
| "attempt_of u _ = None"

definition attempts_on :: "upstream_id \<Rightarrow> obs_event list \<Rightarrow> attempt_end list" where
  "attempts_on u evs = List.map_filter (attempt_of u) evs"

fun ran_micros :: "attempt_end \<Rightarrow> u64" where
  "ran_micros (Ended r) = micros_u64 (rec_duration r)"
| "ran_micros (Dropped d) = micros_u64 d"

fun outcome_in :: "((call_error, nat) result \<Rightarrow> bool) \<Rightarrow> attempt_end \<Rightarrow> bool" where
  "outcome_in p (Ended r) = p (rec_outcome r)"
| "outcome_in p (Dropped d) = False"

fun is_dropped :: "attempt_end \<Rightarrow> bool" where
  "is_dropped (Ended r) = False"
| "is_dropped (Dropped d) = True"

definition tally :: "('a \<Rightarrow> bool) \<Rightarrow> 'a list \<Rightarrow> u64" where
  "tally p xs = of_nat (length (filter p xs))"

lemma tally_simps [simp]:
  "tally p [] = 0"
  "tally p (xs @ [x]) = tally p xs + (if p x then 1 else 0)"
  by (simp_all add: tally_def)

lemma unat_tally: "length xs < 2 ^ 64 \<Longrightarrow> unat (tally p xs) = length (filter p xs)"
  using length_filter_le [of p xs] by (simp only: tally_def) (intro unat_of_nat_u64, linarith)

lemma unat_sum_list:
  "sum_list (map (unat \<circ> f) xs) < 2 ^ 64 \<Longrightarrow>
   unat (sum_list (map f xs) :: u64) = sum_list (map (unat \<circ> f) xs)"
  by (induction xs) (simp_all add: unat_add_u64)

fun is_ok :: "(call_error, nat) result \<Rightarrow> bool" where
  "is_ok (Inr _) = True" | "is_ok (Inl _) = False"

fun is_unreachable :: "(call_error, nat) result \<Rightarrow> bool" where
  "is_unreachable (Inl (Unreachable _)) = True" | "is_unreachable _ = False"

fun is_read_failed :: "(call_error, nat) result \<Rightarrow> bool" where
  "is_read_failed (Inl (ReadFailed _ _)) = True" | "is_read_failed _ = False"

fun is_error_status :: "(call_error, nat) result \<Rightarrow> bool" where
  "is_error_status (Inl (ErrorStatus _)) = True" | "is_error_status _ = False"

fun is_rpc_error :: "bool \<Rightarrow> (call_error, nat) result \<Rightarrow> bool" where
  "is_rpc_error r (Inl (RpcError _ _ r' _)) = (r = r')" | "is_rpc_error r _ = False"

text \<open>A duration is in slot \<open>i\<close> when bound \<open>i\<close> is the least bound it does not exceed.\<close>

definition in_slot :: "u64 list \<Rightarrow> nat \<Rightarrow> u64 \<Rightarrow> bool" where
  "in_slot bounds i m \<longleftrightarrow> m \<le> bounds ! i \<and> (\<forall>j < i. bounds ! j < m)"

definition history_snapshot :: "attempt_end list \<Rightarrow> snapshot" where
  "history_snapshot h =
     \<lparr>success = tally (outcome_in is_ok) h,
      unreachable = tally (outcome_in is_unreachable) h,
      read_failed = tally (outcome_in is_read_failed) h,
      error_status = tally (outcome_in is_error_status) h,
      rpc_error = tally (outcome_in (is_rpc_error True)) h,
      rpc_caller_fault = tally (outcome_in (is_rpc_error False)) h,
      abandoned = tally is_dropped h,
      retryable_failures = tally (outcome_in retryable_outcome) h,
      buckets = map (\<lambda>i. tally (\<lambda>a. in_slot BUCKET_BOUNDS_MICROS i (ran_micros a)) h) [0..<10],
      duration_micros_total = sum_list (map ran_micros h),
      retryable_failures_micros_total =
        sum_list (map ran_micros (filter (outcome_in retryable_outcome) h))\<rparr>"

lemma partition_point_slot:
  assumes "i < length bounds" "sorted_wrt (<) bounds"
  shows "partition_point (\<lambda>b. b < m) bounds = i \<longleftrightarrow> in_slot bounds i m"
proof
  assume pp: "partition_point (\<lambda>b. b < m) bounds = i"
  with assms(1) partition_point_nth [of "\<lambda>b. b < m" bounds] partition_point_less [of _ "\<lambda>b. b < m" bounds]
  show "in_slot bounds i m" by (auto simp: in_slot_def)
next
  assume s: "in_slot bounds i m"
  let ?p = "partition_point (\<lambda>b. b < m) bounds"
  have "\<not> i < ?p" using partition_point_less [of i "\<lambda>b. b < m" bounds] s by (auto simp: in_slot_def)
  moreover have "\<not> ?p < i"
    using partition_point_nth [of "\<lambda>b. b < m" bounds] s assms(1) by (auto simp: in_slot_def)
  ultimately show "?p = i" by simp
qed

lemma bump_slot_tally:
  assumes "sorted_wrt (<) bounds" "n = length bounds"
  shows "bump_slot (partition_point (\<lambda>b. b < f a) bounds) (map (\<lambda>i. tally (\<lambda>x. in_slot bounds i (f x)) h) [0..<n]) =
    map (\<lambda>i. tally (\<lambda>x. in_slot bounds i (f x)) (h @ [a])) [0..<n]"
proof (rule nth_equalityI)
  fix i
  assume "i < length (bump_slot (partition_point (\<lambda>b. b < f a) bounds)
    (map (\<lambda>i. tally (\<lambda>x. in_slot bounds i (f x)) h) [0..<n]))"
  then have i: "i < n" by simp
  show "bump_slot (partition_point (\<lambda>b. b < f a) bounds)
      (map (\<lambda>i. tally (\<lambda>x. in_slot bounds i (f x)) h) [0..<n]) ! i =
    map (\<lambda>i. tally (\<lambda>x. in_slot bounds i (f x)) (h @ [a])) [0..<n] ! i"
  proof (cases "partition_point (\<lambda>b. b < f a) bounds = i")
    case True
    with assms i partition_point_slot [of i bounds "f a"] show ?thesis by (simp add: bump_slot_def)
  next
    case False
    with assms i partition_point_slot [of i bounds "f a"] show ?thesis by (simp add: bump_slot_def)
  qed
qed simp

lemmas slot_tally = bump_slot_tally [OF bucket_bounds_increase length_bucket_bounds [symmetric]]

lemma history_snapshot_Nil: "history_snapshot [] = default_snapshot"
  by (simp add: history_snapshot_def default_snapshot_def replicate_append_same [symmetric]
      map_replicate_trivial numeral_eq_Suc)

lemma stat_record_history: "stat_record r (history_snapshot h) = history_snapshot (h @ [Ended r])"
proof -
  have slots: "bump_slot (partition_point (\<lambda>b. b < micros_u64 (rec_duration r)) BUCKET_BOUNDS_MICROS)
      (map (\<lambda>i. tally (\<lambda>x. in_slot BUCKET_BOUNDS_MICROS i (ran_micros x)) h) [0..<10]) =
    map (\<lambda>i. tally (\<lambda>x. in_slot BUCKET_BOUNDS_MICROS i (ran_micros x)) (h @ [Ended r])) [0..<10]"
    using slot_tally [of ran_micros "Ended r" h] by simp
  show ?thesis
    by (cases "rec_outcome r" rule: count_outcome.cases [of "(o', s)" for o' s, simplified])
      (auto simp: stat_record_def history_snapshot_def record_duration_def Let_def slots
        retryable_outcome_def simp del: upt_Suc upt_rec_numeral)
qed

lemma stat_abandoned_history: "stat_abandoned d (history_snapshot h) = history_snapshot (h @ [Dropped d])"
proof -
  have slots: "bump_slot (partition_point (\<lambda>b. b < micros_u64 d) BUCKET_BOUNDS_MICROS)
      (map (\<lambda>i. tally (\<lambda>x. in_slot BUCKET_BOUNDS_MICROS i (ran_micros x)) h) [0..<10]) =
    map (\<lambda>i. tally (\<lambda>x. in_slot BUCKET_BOUNDS_MICROS i (ran_micros x)) (h @ [Dropped d])) [0..<10]"
    using slot_tally [of ran_micros "Dropped d" h] by simp
  show ?thesis
    by (simp add: stat_abandoned_def history_snapshot_def record_duration_def Let_def slots
        del: upt_Suc upt_rec_numeral)
qed

lemma attempts_on_append: "attempts_on u (xs @ ys) = attempts_on u xs @ attempts_on u ys"
  by (simp add: attempts_on_def List.map_filter_def)

lemma attempts_on_snoc [simp]:
  "attempts_on u (evs @ [e]) = attempts_on u evs @ (case attempt_of u e of None \<Rightarrow> [] | Some a \<Rightarrow> [a])"
  by (simp add: attempts_on_def List.map_filter_def split: option.split)

lemma stats_apply_event:
  "map_of (stats (apply_event e obs)) u =
     (case attempt_of u e of
        None \<Rightarrow> map_of (stats obs) u
      | Some (Ended r) \<Rightarrow> map_option (stat_record r) (map_of (stats obs) u)
      | Some (Dropped d) \<Rightarrow> map_option (stat_abandoned d) (map_of (stats obs) u))"
  by (cases e) (auto simp: handler_defs Let_def)

lemma stats_run_events:
  "map_of (stats (run_events evs (new_observer ids))) u =
     (if u \<in> set ids then Some (history_snapshot (attempts_on u evs)) else None)"
proof (induction evs rule: rev_induct)
  case Nil
  then show ?case by (simp add: new_observer_stats attempts_on_def history_snapshot_Nil)
next
  case (snoc e evs)
  then show ?case
    by (simp add: stats_apply_event stat_record_history stat_abandoned_history
        split: option.split attempt_end.split)
qed

lemma snapshot_of_exact:
  "snapshot_of (run_events evs (new_observer ids)) u =
     (if u \<in> set ids then Some (history_snapshot (attempts_on u evs)) else None)"
  by (simp add: snapshot_of_def stats_snapshot_def stats_run_events)

text \<open>
  The counters of an upstream are exact. After any history of calls of the observer's handlers,
  the snapshot of an upstream it was built with holds, field by field, what counting the attempts
  recorded on that upstream gives (modulo the \<open>u64\<close> wrap-around): one outcome counter per attempt,
  the durations by slot, their sum, and the retryable failures with the time they took; an upstream
  it was not built with never gets a snapshot.
\<close>

theorem observer_counts_attempts:
  "snapshot_of (run_events evs (new_observer ids)) u =
     (if u \<in> set ids then Some (history_snapshot (attempts_on u evs)) else None)"
  by (rule snapshot_of_exact)

subsection \<open>Failovers, hedges and coalesced requests\<close>

lemma new_observer_failovers:
  "map_of (failovers (new_observer ids)) u = (if u \<in> set ids then Some 0 else None)"
proof -
  have "map_of (map (\<lambda>i. (i, 0 :: u64)) ks) u = (if u \<in> set ks then Some 0 else None)" for ks
    by (induction ks) auto
  then show ?thesis
    by (simp add: new_observer_def Let_def keys_foldl_update del: map_map list.map_comp set_map)
qed

lemma map_of_pairs:
  "map_of (concat (map (\<lambda>a. map (\<lambda>b. ((a, b), v)) (filter (\<lambda>b. b \<noteq> a) ks)) js)) (x, y) =
     (if x \<in> set js \<and> y \<in> set ks \<and> x \<noteq> y then Some v else None)"
proof (induction js)
  case (Cons a js)
  have "map_of (map (\<lambda>b. ((a, b), v)) bs) (x, y) = (if x = a \<and> y \<in> set bs then Some v else None)" for bs
    by (induction bs) auto
  with Cons show ?case by (auto simp: map_add_def)
qed simp

lemma new_observer_hedges:
  "map_of (hedges (new_observer ids)) (x, y) =
     (if x \<in> set ids \<and> y \<in> set ids \<and> x \<noteq> y then Some \<lparr>started = 0, won = 0\<rparr> else None)"
  by (simp add: new_observer_def Let_def map_of_pairs keys_foldl_update
      del: map_map list.map_comp set_map)

text \<open>
  The other counters are exact too: after any history, the failovers away from an upstream, the
  hedges and hedge wins of an ordered pair of distinct upstreams and the coalesced requests are the
  numbers of the events that report them, and only upstreams and pairs known from the start have a
  counter.
\<close>

theorem observer_counts_routing:
  "map_of (failovers (run_events evs (new_observer ids))) u =
     (if u \<in> set ids then Some (tally (\<lambda>e. e = Failover u) evs) else None) \<and>
   hedge_snapshot_of (run_events evs (new_observer ids)) u v =
     (if u \<in> set ids \<and> v \<in> set ids \<and> u \<noteq> v
      then Some \<lparr>started = tally (\<lambda>e. e = Hedge u v) evs, won = tally (\<lambda>e. e = HedgeWin u v) evs\<rparr>
      else None) \<and>
   coalesced (run_events evs (new_observer ids)) = tally (\<lambda>e. e = Coalesced) evs"
proof (induction evs rule: rev_induct)
  case Nil
  show ?case by (simp add: new_observer_failovers hedge_snapshot_of_def new_observer_hedges)
      (simp add: new_observer_def Let_def)
next
  case (snoc e evs)
  then show ?case by (cases e) (auto simp: handler_defs Let_def hedge_snapshot_of_def)
qed

subsection \<open>Requests by method\<close>

definition request_label :: "bytes \<Rightarrow> bytes" where
  "request_label m = (if m \<in> set method_labels then m else OTHER_METHOD)"

fun request_of :: "bytes \<Rightarrow> obs_event \<Rightarrow> (bool \<times> nat \<times> duration) option" where
  "request_of l (Request m ok n d) = (if request_label m = l then Some (ok, n, d) else None)"
| "request_of l _ = None"

definition requests_on :: "bytes \<Rightarrow> obs_event list \<Rightarrow> (bool \<times> nat \<times> duration) list" where
  "requests_on l evs = List.map_filter (request_of l) evs"

definition history_requests :: "(bool \<times> nat \<times> duration) list \<Rightarrow> request_snapshot" where
  "history_requests h =
     \<lparr>answered = tally fst h, failed = tally (\<lambda>a. \<not> fst a) h,
      attempt_buckets = map (\<lambda>i. tally (\<lambda>a. in_slot ATTEMPT_BOUNDS i (of_nat (fst (snd a)))) h) [0..<5],
      attempts_total = sum_list (map (\<lambda>a. of_nat (fst (snd a))) h),
      duration_buckets =
        map (\<lambda>i. tally (\<lambda>a. in_slot BUCKET_BOUNDS_MICROS i (micros_u64 (snd (snd a)))) h) [0..<10],
      rq_duration_micros_total = sum_list (map (\<lambda>a. micros_u64 (snd (snd a))) h)\<rparr>"

lemma history_requests_Nil: "history_requests [] = default_request_snapshot"
  by (simp add: history_requests_def default_request_snapshot_def numeral_eq_Suc)

lemma stat_request_history:
  "stat_request ok n d (history_requests h) = history_requests (h @ [(ok, n, d)])"
proof -
  have a: "bump_slot (partition_point (\<lambda>b. b < of_nat n) ATTEMPT_BOUNDS)
      (map (\<lambda>i. tally (\<lambda>a. in_slot ATTEMPT_BOUNDS i (of_nat (fst (snd a)))) h) [0..<5]) =
    map (\<lambda>i. tally (\<lambda>a. in_slot ATTEMPT_BOUNDS i (of_nat (fst (snd a)))) (h @ [(ok, n, d)])) [0..<5]"
    using bump_slot_tally [OF attempt_bounds_increase length_attempt_bounds [symmetric],
      of "\<lambda>a. of_nat (fst (snd a))" "(ok, n, d)" h] by simp
  have b: "bump_slot (partition_point (\<lambda>b. b < micros_u64 d) BUCKET_BOUNDS_MICROS)
      (map (\<lambda>i. tally (\<lambda>a. in_slot BUCKET_BOUNDS_MICROS i (micros_u64 (snd (snd a)))) h) [0..<10]) =
    map (\<lambda>i. tally (\<lambda>a. in_slot BUCKET_BOUNDS_MICROS i (micros_u64 (snd (snd a)))) (h @ [(ok, n, d)])) [0..<10]"
    using slot_tally [of "\<lambda>a. micros_u64 (snd (snd a))" "(ok, n, d)" h] by simp
  show ?thesis
    by (simp add: stat_request_def history_requests_def record_duration_def Let_def a b
        del: upt_Suc upt_rec_numeral)
qed

lemma requests_on_snoc [simp]:
  "requests_on l (evs @ [e]) = requests_on l evs @ (case request_of l e of None \<Rightarrow> [] | Some a \<Rightarrow> [a])"
  by (simp add: requests_on_def List.map_filter_def split: option.split)

lemma new_observer_requests:
  "map_of (requests (new_observer ids)) l =
     (if l \<in> set method_labels then Some default_request_snapshot else None)"
proof -
  have "map_of (map (\<lambda>m. (m, default_request_snapshot)) ks) l =
      (if l \<in> set ks then Some default_request_snapshot else None)" for ks
    by (induction ks) auto
  then show ?thesis by (simp add: new_observer_def Let_def)
qed

lemma other_in_labels [simp]: "OTHER_METHOD \<in> set method_labels"
  by (simp add: method_labels_def)

text \<open>
  Requests are counted by method, and the set of labels never grows: after any history, a label
  of the fixed list holds exactly the requests reported under it, a method that is not on the list is
  counted under \<open>other\<close>, and nothing else has an entry.
\<close>

theorem observer_counts_requests:
  "map_of (requests (run_events evs (new_observer ids))) l =
     (if l \<in> set method_labels then Some (history_requests (requests_on l evs)) else None)"
proof (induction evs arbitrary: l rule: rev_induct)
  case Nil
  then show ?case by (simp add: new_observer_requests requests_on_def history_requests_Nil)
next
  case (snoc e evs)
  show ?case
  proof (cases e)
    case (Request m ok n d)
    have key: "(case map_of (requests (run_events evs (new_observer ids))) m of
        Some _ \<Rightarrow> m | None \<Rightarrow> OTHER_METHOD) = request_label m"
      by (simp add: snoc.IH request_label_def)
    have "request_label m \<in> set method_labels" by (simp add: request_label_def)
    with Request snoc.IH key show ?thesis
      by (auto simp: record_request_def Let_def stat_request_history)
  qed (simp_all add: snoc.IH handler_defs)
qed

subsection \<open>The shape of an observer\<close>

text \<open>
  The keys and the slots are fixed at construction: no handler adds an upstream, a pair or a method, and
  every histogram keeps as many slots as it has bounds.
\<close>

definition snapshot_shape :: "snapshot \<Rightarrow> bool" where
  "snapshot_shape s \<longleftrightarrow> length (buckets s) = length BUCKET_BOUNDS_MICROS"

definition request_shape :: "request_snapshot \<Rightarrow> bool" where
  "request_shape s \<longleftrightarrow>
     length (attempt_buckets s) = length ATTEMPT_BOUNDS \<and> length (duration_buckets s) = length BUCKET_BOUNDS_MICROS"

definition observer_shape :: "upstream_id set \<Rightarrow> metrics_observer \<Rightarrow> bool" where
  "observer_shape ids obs \<longleftrightarrow>
     distinct (map fst (stats obs)) \<and> set (map fst (stats obs)) = ids \<and>
     map fst (failovers obs) = map fst (stats obs) \<and>
     distinct (map fst (hedges obs)) \<and> set (map fst (hedges obs)) = {(u, v). u \<in> ids \<and> v \<in> ids \<and> u \<noteq> v} \<and>
     map fst (requests obs) = method_labels \<and>
     list_all (\<lambda>(u, s). snapshot_shape s) (stats obs) \<and> list_all (\<lambda>(m, r). request_shape r) (requests obs)"

lemma list_all_map_entry:
  assumes "list_all (\<lambda>(k, v). P v) al" "\<And>v. P v \<Longrightarrow> P (f v)"
  shows "list_all (\<lambda>(k, v). P v) (AList.map_entry k f al)"
  using assms by (induction al) auto

lemma map_entry_fst: "map fst (AList.map_entry k f al) = map fst al"
  by (induction al) auto

lemma count_outcome_buckets: "buckets (count_outcome r s) = buckets s"
  by (cases "(r, s)" rule: count_outcome.cases) auto

lemma snapshot_shape_handlers:
  "snapshot_shape s \<Longrightarrow> snapshot_shape (stat_record r s)"
  "snapshot_shape s \<Longrightarrow> snapshot_shape (stat_abandoned d s)"
  by (simp_all add: snapshot_shape_def stat_record_def stat_abandoned_def record_duration_def bump_slot_def
      Let_def count_outcome_buckets)

lemma request_shape_handler: "request_shape s \<Longrightarrow> request_shape (stat_request ok n d s)"
  by (auto simp: request_shape_def stat_request_def record_duration_def bump_slot_def Let_def)

lemma apply_event_shape: "observer_shape ids obs \<Longrightarrow> observer_shape ids (apply_event e obs)"
  by (cases e)
    (auto simp: observer_shape_def handler_defs map_entry_fst Let_def
      intro!: list_all_map_entry snapshot_shape_handlers request_shape_handler)

lemma distinct_foldl_update:
  "distinct (map fst al) \<Longrightarrow> distinct (map fst (foldl (\<lambda>al i. AList.update i v al) al ids))"
  by (induction ids arbitrary: al) (simp_all add: distinct_update)

lemma foldl_update_values:
  "\<forall>e \<in> set (foldl (\<lambda>al i. AList.update i v al) al ids). snd e = v \<or> e \<in> set al"
proof (induction ids arbitrary: al)
  case (Cons i ids)
  have "snd e = v \<or> e \<in> set al" if "e \<in> set (AList.update i v al)" for e
    using that by (induction al) (auto split: if_splits)
  with Cons.IH [of "AList.update i v al"] show ?case by auto
qed simp

lemma pairs_keys:
  "map fst (concat (map (\<lambda>a. map (\<lambda>b. ((a, b), v)) (filter (\<lambda>b. b \<noteq> a) ks)) js)) =
     concat (map (\<lambda>a. map (Pair a) (filter (\<lambda>b. b \<noteq> a) ks)) js)"
  by (induction js) (simp_all add: comp_def)

lemma pairs_distinct:
  "distinct ks \<Longrightarrow> distinct js \<Longrightarrow> distinct (concat (map (\<lambda>a. map (Pair a) (filter (\<lambda>b. b \<noteq> a) ks)) js))"
  by (induction js) (auto simp: distinct_map inj_on_def)

lemma pairs_set:
  "set (concat (map (\<lambda>a. map (Pair a) (filter (\<lambda>b. b \<noteq> a) ks)) ks)) =
     {(u, v). u \<in> set ks \<and> v \<in> set ks \<and> u \<noteq> v}"
  by auto

lemma new_observer_shape: "observer_shape (set ids) (new_observer ids)"
proof -
  define st where "st = foldl (\<lambda>al i. AList.update i default_snapshot al) [] ids"
  have st: "distinct (map fst st)" "set (map fst st) = set ids" "\<forall>e \<in> set st. snd e = default_snapshot"
    using distinct_foldl_update [of "[]" default_snapshot ids] keys_foldl_update [of default_snapshot "[]" ids]
      foldl_update_values [of default_snapshot "[]" ids] by (simp_all add: st_def)
  have new: "new_observer ids = \<lparr>stats = st,
      hedges = concat (map (\<lambda>a. map (\<lambda>b. ((a, b), \<lparr>started = 0, won = 0\<rparr>)) (filter (\<lambda>b. b \<noteq> a) (map fst st)))
        (map fst st)),
      coalesced = 0, failovers = map (\<lambda>i. (i, 0)) (map fst st),
      requests = map (\<lambda>m. (m, default_request_snapshot)) method_labels\<rparr>"
    by (simp add: new_observer_def st_def Let_def)
  have h: "map fst (hedges (new_observer ids)) =
      concat (map (\<lambda>a. map (Pair a) (filter (\<lambda>b. b \<noteq> a) (map fst st))) (map fst st))"
    by (simp only: new metrics_observer.select_convs pairs_keys)
  have "distinct (map fst (hedges (new_observer ids)))"
    "set (map fst (hedges (new_observer ids))) = {(u, v). u \<in> set ids \<and> v \<in> set ids \<and> u \<noteq> v}"
    unfolding h pairs_set st(2) by (rule pairs_distinct [OF st(1) st(1)], rule refl)
  moreover have "map fst (failovers (new_observer ids)) = map fst (stats (new_observer ids))"
    "map fst (requests (new_observer ids)) = method_labels"
    by (simp_all add: new comp_def)
  moreover have "list_all (\<lambda>(u, s). snapshot_shape s) (stats (new_observer ids))"
    "list_all (\<lambda>(m, r). request_shape r) (requests (new_observer ids))" using st(3)
    by (auto simp: new list_all_iff snapshot_shape_def default_snapshot_def BUCKET_BOUNDS_MICROS_def
        request_shape_def default_request_snapshot_def ATTEMPT_BOUNDS_def)
  moreover have "distinct (map fst (stats (new_observer ids)))" "set (map fst (stats (new_observer ids))) = set ids"
    using st(1,2) by (simp_all add: new)
  ultimately show ?thesis unfolding observer_shape_def by (intro conjI)
qed

text \<open>
  C30: The observer keeps its shape: after any history the upstreams it counts are the distinct ones it
  was built with, each with a failover counter, every ordered pair of two of them has one hedge
  counter, the methods are the known labels, and every histogram has a slot for each of its bounds.
\<close>

theorem observer_keeps_its_shape: "observer_shape (set ids) (run_events evs (new_observer ids))"
  by (induction evs rule: rev_induct) (simp_all add: new_observer_shape apply_event_shape)

end
