(* ===== verification/Core.thy ===== *)
theory Core
  imports Decider Observer
begin

text \<open>
  \<open>src/proxy/attempt.rs\<close>, \<open>src/proxy/reply.rs\<close> and the sequential half of \<open>src/proxy/mod.rs\<close>: one
  attempt, the walk along a chain and the single send of a write. The observer is only written to,
  so an operation appends the calls it makes on it to a log; \<open>run_events\<close> of the theory \<open>Observer\<close>
  replays a log. What the network does with a request is the parameter \<open>network\<close>: from the upstream,
  the body and the time of sending, what the client reports and how long that took.
\<close>

subsection \<open>Replies and failures\<close>

record reply =
  reply_status :: nat
  reply_body :: bytes

text \<open>An HTTP response: status, content type and body.\<close>

record response =
  resp_status :: nat
  resp_content_type :: "bytes option"
  resp_body :: bytes

definition reply_rpc_error :: "serde \<Rightarrow> int \<Rightarrow> bytes \<Rightarrow> reply" where
  "reply_rpc_error sj code msg = \<lparr>reply_status = 200, reply_body = rpc_error_body sj code msg\<rparr>"

definition reply_into_response :: "reply \<Rightarrow> response" where
  "reply_into_response r =
     \<lparr>resp_status = reply_status r, resp_content_type = Some ''application/json'', resp_body = reply_body r\<rparr>"

datatype failure = NoUpstream | Call call_error

fun display_failure :: "failure \<Rightarrow> bytes" where
  "display_failure NoUpstream = ''no upstream available''"
| "display_failure (Call e) = display_error e"

record answer =
  ans_reply :: reply
  ans_upstream :: upstream_id

record finished =
  fin_result :: "(failure, answer) result"
  fin_tried :: "upstream_id list"
  fin_hedge :: "hedge_snapshot option"

datatype dispatch = Sequential | Hedged

record core =
  max_attempt :: nat
  retry_after :: duration
  core_dispatch :: dispatch

definition DEFAULT_MAX_ATTEMPT :: u64 where "DEFAULT_MAX_ATTEMPT = 3"
definition DEFAULT_RETRY_AFTER :: duration where "DEFAULT_RETRY_AFTER = 1000000000"

subsection \<open>One attempt\<close>

type_synonym network = "upstream \<Rightarrow> bytes \<Rightarrow> duration \<Rightarrow> sent \<times> duration"

text \<open>The time and the calls made on the observer so far.\<close>

record world =
  now :: duration
  log :: "obs_event list"

definition emit :: "obs_event \<Rightarrow> world \<Rightarrow> world" where
  "emit e w = w\<lparr>log := log w @ [e]\<rparr>"

definition sleep :: "duration \<Rightarrow> world \<Rightarrow> world" where
  "sleep d w = w\<lparr>now := now w + d\<rparr>"

lemma emit_simps [simp, frame_simps]: "now (emit e w) = now w" "log (emit e w) = log w @ [e]"
  by (simp_all add: emit_def)

lemma sleep_simps [simp, frame_simps]: "now (sleep d w) = now w + d" "log (sleep d w) = log w"
  by (simp_all add: sleep_def)

text \<open>
  The guard \<open>Attempt\<close>: armed from \<open>start\<close> until \<open>finish\<close>, which records the call; dropping it armed
  records the time it ran as abandoned.
\<close>

record attempt =
  att_upstream :: upstream_id
  att_started :: duration
  armed :: bool

definition attempt_start :: "upstream_id \<Rightarrow> duration \<Rightarrow> attempt" where
  "attempt_start u t = \<lparr>att_upstream = u, att_started = t, armed = True\<rparr>"

definition attempt_drop :: "duration \<Rightarrow> attempt \<Rightarrow> obs_event list" where
  "attempt_drop t a = (if armed a then [Abandoned (att_upstream a) (t - att_started a)] else [])"

text \<open>\<open>finish\<close> takes the guard by value: it records, and the guard is dropped disarmed.\<close>

definition attempt_finish :: "call_record \<Rightarrow> duration \<Rightarrow> attempt \<Rightarrow> obs_event list" where
  "attempt_finish r t a = Record (att_upstream a) r # attempt_drop t (a\<lparr>armed := False\<rparr>)"

definition reply_of :: "call_outcome \<Rightarrow> reply" where
  "reply_of out = \<lparr>reply_status = co_http_status out, reply_body = response_body out\<rparr>"

text \<open>What \<open>try_once\<close> does once the call has returned.\<close>

definition try_finish ::
  "serde \<Rightarrow> upstream \<Rightarrow> sent \<Rightarrow> duration \<Rightarrow> attempt \<Rightarrow> (call_error, reply) result \<times> obs_event list" where
  "try_finish sj u sent t a =
     (let call = upstream_call sj u sent (t - att_started a)
      in ((case cr_result call of Inr out \<Rightarrow> Inr (reply_of out) | Inl e \<Rightarrow> Inl e),
          attempt_finish (call_record_of call) t a))"

definition try_once ::
  "serde \<Rightarrow> network \<Rightarrow> upstream \<Rightarrow> bytes \<Rightarrow> world \<Rightarrow> (call_error, reply) result \<times> world" where
  "try_once sj net u body w =
     (let in_flight = attempt_start (uid u) (now w);
          (sent, elapsed) = net u body (now w);
          w' = sleep elapsed w;
          (r, calls) = try_finish sj u sent (now w') in_flight
      in (r, w'\<lparr>log := log w' @ calls\<rparr>))"

subsection \<open>Walking the chain\<close>

fun walk_from ::
  "serde \<Rightarrow> network \<Rightarrow> core \<Rightarrow> bytes \<Rightarrow> upstream list \<Rightarrow> upstream_id list \<Rightarrow> call_error option \<Rightarrow> world \<Rightarrow>
     finished \<times> world" where
  "walk_from sj net c body [] tried last_failure w =
     (\<lparr>fin_result = Inl (case last_failure of None \<Rightarrow> NoUpstream | Some e \<Rightarrow> Call e),
       fin_tried = tried, fin_hedge = None\<rparr>, w)"
| "walk_from sj net c body (u # chain) tried last_failure w =
     (if max_attempt c \<le> length tried then
        (\<lparr>fin_result = Inl (case last_failure of None \<Rightarrow> NoUpstream | Some e \<Rightarrow> Call e),
          fin_tried = tried, fin_hedge = None\<rparr>, w)
      else
        let w1 = (if tried = [] then w else sleep (retry_after c) (emit (Failover (last tried)) w));
            tried' = tried @ [uid u];
            (r, w2) = try_once sj net u body w1
        in (case r of
              Inr reply \<Rightarrow>
                (\<lparr>fin_result = Inr \<lparr>ans_reply = reply, ans_upstream = uid u\<rparr>,
                  fin_tried = tried', fin_hedge = None\<rparr>, w2)
            | Inl e \<Rightarrow>
                if is_retryable e then walk_from sj net c body chain tried' (Some e) w2
                else (\<lparr>fin_result = Inl (Call e), fin_tried = tried', fin_hedge = None\<rparr>, w2)))"

definition walk :: "serde \<Rightarrow> network \<Rightarrow> core \<Rightarrow> upstream list \<Rightarrow> bytes \<Rightarrow> world \<Rightarrow> finished \<times> world" where
  "walk sj net c chain body w = walk_from sj net c body chain [] None w"

text \<open>A write under hedged dispatch: one attempt, on the first upstream.\<close>

definition send_once :: "serde \<Rightarrow> network \<Rightarrow> upstream list \<Rightarrow> bytes \<Rightarrow> world \<Rightarrow> finished \<times> world" where
  "send_once sj net chain body w =
     (case chain of
        [] \<Rightarrow> (\<lparr>fin_result = Inl NoUpstream, fin_tried = [], fin_hedge = Some \<lparr>started = 0, won = 0\<rparr>\<rparr>, w)
      | u # _ \<Rightarrow>
          let (r, w') = try_once sj net u body w
          in (\<lparr>fin_result =
                 (case r of
                    Inr reply \<Rightarrow> Inr \<lparr>ans_reply = reply, ans_upstream = uid u\<rparr>
                  | Inl e \<Rightarrow> Inl (Call e)),
               fin_tried = [uid u], fin_hedge = Some \<lparr>started = 0, won = 0\<rparr>\<rparr>, w'))"

subsection \<open>What a walk does\<close>

text \<open>
  A visit is one attempt of a walk: the upstream, when it was sent and what the network did. Along a
  chain the visits are determined: each starts where the previous one ended, plus the pause.
\<close>

record visit =
  v_upstream :: upstream
  v_sent :: sent
  v_elapsed :: duration

definition visit_result :: "serde \<Rightarrow> visit \<Rightarrow> (call_error, call_outcome) result" where
  "visit_result sj v = call_inner sj (v_upstream v) (v_sent v)"

definition visit_record :: "serde \<Rightarrow> visit \<Rightarrow> obs_event" where
  "visit_record sj v =
     Record (uid (v_upstream v))
       (call_record_of \<lparr>cr_duration = v_elapsed v, cr_result = visit_result sj v\<rparr>)"

definition retryable_failure :: "serde \<Rightarrow> visit \<Rightarrow> bool" where
  "retryable_failure sj v \<longleftrightarrow> (case visit_result sj v of Inl e \<Rightarrow> is_retryable e | Inr _ \<Rightarrow> False)"

fun visits :: "network \<Rightarrow> duration \<Rightarrow> bytes \<Rightarrow> duration \<Rightarrow> upstream list \<Rightarrow> visit list" where
  "visits net pause body t [] = []"
| "visits net pause body t (u # us) =
     (case net u body t of (sent, elapsed) \<Rightarrow>
        \<lparr>v_upstream = u, v_sent = sent, v_elapsed = elapsed\<rparr> #
        visits net pause body (t + elapsed + pause) us)"

text \<open>The visits made: up to and including the first that is not a retryable failure.\<close>

fun upto_answer :: "('a \<Rightarrow> bool) \<Rightarrow> 'a list \<Rightarrow> 'a list" where
  "upto_answer p [] = []"
| "upto_answer p (x # xs) = (if p x then x # upto_answer p xs else [x])"

definition walk_visits :: "serde \<Rightarrow> network \<Rightarrow> core \<Rightarrow> bytes \<Rightarrow> duration \<Rightarrow> upstream list \<Rightarrow> visit list" where
  "walk_visits sj net c body t chain =
     upto_answer (retryable_failure sj) (visits net (retry_after c) body t (take (max_attempt c) chain))"

text \<open>What a list of visits tells the observer: the failovers between them and their records.\<close>

fun visits_log :: "serde \<Rightarrow> visit list \<Rightarrow> obs_event list" where
  "visits_log sj [] = []"
| "visits_log sj [v] = [visit_record sj v]"
| "visits_log sj (v # v' # vs) =
     visit_record sj v # Failover (uid (v_upstream v)) # visits_log sj (v' # vs)"

definition visits_result :: "serde \<Rightarrow> visit list \<Rightarrow> (failure, answer) result" where
  "visits_result sj vs =
     (if vs = [] then Inl NoUpstream
      else (case visit_result sj (last vs) of
              Inr out \<Rightarrow> Inr \<lparr>ans_reply = reply_of out, ans_upstream = uid (v_upstream (last vs))\<rparr>
            | Inl e \<Rightarrow> Inl (Call e)))"

lemma try_once_visit:
  "net u body (now w) = (sent, elapsed) \<Longrightarrow>
   try_once sj net u body w =
     (case call_inner sj u sent of Inr out \<Rightarrow> Inr (reply_of out) | Inl e \<Rightarrow> Inl e,
      \<lparr>now = now w + elapsed,
       log = log w @ [visit_record sj \<lparr>v_upstream = u, v_sent = sent, v_elapsed = elapsed\<rparr>]\<rparr>)"
  by (cases w) (simp add: try_once_def try_finish_def upstream_call_def attempt_start_def attempt_finish_def
      attempt_drop_def visit_record_def visit_result_def sleep_def Let_def)

lemma upto_answer_prefix: "upto_answer p xs = take (length (upto_answer p xs)) xs"
  by (induction p xs rule: upto_answer.induct) auto

lemma upto_answer_Nil [simp]: "upto_answer p xs = [] \<longleftrightarrow> xs = []"
  by (cases xs) auto

lemma length_upto_answer: "length (upto_answer p xs) \<le> length xs"
  by (induction p xs rule: upto_answer.induct) auto

lemma upto_answer_before: "i + 1 < length (upto_answer p xs) \<Longrightarrow> p (upto_answer p xs ! i)"
  by (induction p xs arbitrary: i rule: upto_answer.induct) (auto simp: nth_Cons split: nat.split if_splits)

lemma upto_answer_last:
  "xs \<noteq> [] \<Longrightarrow> p (last (upto_answer p xs)) \<Longrightarrow> upto_answer p xs = xs"
  by (induction p xs rule: upto_answer.induct) (auto split: if_splits)

lemma length_visits [simp]: "length (visits net pause body t us) = length us"
  by (induction us arbitrary: t) (auto split: prod.split)

lemma visits_upstreams: "map v_upstream (visits net pause body t us) = us"
  by (induction us arbitrary: t) (auto split: prod.split)

lemma visits_log_Cons:
  "visits_log sj (v # vs) =
     visit_record sj v # (if vs = [] then [] else Failover (uid (v_upstream v)) # visits_log sj vs)"
  by (cases vs) simp_all

lemma visits_result_Cons:
  "visits_result sj (v # vs) =
     (if vs = [] then (case visit_result sj v of
              Inr out \<Rightarrow> Inr \<lparr>ans_reply = reply_of out, ans_upstream = uid (v_upstream v)\<rparr>
            | Inl e \<Rightarrow> Inl (Call e)) else visits_result sj vs)"
  by (cases vs) (auto simp: visits_result_def split: sum.split)

text \<open>The time a list of visits takes, the pauses between them included.\<close>

definition visits_time :: "duration \<Rightarrow> visit list \<Rightarrow> duration" where
  "visits_time pause vs = sum_list (map v_elapsed vs) + (length vs - 1) * pause"

lemma visits_time_Cons:
  "visits_time pause (v # vs) = v_elapsed v + (if vs = [] then 0 else pause + visits_time pause vs)"
  by (cases vs) (simp_all add: visits_time_def)

lemma walk_from_visits:
  fixes chain w tried c sj net body
  defines "t0 \<equiv> now w + (if tried = [] then 0 else retry_after c)"
  defines "vs \<equiv> upto_answer (retryable_failure sj)
    (visits net (retry_after c) body t0 (take (max_attempt c - length tried) chain))"
  shows "walk_from sj net c body chain tried last_failure w =
    (if vs = [] then
       (\<lparr>fin_result = Inl (case last_failure of None \<Rightarrow> NoUpstream | Some e \<Rightarrow> Call e),
         fin_tried = tried, fin_hedge = None\<rparr>, w)
     else
       (\<lparr>fin_result = visits_result sj vs, fin_tried = tried @ map (uid \<circ> v_upstream) vs, fin_hedge = None\<rparr>,
        \<lparr>now = t0 + visits_time (retry_after c) vs,
         log = log w @ (if tried = [] then [] else [Failover (last tried)]) @ visits_log sj vs\<rparr>))"
  unfolding vs_def t0_def
proof (induction chain arbitrary: tried last_failure w)
  case Nil
  then show ?case by simp
next
  case (Cons u chain)
  show ?case
  proof (cases "max_attempt c \<le> length tried")
    case True
    then show ?thesis by simp
  next
    case False
    define w1 where "w1 = (if tried = [] then w else sleep (retry_after c) (emit (Failover (last tried)) w))"
    obtain sent elapsed where net: "net u body (now w1) = (sent, elapsed)" by fastforce
    define v where "v = \<lparr>v_upstream = u, v_sent = sent, v_elapsed = elapsed\<rparr>"
    have now1: "now w1 = now w + (if tried = [] then 0 else retry_after c)" by (simp add: w1_def)
    have log1: "log w1 = log w @ (if tried = [] then [] else [Failover (last tried)])" by (simp add: w1_def)
    have once: "try_once sj net u body w1 =
        (case call_inner sj u sent of Inr out \<Rightarrow> Inr (reply_of out) | Inl e \<Rightarrow> Inl e,
         \<lparr>now = now w1 + elapsed, log = log w1 @ [visit_record sj v]\<rparr>)"
      using try_once_visit [of net u body w1 sent elapsed sj] net by (simp add: v_def)
    have tk: "take (max_attempt c - length tried) (u # chain) =
        u # take (max_attempt c - length (tried @ [uid u])) chain"
    proof -
      from False have "max_attempt c - length tried = Suc (max_attempt c - length (tried @ [uid u]))"
        by simp
      then show ?thesis by (simp only: take_Suc_Cons)
    qed
    have vr: "visit_result sj v = call_inner sj u sent" by (simp add: visit_result_def v_def)
    have vis: "visits net (retry_after c) body (now w + (if tried = [] then 0 else retry_after c))
        (u # take (max_attempt c - length (tried @ [uid u])) chain) =
      v # visits net (retry_after c) body (now w1 + elapsed + retry_after c)
        (take (max_attempt c - length (tried @ [uid u])) chain)"
      using net unfolding now1 by (simp add: v_def)
    have v: "v_upstream v = u" "v_elapsed v = elapsed" by (simp_all add: v_def)
    let ?w2 = "\<lparr>now = now w1 + elapsed, log = log w1 @ [visit_record sj v]\<rparr>"
    have step: "walk_from sj net c body (u # chain) tried last_failure w =
      (case call_inner sj u sent of
         Inr out \<Rightarrow> (\<lparr>fin_result = Inr \<lparr>ans_reply = reply_of out, ans_upstream = uid u\<rparr>,
           fin_tried = tried @ [uid u], fin_hedge = None\<rparr>, ?w2)
       | Inl e \<Rightarrow> if is_retryable e then walk_from sj net c body chain (tried @ [uid u]) (Some e) ?w2
           else (\<lparr>fin_result = Inl (Call e), fin_tried = tried @ [uid u], fin_hedge = None\<rparr>, ?w2))"
      using False once unfolding w1_def [symmetric]
      by (auto simp: w1_def [symmetric] Let_def split: sum.split)
    note IH = Cons.IH [of "tried @ [uid u]" _ ?w2]
    show ?thesis
    proof (cases "call_inner sj u sent")
      case (Inr out)
      then show ?thesis
        unfolding step tk vis
        by (simp add: retryable_failure_def vr v visits_result_def visits_time_def now1 log1)
    next
      case (Inl e)
      show ?thesis
      proof (cases "is_retryable e")
        case True
        with Inl show ?thesis
          unfolding step tk vis IH
          by (simp add: retryable_failure_def vr v visits_result_Cons visits_log_Cons visits_time_Cons
              now1 log1)
      next
        case False
        with Inl show ?thesis
          unfolding step tk vis
          by (simp add: retryable_failure_def vr v visits_result_def visits_time_def now1 log1)
      qed
    qed
  qed
qed

lemma walk_eq:
  "walk sj net c chain body w =
    (let vs = walk_visits sj net c body (now w) chain
     in (\<lparr>fin_result = visits_result sj vs, fin_tried = map (uid \<circ> v_upstream) vs, fin_hedge = None\<rparr>,
         \<lparr>now = now w + visits_time (retry_after c) vs, log = log w @ visits_log sj vs\<rparr>))"
  by (cases w) (auto simp: walk_def walk_from_visits walk_visits_def Let_def visits_result_def
      visits_time_def)

lemma walk_visits_bounds:
  fixes chain sj net c body t
  defines "vs \<equiv> walk_visits sj net c body t chain"
  shows "length vs \<le> min (max_attempt c) (length chain)"
    and "map v_upstream vs = take (length vs) chain"
proof -
  let ?all = "visits net (retry_after c) body t (take (max_attempt c) chain)"
  have "length vs \<le> length ?all" unfolding vs_def walk_visits_def by (rule length_upto_answer)
  then show len: "length vs \<le> min (max_attempt c) (length chain)" by (simp add: min.commute)
  have "vs = take (length vs) ?all"
    unfolding vs_def walk_visits_def by (rule upto_answer_prefix)
  then have "map v_upstream vs = take (length vs) (take (max_attempt c) chain)"
    by (metis take_map visits_upstreams)
  with len show "map v_upstream vs = take (length vs) chain" by simp
qed

text \<open>
  C8: A walk is exactly its visits: it tries the chain in order, up to the attempt limit, until an
  upstream answers or fails for a reason another upstream cannot mend; its result is the last
  visit's, the tried upstreams are the visited ones, it reports every visit and a failover between
  two of them, in that order, and it takes the time of the calls and of the pauses between them.
\<close>

theorem walk_is_visits:
  "walk sj net c chain body w =
    (let vs = walk_visits sj net c body (now w) chain
     in (\<lparr>fin_result = visits_result sj vs, fin_tried = map (uid \<circ> v_upstream) vs, fin_hedge = None\<rparr>,
         \<lparr>now = now w + visits_time (retry_after c) vs, log = log w @ visits_log sj vs\<rparr>))"
  by (rule walk_eq)

lemma visits_log_failovers:
  "length (filter (\<lambda>e. \<exists>u. e = Failover u) (visits_log sj vs)) = length vs - 1"
  by (induction sj vs rule: visits_log.induct) (auto simp: visit_record_def)

text \<open>
  The bounds of a walk: it tries a prefix of the chain of at most \<open>max_attempt\<close> upstreams, and
  reports one failover less than attempts; it answers with the last upstream tried, and every
  upstream before the last failed retryably; it ends in a failure only when the last failure is not
  retryable or the limit or the chain is exhausted, and in \<open>NoUpstream\<close> only when nothing could be
  tried.
\<close>

theorem walk_bounds:
  assumes "walk sj net c chain body w = (fin, w')"
  defines "vs \<equiv> walk_visits sj net c body (now w) chain"
  shows "fin_tried fin = map uid (take (length (fin_tried fin)) chain) \<and>
    length (fin_tried fin) \<le> min (max_attempt c) (length chain) \<and>
    length (filter (\<lambda>e. \<exists>u. e = Failover u) (drop (length (log w)) (log w'))) = length (fin_tried fin) - 1 \<and>
    (\<forall>i. i + 1 < length (fin_tried fin) \<longrightarrow> retryable_failure sj (vs ! i)) \<and>
    (case fin_result fin of
       Inr a \<Rightarrow> fin_tried fin \<noteq> [] \<and> ans_upstream a = last (fin_tried fin)
     | Inl NoUpstream \<Rightarrow> fin_tried fin = [] \<and> min (max_attempt c) (length chain) = 0
     | Inl (Call e) \<Rightarrow> fin_tried fin \<noteq> [] \<and>
         (is_retryable e \<longrightarrow> length (fin_tried fin) = min (max_attempt c) (length chain)))"
proof -
  let ?all = "visits net (retry_after c) body (now w) (take (max_attempt c) chain)"
  let ?n = "min (max_attempt c) (length chain)"
  have vs: "vs = upto_answer (retryable_failure sj) ?all" by (simp add: vs_def walk_visits_def)
  have b: "length vs \<le> ?n" "map v_upstream vs = take (length vs) chain"
    using walk_visits_bounds [of sj net c body "now w" chain] by (simp_all add: vs_def)
  from assms(1) have fin: "fin = \<lparr>fin_result = visits_result sj vs,
      fin_tried = map (uid \<circ> v_upstream) vs, fin_hedge = None\<rparr>"
    and log: "log w' = log w @ visits_log sj vs"
    by (auto simp: walk_eq Let_def vs_def)
  have tried: "map (uid \<circ> v_upstream) vs = map uid (take (length vs) chain)"
    using b(2) by (metis map_map)
  have retry: "\<forall>i. i + 1 < length vs \<longrightarrow> retryable_failure sj (vs ! i)"
    unfolding vs using upto_answer_before by blast
  have all: "length vs = ?n" if "vs \<noteq> []" "retryable_failure sj (last vs)"
    using that upto_answer_last [of ?all "retryable_failure sj"] vs by (metis length_take length_visits min.commute upto_answer_Nil)
  have none: "?n = 0" if "vs = []"
  proof -
    from that have "?all = []" unfolding vs by simp
    then have "length ?all = 0" by (simp only: list.size)
    then show ?thesis by simp
  qed
  have "case visits_result sj vs of
       Inr a \<Rightarrow> vs \<noteq> [] \<and> ans_upstream a = uid (v_upstream (last vs))
     | Inl NoUpstream \<Rightarrow> vs = [] \<and> ?n = 0
     | Inl (Call e) \<Rightarrow> vs \<noteq> [] \<and> (is_retryable e \<longrightarrow> length vs = ?n)"
    using all none
    by (auto simp: visits_result_def retryable_failure_def split: sum.split)
  moreover have "last (map (uid \<circ> v_upstream) vs) = uid (v_upstream (last vs))" if "vs \<noteq> []"
    using that by (simp add: last_map)
  ultimately show ?thesis
    using b(1) retry visits_log_failovers [of sj vs]
    by (simp add: fin log tried [symmetric] split: sum.splits failure.splits)
qed

subsection \<open>A concrete walk\<close>

text \<open>The upstream \<open>a\<close> is down, every other one answers.\<close>

definition demo_network :: network where
  "demo_network u body t = (if url u = ''a'' then (demo_down, 5) else (demo_ok, 3))"

definition demo_core :: core where
  "demo_core = \<lparr>max_attempt = 2, retry_after = 10, core_dispatch = Sequential\<rparr>"

definition demo_reply :: reply where
  "demo_reply = \<lparr>reply_status = 200, reply_body = ''{}''\<rparr>"

lemma demo_calls:
  "call_inner demo_serde (demo_upstream ''a'') demo_down = Inl (Unreachable ''down'')"
  "call_inner demo_serde (demo_upstream ''b'') demo_ok = Inr \<lparr>co_http_status = 200, response_body = ''{}''\<rparr>"
  by (simp_all add: call_inner_def demo_down_def error_chain_def demo_ok_def demo_upstream_def
      rpc_fault_in_def)

definition demo_finished :: finished where
  "demo_finished =
     \<lparr>fin_result = Inr \<lparr>ans_reply = demo_reply, ans_upstream = UpstreamId ''b''\<rparr>,
      fin_tried = [UpstreamId ''a'', UpstreamId ''b''], fin_hedge = None\<rparr>"

lemma demo_walk:
  "walk demo_serde demo_network demo_core (map demo_upstream [''a'', ''b'', ''c'']) ''{}'' \<lparr>now = 0, log = []\<rparr> =
     (demo_finished,
      \<lparr>now = 18, log = [Record (UpstreamId ''a'') \<lparr>rec_duration = 5, rec_outcome = Inl (Unreachable ''down'')\<rparr>,
        Failover (UpstreamId ''a''),
        Record (UpstreamId ''b'') \<lparr>rec_duration = 3, rec_outcome = Inr 200\<rparr>]\<rparr>)"
proof -
  have u: "uid (demo_upstream l) = UpstreamId l" "url (demo_upstream l) = l" for l
    by (simp_all add: demo_upstream_def)
  have v: "walk_visits demo_serde demo_network demo_core ''{}'' 0 (map demo_upstream [''a'', ''b'', ''c'']) =
      [\<lparr>v_upstream = demo_upstream ''a'', v_sent = demo_down, v_elapsed = 5\<rparr>,
       \<lparr>v_upstream = demo_upstream ''b'', v_sent = demo_ok, v_elapsed = 3\<rparr>]"
    by (simp add: walk_visits_def demo_network_def demo_core_def u retryable_failure_def visit_result_def
        demo_calls numeral_2_eq_2)
  show ?thesis
    unfolding walk_eq world.select_convs v Let_def
    by (simp add: visits_time_def visit_record_def visit_result_def visits_result_def demo_calls
        call_record_of_def u reply_of_def demo_finished_def demo_reply_def demo_core_def)
qed

theorem walk_bounds_witness:
  "fin_tried demo_finished = map uid (take (length (fin_tried demo_finished))
      (map demo_upstream [''a'', ''b'', ''c''])) \<and>
   length (fin_tried demo_finished) \<le> min (max_attempt demo_core) 3"
  using walk_bounds [OF demo_walk] by simp

end
