(* ===== verification/Hedge.thy ===== *)
theory Hedge
  imports Core
begin

text \<open>
  \<open>src/proxy/hedge.rs\<close> and \<open>Core::race\<close> of \<open>src/proxy/mod.rs\<close>: the hedged dispatch of a read. The race
  is a state machine. Its state is the local state of the loop (the calls in flight, \<open>next\<close>, the hedge
  counts, the last failure and when the current \<open>sleep\<close> began); a step is what one arm of the
  \<open>select!\<close> does. Which future is polled, when a call returns and with what, and when a timer fires
  are chosen by the runtime and the network: they are the events that drive the machine, so a
  theorem about every reachable state holds for every schedule.
\<close>

subsection \<open>The state of a race\<close>

datatype cause = First | Overtakes upstream | FailsOver upstream

text \<open>
  A call in flight: its index in the chain, why it was launched, when, and since when its attempt
  runs (\<open>None\<close> until the future is first polled: an \<open>async fn\<close> does nothing before that).
\<close>

record lane =
  lane_index :: nat
  lane_cause :: cause
  lane_launched :: duration
  lane_attempt :: "attempt option"

record winner =
  win_index :: nat
  win_cause :: cause
  win_reply :: reply

record raced =
  raced_result :: "(failure, winner) result"
  raced_started :: nat
  raced_hedge :: hedge_snapshot

record race =
  inflight :: "lane list"
  launched :: nat
  hedge_count :: hedge_snapshot
  last_failure :: "call_error option"
  since :: duration
  race_now :: duration
  race_log :: "obs_event list"
  outcome :: "raced option"

definition race_limit :: "upstream list \<Rightarrow> nat \<Rightarrow> nat" where
  "race_limit chain cap = min (length chain) cap"

subsection \<open>The steps\<close>

text \<open>
  The closure \<open>Core::race\<close> passes: it reports why the call is launched and makes the future of
  \<open>try_once\<close>, which has not begun.
\<close>

definition launch :: "upstream list \<Rightarrow> nat \<Rightarrow> cause \<Rightarrow> duration \<Rightarrow> race \<Rightarrow> race" where
  "launch chain i why t s =
     s\<lparr>inflight := inflight s @
         [\<lparr>lane_index = i, lane_cause = why, lane_launched = t, lane_attempt = None\<rparr>],
       race_log := race_log s @
         (case why of
            First \<Rightarrow> []
          | Overtakes overtaken \<Rightarrow> [Hedge (uid overtaken) (uid (chain ! i))]
          | FailsOver from \<Rightarrow> [Failover (uid from)])\<rparr>"

text \<open>Returning drops the calls in flight: those that had begun are abandoned.\<close>

definition drop_lanes :: "duration \<Rightarrow> lane list \<Rightarrow> obs_event list" where
  "drop_lanes t ls =
     concat (map (\<lambda>l. case lane_attempt l of None \<Rightarrow> [] | Some a \<Rightarrow> attempt_drop t a) ls)"

definition return_raced :: "(failure, winner) result \<Rightarrow> duration \<Rightarrow> race \<Rightarrow> race" where
  "return_raced r t s =
     s\<lparr>outcome := Some \<lparr>raced_result = r, raced_started = launched s, raced_hedge = hedge_count s\<rparr>,
       race_log := race_log s @ drop_lanes t (inflight s), inflight := []\<rparr>"

text \<open>The head of the loop: give up when nothing is in flight or left, else a new \<open>sleep\<close> begins.\<close>

definition loop_head :: "upstream list \<Rightarrow> nat \<Rightarrow> duration \<Rightarrow> race \<Rightarrow> race" where
  "loop_head chain cap t s =
     (if inflight s = [] \<and> \<not> launched s < race_limit chain cap then
        return_raced (Inl (case last_failure s of None \<Rightarrow> NoUpstream | Some e \<Rightarrow> Call e)) t s
      else s\<lparr>since := t\<rparr>)"

definition race_init :: race where
  "race_init =
     \<lparr>inflight = [], launched = 0, hedge_count = \<lparr>started = 0, won = 0\<rparr>, last_failure = None,
      since = 0, race_now = 0, race_log = [], outcome = None\<rparr>"

definition race_start :: "upstream list \<Rightarrow> nat \<Rightarrow> duration \<Rightarrow> race" where
  "race_start chain cap t =
     loop_head chain cap t
       (if 0 < race_limit chain cap
        then (launch chain 0 First t (race_init\<lparr>race_now := t\<rparr>))\<lparr>launched := 1\<rparr>
        else race_init\<lparr>race_now := t\<rparr>)"

text \<open>The arm of a call that returned, \<open>ls\<close> being the calls still in flight.\<close>

definition on_answer ::
  "upstream list \<Rightarrow> nat \<Rightarrow> lane \<Rightarrow> (call_error, reply) result \<Rightarrow> duration \<Rightarrow> race \<Rightarrow> race" where
  "on_answer chain cap l r t s =
     (case r of
        Inr reply \<Rightarrow>
          return_raced
            (Inr \<lparr>win_index = lane_index l, win_cause = lane_cause l, win_reply = reply\<rparr>) t
            (s\<lparr>hedge_count := (hedge_count s)
                 \<lparr>won := (case lane_cause l of Overtakes _ \<Rightarrow> 1 | _ \<Rightarrow> 0)\<rparr>\<rparr>)
      | Inl e \<Rightarrow>
          if \<not> is_retryable e then return_raced (Inl (Call e)) t s
          else
            let s1 = s\<lparr>last_failure := Some e\<rparr>
            in loop_head chain cap t
                 (if launched s < race_limit chain cap then
                    (launch chain (launched s) (FailsOver (chain ! lane_index l)) t s1)
                      \<lparr>launched := launched s + 1\<rparr>
                  else s1))"

text \<open>The arm of the timer.\<close>

definition on_timer :: "upstream list \<Rightarrow> nat \<Rightarrow> duration \<Rightarrow> race \<Rightarrow> race" where
  "on_timer chain cap t s =
     loop_head chain cap t
       ((launch chain (launched s) (Overtakes (chain ! (launched s - 1))) t s)
          \<lparr>launched := launched s + 1,
           hedge_count := (hedge_count s)\<lparr>started := started (hedge_count s) + 1\<rparr>\<rparr>)"

text \<open>
  What can happen next, at a time \<open>t\<close>: the first poll of the \<open>k\<close>-th call in flight, the answer to it,
  or the timer. \<open>None\<close> when it cannot.
\<close>

datatype race_event = Polled nat duration | Answered nat sent duration | Timer duration

definition remove_at :: "nat \<Rightarrow> 'a list \<Rightarrow> 'a list" where
  "remove_at k xs = take k xs @ drop (k + 1) xs"

fun race_step :: "serde \<Rightarrow> upstream list \<Rightarrow> nat \<Rightarrow> race_event \<Rightarrow> race \<Rightarrow> race option" where
  "race_step sj chain cap (Polled k t) s =
     (if outcome s = None \<and> k < length (inflight s) \<and> race_now s \<le> t then
        let l = inflight s ! k
        in (case lane_attempt l of
              Some _ \<Rightarrow> None
            | None \<Rightarrow>
                Some (s\<lparr>race_now := t, inflight := (inflight s)[k :=
                  l\<lparr>lane_attempt := Some (attempt_start (uid (chain ! lane_index l)) t)\<rparr>]\<rparr>))
      else None)"
| "race_step sj chain cap (Answered k sent t) s =
     (if outcome s = None \<and> k < length (inflight s) \<and> race_now s \<le> t then
        let l = inflight s ! k
        in (case lane_attempt l of
              None \<Rightarrow> None
            | Some a \<Rightarrow>
                let (r, calls) = try_finish sj (chain ! lane_index l) sent t a
                in Some (on_answer chain cap l r t
                     (s\<lparr>race_now := t, inflight := remove_at k (inflight s),
                        race_log := race_log s @ calls\<rparr>)))
      else None)"
| "race_step sj chain cap (Timer t) s =
     (if outcome s = None \<and> launched s < race_limit chain cap \<and>
         race_now s \<le> t \<and> since s + hedge_after (chain ! (launched s - 1)) \<le> t
      then Some (on_timer chain cap t (s\<lparr>race_now := t\<rparr>)) else None)"

text \<open>The states a race can be in.\<close>

inductive race_reach :: "serde \<Rightarrow> upstream list \<Rightarrow> nat \<Rightarrow> race \<Rightarrow> bool"
  for sj chain cap where
  race_begin: "race_reach sj chain cap (race_start chain cap t)"
| race_next: "race_reach sj chain cap s \<Longrightarrow> race_step sj chain cap ev s = Some s' \<Longrightarrow>
    race_reach sj chain cap s'"

text \<open>
  \<open>Core::race\<close> once \<open>race\<close> has returned: a hedge that won is reported, the tried upstreams are those
  launched.
\<close>

definition race_win_log :: "upstream list \<Rightarrow> raced \<Rightarrow> obs_event list" where
  "race_win_log chain r =
     (case raced_result r of
        Inr w \<Rightarrow>
          (case win_cause w of
             Overtakes overtaken \<Rightarrow> [HedgeWin (uid overtaken) (uid (chain ! win_index w))]
           | _ \<Rightarrow> [])
      | Inl _ \<Rightarrow> [])"

definition race_finished :: "upstream list \<Rightarrow> raced \<Rightarrow> finished" where
  "race_finished chain r =
     \<lparr>fin_result =
        (case raced_result r of
           Inr w \<Rightarrow> Inr \<lparr>ans_reply = win_reply w, ans_upstream = uid (chain ! win_index w)\<rparr>
         | Inl e \<Rightarrow> Inl e),
      fin_tried = map uid (take (raced_started r) chain), fin_hedge = Some (raced_hedge r)\<rparr>"

subsection \<open>Counting a log\<close>

fun attempt_uid :: "obs_event \<Rightarrow> upstream_id option" where
  "attempt_uid (Record u _) = Some u"
| "attempt_uid (Abandoned u _) = Some u"
| "attempt_uid _ = None"

fun is_hedge :: "obs_event \<Rightarrow> bool" where
  "is_hedge (Hedge _ _) = True" | "is_hedge _ = False"

fun is_failover :: "obs_event \<Rightarrow> bool" where
  "is_failover (Failover _) = True" | "is_failover _ = False"

fun retryable_record :: "obs_event \<Rightarrow> bool" where
  "retryable_record (Record _ r) = retryable_outcome (rec_outcome r)"
| "retryable_record (Hedge _ _) = True"
| "retryable_record (Failover _) = True"
| "retryable_record _ = False"

definition attempt_uids :: "obs_event list \<Rightarrow> upstream_id list" where
  "attempt_uids evs = List.map_filter attempt_uid evs"

definition switches :: "obs_event list \<Rightarrow> nat" where
  "switches evs = length (filter is_hedge evs) + length (filter is_failover evs)"

lemma attempt_uids_simps [simp]:
  "attempt_uids [] = []"
  "attempt_uids (e # evs) = (case attempt_uid e of None \<Rightarrow> attempt_uids evs | Some u \<Rightarrow> u # attempt_uids evs)"
  "attempt_uids (xs @ ys) = attempt_uids xs @ attempt_uids ys"
  by (auto simp: attempt_uids_def List.map_filter_def split: option.split)

lemma switches_simps [simp]:
  "switches [] = 0"
  "switches (e # evs) = (if is_hedge e \<or> is_failover e then 1 else 0) + switches evs"
  "switches (xs @ ys) = switches xs + switches ys"
  by (cases e; simp add: switches_def)+

lemma drop_lanes_only_abandons:
  "e \<in> set (drop_lanes t ls) \<Longrightarrow> \<exists>u d. e = Abandoned u d"
  by (auto simp: drop_lanes_def attempt_drop_def split: option.splits if_splits)

lemma drop_lanes_counts [simp]:
  "switches (drop_lanes t ls) = 0" "filter is_hedge (drop_lanes t ls) = []"
  by (auto simp: switches_def filter_empty_conv dest!: drop_lanes_only_abandons)

subsection \<open>The invariant\<close>

definition cause_ok :: "upstream list \<Rightarrow> nat \<Rightarrow> cause \<Rightarrow> bool" where
  "cause_ok chain i c =
     (case c of
        First \<Rightarrow> i = 0
      | Overtakes u \<Rightarrow> 0 < i \<and> u = chain ! (i - 1)
      | FailsOver u \<Rightarrow> \<exists>k < i. u = chain ! k)"

definition lane_ok :: "upstream list \<Rightarrow> race \<Rightarrow> lane \<Rightarrow> bool" where
  "lane_ok chain s l \<longleftrightarrow>
     lane_index l < launched s \<and> cause_ok chain (lane_index l) (lane_cause l) \<and>
     lane_launched l \<le> race_now s \<and>
     (\<forall>a. lane_attempt l = Some a \<longrightarrow>
        armed a \<and> att_upstream a = uid (chain ! lane_index l) \<and> att_started a \<le> race_now s)"

definition lane_uids :: "upstream list \<Rightarrow> lane list \<Rightarrow> upstream_id list" where
  "lane_uids chain ls = map (\<lambda>l. uid (chain ! lane_index l)) ls"

definition base_inv :: "upstream list \<Rightarrow> nat \<Rightarrow> race \<Rightarrow> bool" where
  "base_inv chain cap s \<longleftrightarrow>
     launched s \<le> race_limit chain cap \<and>
     switches (race_log s) = launched s - 1 \<and>
     started (hedge_count s) = tally is_hedge (race_log s) \<and>
     length (attempt_uids (race_log s)) + length (inflight s) = launched s \<and>
     set (attempt_uids (race_log s)) \<subseteq> uid ` set (take (launched s) chain) \<and>
     (distinct (map uid chain) \<longrightarrow> distinct (attempt_uids (race_log s) @ lane_uids chain (inflight s))) \<and>
     (\<forall>l \<in> set (inflight s). lane_ok chain s l) \<and>
     since s \<le> race_now s"

text \<open>A running race: so far every call that returned failed retryably.\<close>

definition run_inv :: "upstream list \<Rightarrow> nat \<Rightarrow> race \<Rightarrow> bool" where
  "run_inv chain cap s \<longleftrightarrow>
     base_inv chain cap s \<and> outcome s = None \<and> won (hedge_count s) = 0 \<and>
     list_all retryable_record (race_log s) \<and>
     (case last_failure s of
        None \<Rightarrow> attempt_uids (race_log s) = []
      | Some e \<Rightarrow> is_retryable e \<and> attempt_uids (race_log s) \<noteq> [])"

definition done_inv :: "upstream list \<Rightarrow> nat \<Rightarrow> race \<Rightarrow> bool" where
  "done_inv chain cap s \<longleftrightarrow>
     inflight s = [] \<and> launched s \<le> race_limit chain cap \<and>
     switches (race_log s) = launched s - 1 \<and>
     started (hedge_count s) = tally is_hedge (race_log s) \<and>
     length (attempt_uids (race_log s)) \<le> launched s \<and>
     (distinct (map uid chain) \<longrightarrow> distinct (attempt_uids (race_log s))) \<and>
     set (attempt_uids (race_log s)) \<subseteq> uid ` set (take (launched s) chain) \<and>
     (\<exists>r. outcome s = Some r \<and> raced_started r = launched s \<and> raced_hedge r = hedge_count s \<and>
        (case raced_result r of
           Inr w \<Rightarrow>
             win_index w < launched s \<and> cause_ok chain (win_index w) (win_cause w) \<and>
             won (hedge_count s) = (case win_cause w of Overtakes _ \<Rightarrow> 1 | _ \<Rightarrow> 0)
         | Inl NoUpstream \<Rightarrow> race_limit chain cap = 0 \<and> race_log s = []
         | Inl (Call e) \<Rightarrow>
             0 < launched s \<and> won (hedge_count s) = 0 \<and>
             (is_retryable e \<longrightarrow>
                launched s = race_limit chain cap \<and> length (attempt_uids (race_log s)) = launched s \<and>
                list_all retryable_record (race_log s))))"

definition race_ok :: "upstream list \<Rightarrow> nat \<Rightarrow> race \<Rightarrow> bool" where
  "race_ok chain cap s \<longleftrightarrow> run_inv chain cap s \<and> inflight s \<noteq> [] \<and> (\<forall>l \<in> set (inflight s). lane_launched l \<le> since s) \<or>
     done_inv chain cap s"

lemma limit_chain: "i < race_limit chain cap \<Longrightarrow> i < length chain"
  by (simp add: race_limit_def)

lemma take_uid: "i < n \<Longrightarrow> n \<le> length chain \<Longrightarrow> uid (chain ! i) \<in> uid ` set (take n chain)"
  by (intro imageI) (metis in_set_conv_nth length_take min.absorb2 nth_take)

lemma drop_lanes_uids:
  assumes "\<forall>l \<in> set ls. lane_ok chain s l"
  shows "\<exists>sub. attempt_uids (drop_lanes t ls) = map (\<lambda>l. uid (chain ! lane_index l)) (filter sub ls)"
proof (rule exI)
  show "attempt_uids (drop_lanes t ls) =
      map (\<lambda>l. uid (chain ! lane_index l)) (filter (\<lambda>l. lane_attempt l \<noteq> None) ls)"
    using assms by (induction ls) (auto simp: drop_lanes_def attempt_drop_def lane_ok_def split: option.split)
qed

text \<open>Dropping the calls in flight keeps the counts.\<close>

lemma return_counts:
  fixes chain cap s t
  assumes "base_inv chain cap s"
  defines "evs \<equiv> race_log s @ drop_lanes t (inflight s)"
  shows "switches evs = launched s - 1" "started (hedge_count s) = tally is_hedge evs"
    "length (attempt_uids evs) \<le> launched s"
    "distinct (map uid chain) \<Longrightarrow> distinct (attempt_uids evs)"
    "set (attempt_uids evs) \<subseteq> uid ` set (take (launched s) chain)"
proof -
  from assms(1) have ok: "\<forall>l \<in> set (inflight s). lane_ok chain s l" by (simp add: base_inv_def)
  then obtain p where p: "attempt_uids (drop_lanes t (inflight s)) =
      map (\<lambda>l. uid (chain ! lane_index l)) (filter p (inflight s))"
    using drop_lanes_uids by blast
  have n: "launched s \<le> length chain" using assms(1) by (simp add: base_inv_def race_limit_def)
  show "switches evs = launched s - 1" "started (hedge_count s) = tally is_hedge evs"
    using assms(1) by (simp_all add: evs_def base_inv_def tally_def)
  show "length (attempt_uids evs) \<le> launched s"
  proof -
    have "length (attempt_uids (race_log s)) + length (inflight s) = launched s"
      using assms(1) by (simp add: base_inv_def)
    moreover have "length (attempt_uids evs) = length (attempt_uids (race_log s)) + length (filter p (inflight s))"
      by (simp add: evs_def p)
    ultimately show ?thesis using length_filter_le [of p "inflight s"] by linarith
  qed
  show "distinct (attempt_uids evs)" if "distinct (map uid chain)"
  proof -
    have "distinct (attempt_uids (race_log s) @ lane_uids chain (inflight s))"
      using assms(1) that by (simp add: base_inv_def)
    then show ?thesis by (auto simp: evs_def p lane_uids_def distinct_map intro: inj_on_subset)
  qed
  show "set (attempt_uids evs) \<subseteq> uid ` set (take (launched s) chain)"
    using assms(1) ok n take_uid [of _ "launched s" chain] by (auto simp: evs_def base_inv_def p lane_ok_def)
qed

lemma run_inv_since: "run_inv chain cap s \<Longrightarrow> run_inv chain cap (s\<lparr>since := race_now s\<rparr>)"
  by (simp add: run_inv_def base_inv_def lane_ok_def split: option.splits)

lemma loop_head_ok:
  assumes inv: "run_inv chain cap s" and t: "race_now s = t"
    and go: "inflight s \<noteq> [] \<or> launched s = race_limit chain cap"
  shows "race_ok chain cap (loop_head chain cap t s)"
proof (cases "inflight s = []")
  case True
  with go have n: "launched s = race_limit chain cap" by simp
  have b: "base_inv chain cap s" using inv by (simp add: run_inv_def)
  have "done_inv chain cap (loop_head chain cap t s)"
  proof (cases "last_failure s")
    case None
    with inv have a: "attempt_uids (race_log s) = []" by (simp add: run_inv_def)
    with b True n have z: "race_limit chain cap = 0" by (simp add: base_inv_def)
    with b n have sw: "switches (race_log s) = 0" by (simp add: base_inv_def)
    have "race_log s = []"
    proof (cases "race_log s")
      case (Cons e evs)
      with a sw inv show ?thesis
        by (cases e) (auto simp: run_inv_def split: if_splits)
    qed
    with None True n z return_counts [OF b, of t] show ?thesis
      by (simp add: loop_head_def return_raced_def done_inv_def drop_lanes_def)
  next
    case (Some e)
    with inv have a: "is_retryable e" "attempt_uids (race_log s) \<noteq> []" "won (hedge_count s) = 0"
      "list_all retryable_record (race_log s)" by (simp_all add: run_inv_def)
    from b True have l: "length (attempt_uids (race_log s)) = launched s" by (simp add: base_inv_def)
    with a(2) have pos: "0 < launched s" by (cases "attempt_uids (race_log s)") auto
    from Some True n a l pos return_counts [OF b, of t] show ?thesis
      by (simp add: loop_head_def return_raced_def done_inv_def drop_lanes_def)
  qed
  then show ?thesis by (simp add: race_ok_def)
next
  case False
  moreover have "\<forall>l \<in> set (inflight s). lane_launched l \<le> race_now s"
    using inv by (simp add: run_inv_def base_inv_def lane_ok_def)
  ultimately show ?thesis
    using run_inv_since [OF inv] t by (simp add: loop_head_def race_ok_def)
qed

lemma fresh_uid:
  assumes "distinct (map f xs)" "i < length xs"
  shows "f (xs ! i) \<notin> f ` set (take i xs)"
proof -
  have "distinct (map f (take i xs @ xs ! i # drop (Suc i) xs))"
    using assms id_take_nth_drop [OF assms(2)] by simp
  then show ?thesis by simp
qed

text \<open>Launching the next upstream keeps the counts, whatever the cause.\<close>

lemma launch_ok:
  assumes inv: "run_inv chain cap s" and t: "race_now s = t" and more: "launched s < race_limit chain cap"
    and c: "cause_ok chain (launched s) c" and first: "c = First \<longleftrightarrow> launched s = 0"
  defines "s' \<equiv> (launch chain (launched s) c t s)\<lparr>launched := launched s + 1,
      hedge_count := (hedge_count s)\<lparr>started := started (hedge_count s) +
        (case c of Overtakes _ \<Rightarrow> 1 | _ \<Rightarrow> 0)\<rparr>\<rparr>"
  shows "run_inv chain cap s'"
proof -
  let ?l = "\<lparr>lane_index = launched s, lane_cause = c, lane_launched = t, lane_attempt = None\<rparr>"
  let ?evs = "(case c of First \<Rightarrow> [] | Overtakes u \<Rightarrow> [Hedge (uid u) (uid (chain ! launched s))]
    | FailsOver u \<Rightarrow> [Failover (uid u)])"
  have b: "base_inv chain cap s" using inv by (simp add: run_inv_def)
  have len: "launched s < length chain" using more by (rule limit_chain)
  have f: "inflight s' = inflight s @ [?l]" "race_log s' = race_log s @ ?evs"
    "launched s' = launched s + 1" "race_now s' = race_now s" "since s' = since s"
    "last_failure s' = last_failure s" "outcome s' = outcome s"
    "won (hedge_count s') = won (hedge_count s)"
    "started (hedge_count s') = started (hedge_count s) + (case c of Overtakes _ \<Rightarrow> 1 | _ \<Rightarrow> 0)"
    by (simp_all add: s'_def launch_def)
  have e: "attempt_uids ?evs = []" "list_all retryable_record ?evs"
    "switches ?evs = (if launched s = 0 then 0 else 1)"
    "tally is_hedge ?evs = (case c of Overtakes _ \<Rightarrow> 1 | _ \<Rightarrow> 0)"
    using first by (auto simp: tally_def split: cause.split)
  have lanes: "\<forall>l \<in> set (inflight s'). lane_ok chain s' l"
    using b c t by (auto simp: f base_inv_def lane_ok_def)
  have fresh: "uid (chain ! launched s) \<notin> uid ` set (take (launched s) chain)" if "distinct (map uid chain)"
    using fresh_uid [OF that len] .
  have seen: "set (attempt_uids (race_log s)) \<union> set (lane_uids chain (inflight s)) \<subseteq>
      uid ` set (take (launched s) chain)"
    using b len take_uid [of _ "launched s" chain]
    by (auto simp: base_inv_def lane_uids_def lane_ok_def)
  have dist: "distinct (attempt_uids (race_log s') @ lane_uids chain (inflight s'))"
    if d: "distinct (map uid chain)"
  proof -
    have "distinct (attempt_uids (race_log s) @ lane_uids chain (inflight s))"
      using b d by (simp add: base_inv_def)
    with fresh [OF d] seen show ?thesis by (auto simp: f e lane_uids_def)
  qed
  have tl: "tally is_hedge (race_log s') = tally is_hedge (race_log s) + tally is_hedge ?evs"
    by (simp add: f tally_def)
  have sub: "set (attempt_uids (race_log s')) \<subseteq> uid ` set (take (launched s') chain)"
  proof -
    have "set (take (launched s) chain) \<subseteq> set (take (launched s + 1) chain)"
      by (rule set_take_subset_set_take) simp
    then have "uid ` set (take (launched s) chain) \<subseteq> uid ` set (take (launched s') chain)"
      unfolding f by (rule image_mono)
    moreover have "set (attempt_uids (race_log s)) \<subseteq> uid ` set (take (launched s) chain)"
      using b by (simp add: base_inv_def)
    ultimately show ?thesis unfolding f attempt_uids_simps e by simp
  qed
  have "base_inv chain cap s'"
    unfolding base_inv_def
    using b more lanes dist sub tl e by (auto simp: base_inv_def f)
  then show ?thesis using inv e by (simp add: run_inv_def f split: option.splits)
qed

lemma remove_at_set: "set (remove_at k xs) \<subseteq> set xs"
  using set_take_subset set_drop_subset by (fastforce simp: remove_at_def)

lemma remove_at_mset:
  "k < length xs \<Longrightarrow> mset xs = add_mset (xs ! k) (mset (remove_at k xs))"
  using mset_move_front [of k xs] by (simp add: remove_at_def)

lemma answered_base:
  assumes b: "base_inv chain cap s" and k: "k < length (inflight s)" and t: "race_now s \<le> t"
    and u: "u = uid (chain ! lane_index (inflight s ! k))"
  shows "base_inv chain cap (s\<lparr>race_now := t, inflight := remove_at k (inflight s),
    race_log := race_log s @ [Record u r]\<rparr>)"
proof -
  let ?l = "inflight s ! k" and ?rest = "remove_at k (inflight s)"
  have m: "mset (inflight s) = add_mset ?l (mset ?rest)" by (rule remove_at_mset [OF k])
  then have len: "length (inflight s) = Suc (length ?rest)" by (metis size_add_mset size_mset)
  have n: "launched s \<le> length chain" using b by (simp add: base_inv_def race_limit_def)
  have ok: "lane_ok chain s ?l" using b k by (simp add: base_inv_def)
  have dist: "distinct (attempt_uids (race_log s) @ u # lane_uids chain ?rest)"
    if d: "distinct (map uid chain)"
  proof -
    have "distinct (attempt_uids (race_log s) @ lane_uids chain (inflight s))"
      using b d by (simp add: base_inv_def)
    moreover have "mset (attempt_uids (race_log s) @ lane_uids chain (inflight s)) =
        mset (attempt_uids (race_log s) @ u # lane_uids chain ?rest)"
      using m by (simp add: lane_uids_def u mset_map [symmetric] del: mset_map) (simp add: m)
    ultimately show ?thesis by (metis mset_eq_imp_distinct_iff)
  qed
  have lanes: "\<forall>l \<in> set ?rest. lane_ok chain s l"
    using b remove_at_set [of k "inflight s"] by (auto simp: base_inv_def)
  have "u \<in> uid ` set (take (launched s) chain)"
    unfolding u using ok n by (intro take_uid) (simp_all add: lane_ok_def)
  with b len dist lanes t show ?thesis
    by (auto simp: base_inv_def lane_ok_def tally_def)
qed

lemma base_inv_won: "base_inv chain cap (s\<lparr>hedge_count := (hedge_count s)\<lparr>won := x\<rparr>\<rparr>) = base_inv chain cap s"
  by (simp add: base_inv_def lane_ok_def)

lemma same_hedges: "hedge_count s = h \<Longrightarrow>
  (launch chain i c t s)\<lparr>launched := n, hedge_count := h\<rparr> = (launch chain i c t s)\<lparr>launched := n\<rparr>"
  by (simp add: launch_def)

lemma answer_ok:
  assumes b: "base_inv chain cap s" and o: "outcome s = None" and w: "won (hedge_count s) = 0"
    and l: "lane_index l < launched s" "cause_ok chain (lane_index l) (lane_cause l)"
    and a: "attempt_uids (race_log s) \<noteq> []"
    and r: "\<And>e. r = Inl e \<Longrightarrow> is_retryable e \<Longrightarrow> list_all retryable_record (race_log s)"
    and t: "race_now s = t"
  shows "race_ok chain cap (on_answer chain cap l r t s)"
proof (cases r)
  case (Inr reply)
  let ?s = "s\<lparr>hedge_count := (hedge_count s)\<lparr>won := (case lane_cause l of Overtakes _ \<Rightarrow> 1 | _ \<Rightarrow> 0)\<rparr>\<rparr>"
  have "base_inv chain cap ?s" using b by (simp only: base_inv_won)
  from return_counts [OF this, of t] Inr l b show ?thesis
    by (simp add: on_answer_def return_raced_def race_ok_def done_inv_def base_inv_def)
next
  case (Inl e)
  let ?s = "s\<lparr>last_failure := Some e\<rparr>"
  show ?thesis
  proof (cases "is_retryable e")
    case False
    with Inl return_counts [OF b, of t] l w b show ?thesis
      by (simp add: on_answer_def return_raced_def race_ok_def done_inv_def base_inv_def)
  next
    case True
    have inv: "run_inv chain cap ?s"
      using b o w a r [OF Inl True] True by (simp add: run_inv_def base_inv_def lane_ok_def)
    show ?thesis
    proof (cases "launched s < race_limit chain cap")
      case more: True
      let ?c = "FailsOver (chain ! lane_index l)"
      have "cause_ok chain (launched ?s) ?c" using l(1) by (auto simp: cause_ok_def)
      then have "run_inv chain cap ((launch chain (launched s) ?c t ?s)\<lparr>launched := launched s + 1\<rparr>)"
        using launch_ok [OF inv, of t ?c] t more l(1) by (simp add: same_hedges)
      then show ?thesis
        using Inl True more t
        by (auto simp: on_answer_def Let_def launch_def intro!: loop_head_ok)
    next
      case False
      then have "launched s = race_limit chain cap" using b by (simp add: base_inv_def)
      with Inl True False t inv show ?thesis
        by (auto simp: on_answer_def Let_def intro!: loop_head_ok)
    qed
  qed
qed

lemma start_ok: "race_ok chain cap (race_start chain cap t)"
proof -
  let ?s = "race_init\<lparr>race_now := t\<rparr>"
  have inv: "run_inv chain cap ?s"
    by (simp add: run_inv_def base_inv_def race_init_def lane_uids_def)
  show ?thesis
  proof (cases "0 < race_limit chain cap")
    case True
    have "run_inv chain cap ((launch chain 0 First t ?s)\<lparr>launched := 1\<rparr>)"
      using launch_ok [OF inv, of t First] True
      by (simp add: cause_ok_def race_init_def same_hedges)
    with True show ?thesis
      by (auto simp: race_start_def launch_def race_init_def intro!: loop_head_ok)
  next
    case False
    with inv show ?thesis
      by (auto simp: race_start_def race_init_def intro!: loop_head_ok)
  qed
qed

lemma race_step_ok:
  assumes ok: "race_ok chain cap s" and step: "race_step sj chain cap ev s = Some s'"
  shows "race_ok chain cap s'"
proof -
  have o: "outcome s = None" using step by (cases ev) (auto split: if_splits)
  with ok have inv: "run_inv chain cap s" and ne: "inflight s \<noteq> []"
    and since: "\<forall>l \<in> set (inflight s). lane_launched l \<le> since s"
    by (auto simp: race_ok_def done_inv_def)
  then have b: "base_inv chain cap s" by (simp add: run_inv_def)
  show ?thesis
  proof (cases ev)
    case (Polled k t)
    with step have k: "k < length (inflight s)" "race_now s \<le> t"
      and n: "lane_attempt (inflight s ! k) = None"
      and s': "s' = s\<lparr>race_now := t, inflight := (inflight s)[k := (inflight s ! k)
        \<lparr>lane_attempt := Some (attempt_start (uid (chain ! lane_index (inflight s ! k))) t)\<rparr>]\<rparr>"
      by (auto simp: Let_def split: if_splits option.splits)
    let ?l = "(inflight s ! k)\<lparr>lane_attempt := Some (attempt_start (uid (chain ! lane_index (inflight s ! k))) t)\<rparr>"
    have u: "lane_uids chain ((inflight s)[k := ?l]) = lane_uids chain (inflight s)"
      using k by (intro nth_equalityI) (auto simp: lane_uids_def nth_list_update)
    have lk: "lane_ok chain s (inflight s ! k)" using b k by (simp add: base_inv_def)
    have sub: "set ((inflight s)[k := ?l]) \<subseteq> insert ?l (set (inflight s))"
      by (rule set_update_subset_insert)
    have lanes: "\<forall>l \<in> set ((inflight s)[k := ?l]). lane_ok chain s' l"
      using b sub lk k(2) by (fastforce simp: s' base_inv_def lane_ok_def attempt_start_def)
    have sn: "\<forall>l \<in> set ((inflight s)[k := ?l]). lane_launched l \<le> since s"
      using since sub k by fastforce
    have "run_inv chain cap s'"
      using inv lanes u k(2) by (simp add: s' run_inv_def base_inv_def lane_ok_def split: option.splits)
    with ne sn show ?thesis by (simp add: race_ok_def s')
  next
    case (Answered k sent t)
    let ?l = "inflight s ! k" and ?u = "chain ! lane_index (inflight s ! k)"
    obtain a where k: "k < length (inflight s)" "race_now s \<le> t" and a: "lane_attempt ?l = Some a"
      using step Answered by (auto simp: Let_def split: if_splits option.splits)
    have lk: "lane_ok chain s ?l" using b k by (simp add: base_inv_def)
    with a have au: "att_upstream a = uid ?u" by (simp add: lane_ok_def)
    let ?call = "upstream_call sj ?u sent (t - att_started a)"
    let ?r = "case cr_result ?call of Inr out \<Rightarrow> Inr (reply_of out) | Inl e \<Rightarrow> Inl e"
    let ?s = "s\<lparr>race_now := t, inflight := remove_at k (inflight s),
      race_log := race_log s @ [Record (uid ?u) (call_record_of ?call)]\<rparr>"
    have s': "s' = on_answer chain cap ?l ?r t ?s"
      using step k a o Answered
      by (simp add: try_finish_def Let_def attempt_finish_def attempt_drop_def au)
    show ?thesis
      unfolding s'
    proof (rule answer_ok)
      show "base_inv chain cap ?s" using answered_base [OF b k refl] .
      fix e
      assume "?r = Inl e" "is_retryable e"
      then have "retryable_outcome (rec_outcome (call_record_of ?call))"
        by (auto simp: retryable_outcome_def call_record_of_def split: sum.splits)
      with inv show "list_all retryable_record (race_log ?s)" by (simp add: run_inv_def)
    qed (use inv lk o in \<open>simp_all add: run_inv_def lane_ok_def\<close>)
  next
    case (Timer t)
    let ?s = "s\<lparr>race_now := t\<rparr>" and ?c = "Overtakes (chain ! (launched s - 1))"
    from step Timer have more: "launched s < race_limit chain cap" "race_now s \<le> t"
      and s': "s' = on_timer chain cap t ?s" by (auto split: if_splits)
    have "0 < launched s"
      using b ne by (cases "inflight s") (auto simp: base_inv_def)
    then have c: "cause_ok chain (launched ?s) ?c" by (simp add: cause_ok_def)
    have "run_inv chain cap ?s"
      using inv more by (auto simp: run_inv_def base_inv_def lane_ok_def split: option.splits)
    from launch_ok [OF this _ _ c, of t] more \<open>0 < launched s\<close>
    have "run_inv chain cap ((launch chain (launched s) ?c t ?s)\<lparr>launched := launched s + 1,
        hedge_count := (hedge_count s)\<lparr>started := started (hedge_count s) + 1\<rparr>\<rparr>)" by simp
    then show ?thesis
      by (auto simp: s' on_timer_def launch_def intro!: loop_head_ok)
  qed
qed

lemma race_reach_ok: "race_reach sj chain cap s \<Longrightarrow> race_ok chain cap s"
  by (induction rule: race_reach.induct) (auto intro: start_ok race_step_ok)

subsection \<open>Properties of every schedule\<close>

text \<open>
  C2: A race keeps its bounds on every schedule: it never launches more calls than the chain has
  upstreams or \<open>max_attempt\<close> allows, every launch after the first is reported as one hedge or one
  failover, the hedge count is the number of hedges reported, and no upstream gets more than one
  attempt (when the chain repeats none), all of them among the upstreams launched.
\<close>

theorem race_bounds:
  assumes "race_reach sj chain cap s"
  shows "launched s \<le> min (length chain) cap \<and>
    switches (race_log s) = launched s - 1 \<and>
    started (hedge_count s) = tally is_hedge (race_log s) \<and>
    length (attempt_uids (race_log s)) \<le> launched s \<and>
    set (attempt_uids (race_log s)) \<subseteq> uid ` set (take (launched s) chain) \<and>
    (distinct (map uid chain) \<longrightarrow> distinct (attempt_uids (race_log s)))"
  using race_reach_ok [OF assms]
  by (auto simp: race_ok_def run_inv_def base_inv_def done_inv_def race_limit_def)

text \<open>
  The step that ends a race is the arm of a call that returned: the call's record ends the log, up to
  the calls in flight, which are dropped.
\<close>

fun is_abandoned :: "obs_event \<Rightarrow> bool" where
  "is_abandoned (Abandoned u d) = True"
| "is_abandoned _ = False"

definition ended_by :: "obs_event list \<Rightarrow> upstream_id \<Rightarrow> (call_error, nat) result \<Rightarrow> bool" where
  "ended_by evs u r \<longleftrightarrow>
     (\<exists>before rec dropped. evs = before @ Record u rec # dropped \<and> rec_outcome rec = r \<and>
        list_all retryable_record before \<and> list_all is_abandoned dropped)"

definition race_ended_by :: "upstream list \<Rightarrow> race \<Rightarrow> raced \<Rightarrow> bool" where
  "race_ended_by chain s r \<longleftrightarrow>
     (case raced_result r of
        Inr w \<Rightarrow> ended_by (race_log s) (uid (chain ! win_index w)) (Inr (reply_status (win_reply w)))
      | Inl NoUpstream \<Rightarrow> True
      | Inl (Call e) \<Rightarrow> \<exists>i < launched s. ended_by (race_log s) (uid (chain ! i)) (Inl e))"

lemma drop_lanes_abandoned: "list_all is_abandoned (drop_lanes t ls)"
  by (auto simp: list_all_iff dest!: drop_lanes_only_abandons)

lemma ended_by_snoc:
  "list_all retryable_record before \<Longrightarrow> list_all is_abandoned dropped \<Longrightarrow> rec_outcome rec = r \<Longrightarrow>
   ended_by (before @ Record u rec # dropped) u r"
  unfolding ended_by_def by (intro exI [of _ before] exI [of _ rec] exI [of _ dropped]) simp

lemma answer_ends:
  assumes log: "race_log s = before @ [Record (uid (chain ! lane_index l)) rec]" "list_all retryable_record before"
    and l: "lane_index l < launched s" and o: "outcome s = None"
    and rec: "rec_outcome rec = (case r of Inr reply \<Rightarrow> Inr (reply_status reply) | Inl e \<Rightarrow> Inl e)"
    and out: "outcome (on_answer chain cap l r t s) = Some x"
  shows "race_ended_by chain (on_answer chain cap l r t s) x"
proof -
  note ended = ended_by_snoc [OF log(2) drop_lanes_abandoned, of rec]
  show ?thesis
  proof (cases r)
    case (Inr reply)
    with out rec log show ?thesis
      by (auto simp: on_answer_def return_raced_def race_ended_by_def intro!: ended)
  next
    case (Inl e)
    show ?thesis
    proof (cases "is_retryable e")
      case False
      with Inl out rec log l show ?thesis
        by (auto simp: on_answer_def return_raced_def race_ended_by_def intro!: exI [of _ "lane_index l"] ended)
    next
      case True
      let ?s = "s\<lparr>last_failure := Some e\<rparr>"
      have "\<not> launched s < race_limit chain cap"
        using Inl True out o by (auto simp: on_answer_def Let_def loop_head_def launch_def)
      with Inl True out o rec log l show ?thesis
        by (auto simp: on_answer_def Let_def loop_head_def return_raced_def race_ended_by_def
            intro!: exI [of _ "lane_index l"] ended split: if_splits)
    qed
  qed
qed

lemma race_reach_ended:
  assumes "race_reach sj chain cap s" "outcome s = Some x"
  shows "race_ended_by chain s x"
  using assms(1)
proof cases
  case (race_begin t)
  with assms(2) show ?thesis
    by (auto simp: race_start_def loop_head_def return_raced_def launch_def race_init_def race_ended_by_def
        split: if_splits)
next
  case (race_next s0 ev)
  have o: "outcome s0 = None" using race_next(2) by (cases ev) (auto split: if_splits)
  with race_reach_ok [OF race_next(1)] have inv: "run_inv chain cap s0" by (auto simp: race_ok_def done_inv_def)
  show ?thesis
  proof (cases ev)
    case (Polled k t)
    with race_next(2) o assms(2) show ?thesis by (auto simp: Let_def split: if_splits option.splits)
  next
    case (Timer t)
    with race_next(2) o assms(2) show ?thesis
      by (auto simp: on_timer_def loop_head_def launch_def split: if_splits)
  next
    case (Answered k sent t)
    let ?l = "inflight s0 ! k" and ?u = "chain ! lane_index (inflight s0 ! k)"
    obtain a where k: "k < length (inflight s0)" and a: "lane_attempt ?l = Some a"
      using race_next(2) Answered by (auto simp: Let_def split: if_splits option.splits)
    have lk: "lane_ok chain s0 ?l" using inv k by (simp add: run_inv_def base_inv_def)
    with a have au: "att_upstream a = uid ?u" by (simp add: lane_ok_def)
    let ?call = "upstream_call sj ?u sent (t - att_started a)"
    let ?r = "case cr_result ?call of Inr out \<Rightarrow> Inr (reply_of out) | Inl e \<Rightarrow> Inl e"
    let ?s = "s0\<lparr>race_now := t, inflight := remove_at k (inflight s0),
      race_log := race_log s0 @ [Record (uid ?u) (call_record_of ?call)]\<rparr>"
    have s: "s = on_answer chain cap ?l ?r t ?s"
      using race_next(2) k a o Answered
      by (simp add: try_finish_def Let_def attempt_finish_def attempt_drop_def au split: if_splits)
    show ?thesis
      unfolding s
    proof (rule answer_ends)
      show "list_all retryable_record (race_log s0)" using inv by (simp add: run_inv_def)
      show "outcome (on_answer chain cap ?l ?r t ?s) = Some x" using assms(2) by (simp only: s)
      show "rec_outcome (call_record_of ?call) = (case ?r of Inr reply \<Rightarrow> Inr (reply_status reply) | Inl e \<Rightarrow> Inl e)"
        by (simp add: call_record_of_def reply_of_def split: sum.split)
    qed (use lk o in \<open>simp_all add: lane_ok_def\<close>)
  qed
qed

text \<open>
  C3: What a race returns, and when, on every schedule. An answer ends the race at once: it is the last
  call recorded, from an upstream that was launched, every call recorded before it failed retryably, and
  the calls still in flight are abandoned; the hedge counts as won exactly when the answer's call was
  launched as a hedge. So does a failure that is not retryable. A retryable failure is returned only
  after every upstream the limit allows was launched and each failed retryably, so that nothing was left
  to try; it is the last one recorded. \<open>NoUpstream\<close> only when the limit is 0 and nothing was done. Nothing
  is left in flight.
\<close>

theorem race_returns:
  assumes "race_reach sj chain cap s" "outcome s = Some r"
  shows "inflight s = [] \<and> raced_started r = launched s \<and> raced_hedge r = hedge_count s \<and>
    (case raced_result r of
       Inr w \<Rightarrow>
         win_index w < launched s \<and> cause_ok chain (win_index w) (win_cause w) \<and>
         won (raced_hedge r) = (case win_cause w of Overtakes _ \<Rightarrow> 1 | _ \<Rightarrow> 0) \<and>
         ended_by (race_log s) (uid (chain ! win_index w)) (Inr (reply_status (win_reply w)))
     | Inl NoUpstream \<Rightarrow> min (length chain) cap = 0 \<and> race_log s = []
     | Inl (Call e) \<Rightarrow>
         0 < launched s \<and> won (raced_hedge r) = 0 \<and>
         (\<exists>i < launched s. ended_by (race_log s) (uid (chain ! i)) (Inl e)) \<and>
         (is_retryable e \<longrightarrow>
            launched s = min (length chain) cap \<and> length (attempt_uids (race_log s)) = launched s \<and>
            list_all retryable_record (race_log s)))"
proof -
  have "done_inv chain cap s"
    using race_reach_ok [OF assms(1)] assms(2) by (auto simp: race_ok_def run_inv_def)
  with assms(2) race_reach_ended [OF assms] show ?thesis
    by (auto simp: done_inv_def race_limit_def race_ended_by_def split: sum.splits failure.splits)
qed

text \<open>
  C12: A hedge waits: the timer launches the next upstream of the chain, once, as a hedge of the one
  launched before it, and only when every call in flight was launched at least that upstream's
  \<open>hedge_after\<close> ago.
\<close>

theorem hedge_waits:
  assumes "race_reach sj chain cap s" "race_step sj chain cap (Timer t) s = Some s'"
  shows "0 < launched s \<and> launched s < length chain \<and> launched s' = launched s + 1 \<and>
    (\<forall>l \<in> set (inflight s). lane_launched l + hedge_after (chain ! (launched s - 1)) \<le> t) \<and>
    race_log s' = race_log s @ [Hedge (uid (chain ! (launched s - 1))) (uid (chain ! launched s))] \<and>
    map lane_index (inflight s') = map lane_index (inflight s) @ [launched s] \<and> outcome s' = None"
proof -
  from assms(2) have o: "outcome s = None" and more: "launched s < race_limit chain cap"
    and t: "since s + hedge_after (chain ! (launched s - 1)) \<le> t"
    and s': "s' = on_timer chain cap t (s\<lparr>race_now := t\<rparr>)" by (auto split: if_splits)
  from race_reach_ok [OF assms(1)] o have inv: "run_inv chain cap s" "inflight s \<noteq> []"
    and l: "\<forall>l \<in> set (inflight s). lane_launched l \<le> since s"
    by (auto simp: race_ok_def done_inv_def)
  have pos: "0 < launched s" using inv by (cases "inflight s") (auto simp: run_inv_def base_inv_def)
  have waited: "\<forall>l \<in> set (inflight s). lane_launched l + hedge_after (chain ! (launched s - 1)) \<le> t"
    using l t by fastforce
  have "s' = ((launch chain (launched s) (Overtakes (chain ! (launched s - 1))) t (s\<lparr>race_now := t\<rparr>))
      \<lparr>launched := launched s + 1,
       hedge_count := (hedge_count s)\<lparr>started := started (hedge_count s) + 1\<rparr>, since := t\<rparr>)"
    by (simp add: s' on_timer_def loop_head_def launch_def)
  with pos waited more o show ?thesis
    by (simp add: launch_def race_limit_def)
qed

subsection \<open>Termination\<close>

fun race_run :: "serde \<Rightarrow> upstream list \<Rightarrow> nat \<Rightarrow> race_event list \<Rightarrow> race \<Rightarrow> race option" where
  "race_run sj chain cap [] s = Some s"
| "race_run sj chain cap (ev # evs) s =
     (case race_step sj chain cap ev s of None \<Rightarrow> None | Some s' \<Rightarrow> race_run sj chain cap evs s')"

text \<open>What a race has left to do: two steps per call in flight that has not begun, one if it has.\<close>

definition lane_work :: "lane \<Rightarrow> nat" where
  "lane_work l = (if lane_attempt l = None then 2 else 1)"

definition work :: "upstream list \<Rightarrow> nat \<Rightarrow> race \<Rightarrow> nat" where
  "work chain cap s =
     3 * (race_limit chain cap - launched s) + sum_list (map lane_work (inflight s))"

lemma work_loop_head: "work chain cap (loop_head chain cap t s) = work chain cap s"
  by (simp add: loop_head_def work_def return_raced_def)

lemma work_return: "work chain cap (return_raced r t s) \<le> work chain cap s"
  by (simp add: work_def return_raced_def)

lemma work_launch:
  "launched s < race_limit chain cap \<Longrightarrow>
   Suc (work chain cap ((launch chain i c t s)\<lparr>launched := launched s + 1\<rparr>)) = work chain cap s"
  by (simp add: work_def launch_def lane_work_def)

lemma work_remove:
  assumes "k < length ls"
  shows "sum_list (map lane_work ls) = lane_work (ls ! k) + sum_list (map lane_work (remove_at k ls))"
proof -
  have "sum_mset (image_mset lane_work (mset ls)) =
      lane_work (ls ! k) + sum_mset (image_mset lane_work (mset (remove_at k ls)))"
    using remove_at_mset [OF assms] by simp
  then show ?thesis by (simp add: sum_mset_sum_list [symmetric])
qed

lemma work_answer: "work chain cap (on_answer chain cap l r t s) \<le> work chain cap s"
proof -
  have lf: "work chain cap (s\<lparr>last_failure := x\<rparr>) = work chain cap s"
    and hc: "work chain cap (s\<lparr>hedge_count := h\<rparr>) = work chain cap s" for x h
    by (simp_all add: work_def)
  show ?thesis
  proof (cases r)
    case (Inr reply)
    then show ?thesis by (simp add: on_answer_def order_trans [OF work_return] hc)
  next
    case (Inl e)
    show ?thesis
    proof (cases "is_retryable e \<and> launched s < race_limit chain cap")
      case True
      then show ?thesis
        using Inl work_launch [of "s\<lparr>last_failure := Some e\<rparr>" chain cap "launched s"
            "FailsOver (chain ! lane_index l)" t]
        by (simp add: on_answer_def Let_def work_loop_head lf)
    next
      case False
      with Inl show ?thesis
        using work_return [of chain cap _ t s]
        by (auto simp: on_answer_def Let_def work_loop_head lf)
    qed
  qed
qed

lemma work_step:
  assumes "race_step sj chain cap ev s = Some s'"
  shows "work chain cap s' < work chain cap s"
proof (cases ev)
  case (Polled k t)
  with assms have k: "k < length (inflight s)" and n: "lane_attempt (inflight s ! k) = None"
    and s': "s' = s\<lparr>race_now := t, inflight := (inflight s)[k := (inflight s ! k)
      \<lparr>lane_attempt := Some (attempt_start (uid (chain ! lane_index (inflight s ! k))) t)\<rparr>]\<rparr>"
    by (auto simp: Let_def split: if_splits option.splits)
  let ?l = "(inflight s ! k)\<lparr>lane_attempt := Some (attempt_start (uid (chain ! lane_index (inflight s ! k))) t)\<rparr>"
  have r: "remove_at k ((inflight s)[k := ?l]) = remove_at k (inflight s)"
    by (simp add: remove_at_def)
  have "sum_list (map lane_work ((inflight s)[k := ?l])) = lane_work ?l + sum_list (map lane_work (remove_at k (inflight s)))"
    using work_remove [of k "(inflight s)[k := ?l]"] k r by simp
  with work_remove [OF k] n show ?thesis by (simp add: s' work_def lane_work_def)
next
  case (Answered k sent t)
  with assms obtain r calls where k: "k < length (inflight s)"
    and s': "s' = on_answer chain cap (inflight s ! k) r t
      (s\<lparr>race_now := t, inflight := remove_at k (inflight s), race_log := race_log s @ calls\<rparr>)"
    by (auto simp: Let_def split: if_splits option.splits prod.splits)
  let ?s = "s\<lparr>race_now := t, inflight := remove_at k (inflight s), race_log := race_log s @ calls\<rparr>"
  have "work chain cap ?s < work chain cap s"
    using work_remove [OF k] by (simp add: work_def lane_work_def)
  with work_answer [of chain cap "inflight s ! k" r t ?s] show ?thesis by (simp add: s')
next
  case (Timer t)
  with assms have more: "launched s < race_limit chain cap"
    and s': "s' = on_timer chain cap t (s\<lparr>race_now := t\<rparr>)" by (auto split: if_splits)
  have "Suc (work chain cap s') = Suc (work chain cap ((launch chain (launched s)
      (Overtakes (chain ! (launched s - 1))) t (s\<lparr>race_now := t\<rparr>))\<lparr>launched := launched s + 1\<rparr>))"
    by (simp add: s' on_timer_def work_loop_head) (simp add: work_def)
  also have "\<dots> = work chain cap (s\<lparr>race_now := t\<rparr>)"
    using work_launch [of "s\<lparr>race_now := t\<rparr>" chain cap "launched s" "Overtakes (chain ! (launched s - 1))" t]
      more by simp
  also have "\<dots> = work chain cap s" by (simp add: work_def)
  finally show ?thesis by simp
qed

lemma work_run:
  "race_run sj chain cap evs s = Some s' \<Longrightarrow> length evs + work chain cap s' \<le> work chain cap s"
proof (induction evs arbitrary: s)
  case (Cons ev evs)
  then obtain s1 where 1: "race_step sj chain cap ev s = Some s1" "race_run sj chain cap evs s1 = Some s'"
    by (auto split: option.splits)
  from Cons.IH [OF 1(2)] work_step [OF 1(1)] show ?case by simp
qed simp

lemma work_start: "work chain cap (race_start chain cap t) \<le> 3 * race_limit chain cap"
  by (simp add: race_start_def work_loop_head) (simp add: work_def launch_def race_init_def lane_work_def, arith)

lemma race_run_reach:
  "race_run sj chain cap evs s = Some s' \<Longrightarrow> race_reach sj chain cap s \<Longrightarrow> race_reach sj chain cap s'"
  by (induction evs arbitrary: s) (auto split: option.splits intro: race_next)

text \<open>
  A race ends: no schedule has more than three steps per upstream the limit allows, and a race
  that has not returned can go on: it has calls in flight, each of which either can begin or returns
  as soon as the network answers, whatever the answer. So once every call is answered it returns.
\<close>

theorem race_ends:
  assumes "race_run sj chain cap evs (race_start chain cap t) = Some s"
  shows "length evs \<le> 3 * min (length chain) cap \<and>
    (outcome s = None \<longrightarrow> inflight s \<noteq> [] \<and>
      (\<forall>k < length (inflight s).
        if lane_attempt (inflight s ! k) = None
        then race_step sj chain cap (Polled k (race_now s)) s \<noteq> None
        else (\<forall>sent. race_step sj chain cap (Answered k sent (race_now s)) s \<noteq> None)))"
proof -
  have "length evs \<le> 3 * race_limit chain cap"
    using work_run [OF assms] work_start [of chain cap t] by linarith
  moreover have "race_ok chain cap s"
    by (rule race_reach_ok) (rule race_run_reach [OF assms race_begin])
  ultimately show ?thesis
    by (auto simp: race_ok_def done_inv_def race_limit_def Let_def split: option.split prod.split)
qed

subsection \<open>A race without hedges\<close>

text \<open>
  The schedule in which no timer fires: each call is polled when launched and answered when the
  network answers, before \<open>hedge_after\<close> has passed.
\<close>

fun quiet_race ::
  "serde \<Rightarrow> network \<Rightarrow> upstream list \<Rightarrow> nat \<Rightarrow> bytes \<Rightarrow> nat \<Rightarrow> race \<Rightarrow> race_event list \<times> race option" where
  "quiet_race sj net chain cap body 0 s = ([], Some s)"
| "quiet_race sj net chain cap body (Suc n) s =
     (if outcome s \<noteq> None then ([], Some s)
      else
        let t = race_now s;
            (sent, elapsed) = net (chain ! (launched s - 1)) body t;
            evs = [Polled 0 t, Answered 0 sent (t + elapsed)]
        in (case race_run sj chain cap evs s of
              None \<Rightarrow> (evs, None)
            | Some s' \<Rightarrow>
                (case quiet_race sj net chain cap body n s' of (evs', r) \<Rightarrow> (evs @ evs', r))))"

text \<open>What a returned race and a walk have in common.\<close>

definition agree :: "upstream list \<Rightarrow> race \<Rightarrow> finished \<times> world \<Rightarrow> bool" where
  "agree chain s w \<longleftrightarrow>
     (\<exists>r. outcome s = Some r \<and> fin_result (race_finished chain r) = fin_result (fst w) \<and>
        fin_tried (race_finished chain r) = fin_tried (fst w) \<and> race_log s = log (snd w) \<and>
        race_now s = now (snd w) \<and> raced_hedge r = \<lparr>started = 0, won = 0\<rparr>)"

text \<open>One call in flight, not begun: the state in which the quiet race is between two calls.\<close>

definition single :: "upstream list \<Rightarrow> nat \<Rightarrow> duration \<Rightarrow> call_error option \<Rightarrow> obs_event list \<Rightarrow> race" where
  "single chain i t lf evs =
     \<lparr>inflight = [\<lparr>lane_index = i,
         lane_cause = (if i = 0 then First else FailsOver (chain ! (i - 1))), lane_launched = t,
         lane_attempt = None\<rparr>],
      launched = i + 1, hedge_count = \<lparr>started = 0, won = 0\<rparr>, last_failure = lf, since = t,
      race_now = t,
      race_log = evs @ (if i = 0 then [] else [Failover (uid (chain ! (i - 1)))]), outcome = None\<rparr>"

lemma single_step:
  fixes chain i t lf evs sent elapsed sj cap
  defines "v \<equiv> \<lparr>v_upstream = chain ! i, v_sent = sent, v_elapsed = elapsed\<rparr>"
  defines "lg \<equiv> evs @ (if i = 0 then [] else [Failover (uid (chain ! (i - 1)))]) @ [visit_record sj v]"
  shows "race_run sj chain cap [Polled 0 t, Answered 0 sent (t + elapsed)] (single chain i t lf evs) =
    Some (on_answer chain cap
      \<lparr>lane_index = i, lane_cause = (if i = 0 then First else FailsOver (chain ! (i - 1))),
       lane_launched = t, lane_attempt = Some (attempt_start (uid (chain ! i)) t)\<rparr>
      (case visit_result sj v of Inr out \<Rightarrow> Inr (reply_of out) | Inl e \<Rightarrow> Inl e) (t + elapsed)
      ((single chain i t lf evs)\<lparr>race_now := t + elapsed, inflight := [], race_log := lg\<rparr>))"
  by (simp add: single_def Let_def try_finish_def attempt_start_def attempt_finish_def attempt_drop_def
      upstream_call_def visit_result_def visit_record_def v_def lg_def remove_at_def)

lemma quiet_returned:
  "outcome s \<noteq> None \<Longrightarrow> quiet_race sj net chain cap body n s = ([], Some s)"
  by (cases n) auto

lemma quiet_is_walk:
  fixes c :: core
  assumes c: "max_attempt c = cap" "retry_after c = 0"
  shows "i < race_limit chain cap \<Longrightarrow> race_limit chain cap - i \<le> n \<Longrightarrow>
    \<exists>s. snd (quiet_race sj net chain cap body n (single chain i t lf evs)) = Some s \<and>
      agree chain s (walk_from sj net c body (drop i chain) (map uid (take i chain)) lf \<lparr>now = t, log = evs\<rparr>)"
proof (induction n arbitrary: i t lf evs)
  case (Suc n)
  let ?u = "chain ! i" and ?L = "race_limit chain cap"
  obtain sent elapsed where net: "net ?u body t = (sent, elapsed)" by fastforce
  let ?v = "\<lparr>v_upstream = ?u, v_sent = sent, v_elapsed = elapsed\<rparr>"
  let ?evs = "evs @ (if i = 0 then [] else [Failover (uid (chain ! (i - 1)))])"
  let ?lg = "?evs @ [visit_record sj ?v]"
  let ?r = "call_inner sj ?u sent"
  let ?s1 = "on_answer chain cap
      \<lparr>lane_index = i, lane_cause = (if i = 0 then First else FailsOver (chain ! (i - 1))),
       lane_launched = t, lane_attempt = Some (attempt_start (uid ?u) t)\<rparr>
      (case ?r of Inr out \<Rightarrow> Inr (reply_of out) | Inl e \<Rightarrow> Inl e) (t + elapsed)
      ((single chain i t lf evs)\<lparr>race_now := t + elapsed, inflight := [], race_log := ?lg\<rparr>)"
  let ?w = "\<lparr>now = t + elapsed, log = ?lg\<rparr>"
  have i: "i < cap" "i < length chain" using Suc.prems(1) by (simp_all add: race_limit_def)
  have tk: "take (Suc i) chain = take i chain @ [?u]" using i(2) by (rule take_Suc_conv_app_nth)
  have prev: "last (map uid (take i chain)) = uid (chain ! (i - 1))" if "i \<noteq> 0"
    using that i(2) by (cases chain) (auto simp: last_map last_conv_nth min_def)
  have "race_run sj chain cap [Polled 0 t, Answered 0 sent (t + elapsed)] (single chain i t lf evs) = Some ?s1"
    using single_step [of sj chain cap t sent elapsed i lf evs] by (simp add: visit_result_def)
  then have q: "snd (quiet_race sj net chain cap body (Suc n) (single chain i t lf evs)) =
      snd (quiet_race sj net chain cap body n ?s1)"
    using net by (simp add: single_def Let_def split_beta del: race_run.simps)
  define w1 where "w1 = (if i = 0 then \<lparr>now = t, log = evs\<rparr>
      else sleep (retry_after c) (emit (Failover (uid (chain ! (i - 1)))) \<lparr>now = t, log = evs\<rparr>))"
  have w1: "now w1 = t" "log w1 = ?evs" by (simp_all add: w1_def c)
  have once: "try_once sj net ?u body w1 = (case ?r of Inr out \<Rightarrow> Inr (reply_of out) | Inl e \<Rightarrow> Inl e, ?w)"
    using try_once_visit [of net ?u body w1 sent elapsed sj] net by (simp add: w1)
  have walk: "walk_from sj net c body (drop i chain) (map uid (take i chain)) lf \<lparr>now = t, log = evs\<rparr> =
      (case ?r of
         Inr out \<Rightarrow> (\<lparr>fin_result = Inr \<lparr>ans_reply = reply_of out, ans_upstream = uid ?u\<rparr>,
           fin_tried = map uid (take (Suc i) chain), fin_hedge = None\<rparr>, ?w)
       | Inl e \<Rightarrow> if is_retryable e
           then walk_from sj net c body (drop (Suc i) chain) (map uid (take (Suc i) chain)) (Some e) ?w
           else (\<lparr>fin_result = Inl (Call e), fin_tried = map uid (take (Suc i) chain), fin_hedge = None\<rparr>, ?w))"
  proof -
    have dr: "drop i chain = ?u # drop (Suc i) chain" using i(2) by (rule Cons_nth_drop_Suc [symmetric])
    have em: "map uid (take i chain) = [] \<longleftrightarrow> i = 0" using i(2) by auto
    have ln: "length (map uid (take i chain)) = i" using i(2) by simp
    have w1': "(if map uid (take i chain) = [] then \<lparr>now = t, log = evs\<rparr>
        else sleep (retry_after c) (emit (Failover (last (map uid (take i chain)))) \<lparr>now = t, log = evs\<rparr>)) = w1"
      unfolding em w1_def using prev by simp
    have tr: "map uid (take i chain) @ [uid ?u] = map uid (take (Suc i) chain)" by (simp add: tk)
    from once i(1) show ?thesis
      unfolding dr walk_from.simps ln w1' tr c(1) Let_def
      by (simp split: sum.split)
  qed
  show ?case
  proof (cases ?r)
    case (Inr out)
    then have "outcome ?s1 \<noteq> None" by (simp add: on_answer_def return_raced_def)
    note stays = quiet_returned [OF this, of sj net chain cap body n]
    show ?thesis
      unfolding q walk stays by (auto simp: Inr agree_def on_answer_def return_raced_def race_finished_def single_def drop_lanes_def)
  next
    case (Inl e)
    show ?thesis
    proof (cases "is_retryable e")
      case False
      with Inl have "outcome ?s1 \<noteq> None" by (simp add: on_answer_def return_raced_def)
      note stays = quiet_returned [OF this, of sj net chain cap body n]
      show ?thesis
        unfolding q walk stays using False by (auto simp: Inl agree_def on_answer_def return_raced_def race_finished_def single_def drop_lanes_def)
    next
      case retry: True
      show ?thesis
      proof (cases "Suc i < ?L")
        case True
        have s1: "?s1 = single chain (Suc i) (t + elapsed) (Some e) ?lg"
          using Inl retry True
          by (simp add: on_answer_def Let_def single_def launch_def loop_head_def)
        from Suc.IH [OF True, of "t + elapsed" "Some e" ?lg] Suc.prems True
        show ?thesis unfolding q walk s1 by (simp add: Inl retry)
      next
        case False
        then have L: "?L = Suc i" using Suc.prems(1) by simp
        then have stop: "walk_from sj net c body (drop (Suc i) chain) (map uid (take (Suc i) chain)) (Some e) ?w =
            (\<lparr>fin_result = Inl (Call e), fin_tried = map uid (take (Suc i) chain), fin_hedge = None\<rparr>, ?w)"
          using i c by (cases "drop (Suc i) chain") (auto simp: race_limit_def min_def split: if_splits)
        from Inl retry L have "outcome ?s1 \<noteq> None"
          by (simp add: on_answer_def Let_def single_def loop_head_def return_raced_def)
        note stays = quiet_returned [OF this, of sj net chain cap body n]
        show ?thesis
          unfolding q walk stays using retry stop L by (auto simp: Inl agree_def on_answer_def Let_def loop_head_def return_raced_def race_finished_def
              single_def drop_lanes_def)
      qed
    qed
  qed
qed simp

text \<open>
  C14: When no hedge is due, a race is a walk without the pause: on the schedule in which every call is
  answered before the timer fires, the race returns, with the result, the tried upstreams, the calls
  on the observer and the time of \<open>walk\<close> on the same chain with \<open>retry_after\<close> zero, and reports no
  hedge.
\<close>

theorem quiet_race_is_walk:
  assumes "max_attempt c = cap" "retry_after c = 0"
  shows "\<exists>s. snd (quiet_race sj net chain cap body cap (race_start chain cap t)) = Some s \<and>
    agree chain s (walk sj net c chain body \<lparr>now = t, log = []\<rparr>)"
proof (cases "0 < race_limit chain cap")
  case True
  then have "race_start chain cap t = single chain 0 t None []"
    by (simp add: race_start_def single_def launch_def loop_head_def race_init_def)
  with quiet_is_walk [OF assms True, of cap sj net body t None "[]"] show ?thesis
    by (simp add: walk_def race_limit_def)
next
  case False
  then have "outcome (race_start chain cap t) \<noteq> None"
    by (simp add: race_start_def loop_head_def return_raced_def race_init_def)
  then have "quiet_race sj net chain cap body cap (race_start chain cap t) = ([], Some (race_start chain cap t))"
    by (rule quiet_returned)
  moreover have "walk sj net c chain body \<lparr>now = t, log = []\<rparr> =
      (\<lparr>fin_result = Inl NoUpstream, fin_tried = [], fin_hedge = None\<rparr>, \<lparr>now = t, log = []\<rparr>)"
    using False assms by (cases chain) (auto simp: walk_def race_limit_def)
  ultimately show ?thesis
    using False by (auto simp: agree_def race_start_def loop_head_def return_raced_def race_init_def
        race_finished_def drop_lanes_def)
qed

subsection \<open>A concrete race\<close>

text \<open>The first upstream is slow, the second is launched as a hedge after its time and wins.\<close>

abbreviation demo_chain :: "upstream list" where
  "demo_chain \<equiv> [demo_upstream ''a'', demo_upstream ''b'']"

definition demo_events :: "race_event list" where
  "demo_events = [Polled 0 0, Timer 1, Polled 1 1, Answered 1 demo_ok 4]"

definition demo_race :: race where
  "demo_race =
     \<lparr>inflight = [], launched = 2, hedge_count = \<lparr>started = 1, won = 1\<rparr>, last_failure = None, since = 1,
      race_now = 4,
      race_log = [Hedge (UpstreamId ''a'') (UpstreamId ''b''),
        Record (UpstreamId ''b'') \<lparr>rec_duration = 3, rec_outcome = Inr 200\<rparr>,
        Abandoned (UpstreamId ''a'') 4],
      outcome = Some \<lparr>raced_result = Inr \<lparr>win_index = 1, win_cause = Overtakes (demo_upstream ''a''),
          win_reply = demo_reply\<rparr>, raced_started = 2, raced_hedge = \<lparr>started = 1, won = 1\<rparr>\<rparr>\<rparr>"

lemma demo_upstream_fields:
  "uid (demo_upstream l) = UpstreamId l" "url (demo_upstream l) = l" "hedge_after (demo_upstream l) = 1"
  by (simp_all add: demo_upstream_def)

lemmas race_eval = race_start_def loop_head_def launch_def race_init_def race_limit_def on_timer_def
  on_answer_def return_raced_def drop_lanes_def attempt_drop_def attempt_start_def attempt_finish_def
  try_finish_def upstream_call_def call_record_of_def remove_at_def demo_upstream_fields demo_calls

lemma demo_run:
  "race_run demo_serde demo_chain 2 demo_events (race_start demo_chain 2 0) = Some demo_race"
  by (simp add: demo_events_def demo_race_def race_eval Let_def reply_of_def demo_reply_def numeral_2_eq_2)

lemma demo_reach: "race_reach demo_serde demo_chain 2 demo_race"
  by (rule race_run_reach [OF demo_run race_begin])

theorem race_bounds_witness:
  "launched demo_race \<le> min (length demo_chain) 2 \<and> switches (race_log demo_race) = launched demo_race - 1 \<and>
   distinct (attempt_uids (race_log demo_race))"
  using race_bounds [OF demo_reach] by (simp add: demo_upstream_fields)

theorem race_returns_witness:
  "inflight demo_race = [] \<and> 1 < launched demo_race \<and> cause_ok demo_chain 1 (Overtakes (demo_upstream ''a'')) \<and>
   ended_by (race_log demo_race) (UpstreamId ''b'') (Inr 200)"
proof -
  have "outcome demo_race = Some \<lparr>raced_result = Inr \<lparr>win_index = 1,
      win_cause = Overtakes (demo_upstream ''a''), win_reply = demo_reply\<rparr>, raced_started = 2,
      raced_hedge = \<lparr>started = 1, won = 1\<rparr>\<rparr>" by (simp add: demo_race_def)
  from race_returns [OF demo_reach this] show ?thesis by (simp add: demo_upstream_fields demo_reply_def)
qed

lemma demo_timer:
  "race_step demo_serde demo_chain 2 (Timer 1) (race_start demo_chain 2 0) =
     Some (on_timer demo_chain 2 1 ((race_start demo_chain 2 0)\<lparr>race_now := 1\<rparr>))"
  by (simp add: race_eval)

theorem hedge_waits_witness:
  "race_log (on_timer demo_chain 2 1 ((race_start demo_chain 2 0)\<lparr>race_now := 1\<rparr>)) =
     race_log (race_start demo_chain 2 0) @
       [Hedge (uid (demo_chain ! (launched (race_start demo_chain 2 0) - 1)))
         (uid (demo_chain ! launched (race_start demo_chain 2 0)))]"
  using hedge_waits [OF race_begin demo_timer] by blast

theorem race_ends_witness: "length demo_events \<le> 3 * min (length demo_chain) 2"
  using race_ends [OF demo_run] by blast

theorem quiet_race_is_walk_witness:
  "\<exists>s. snd (quiet_race demo_serde demo_network demo_chain 2 ''{}'' 2 (race_start demo_chain 2 0)) = Some s \<and>
    agree demo_chain s (walk demo_serde demo_network (demo_core\<lparr>retry_after := 0\<rparr>) demo_chain ''{}''
      \<lparr>now = 0, log = []\<rparr>)"
  using quiet_race_is_walk [of "demo_core\<lparr>retry_after := 0\<rparr>" 2] by (simp add: demo_core_def)

end
