(* ===== verification/Walker.thy ===== *)
theory Walker
  imports Hedge
begin

text \<open>
  The sequential walk (\<open>Core::walk\<close> of \<open>src/proxy/mod.rs\<close>) and the single send (\<open>Core::send_once\<close>) as
  step machines, one step per await. A future that is dropped at an await, because the client hung up,
  runs no further than the destructors of its locals: the guard \<open>Attempt\<close> of a call in flight records
  it as abandoned. The theory shows what every reachable state has told the observer, the state it is
  dropped in included, and that the walk of the theory \<open>Core\<close> is the run of the machine in which each
  pause and each call takes the time the network says.
\<close>

subsection \<open>The walk\<close>

text \<open>
  Where the walk waits: in the pause before the next upstream, since when; in a call; or it returned.
\<close>

datatype walk_phase =
  Pausing upstream duration
| Calling upstream attempt
| WalkDone "(failure, answer) result"

record walker =
  wk_rest :: "upstream list"
  wk_tried :: "upstream_id list"
  wk_failure :: "call_error option"
  wk_phase :: walk_phase
  wk_now :: duration
  wk_log :: "obs_event list"

definition walk_call :: "upstream \<Rightarrow> walker \<Rightarrow> walker" where
  "walk_call u s =
     s\<lparr>wk_tried := wk_tried s @ [uid u], wk_phase := Calling u (attempt_start (uid u) (wk_now s))\<rparr>"

text \<open>The head of the loop, and what follows it when it ends.\<close>

definition walk_head :: "core \<Rightarrow> walker \<Rightarrow> walker" where
  "walk_head c s =
     (case wk_rest s of
        [] \<Rightarrow> s\<lparr>wk_phase := WalkDone (Inl (case wk_failure s of None \<Rightarrow> NoUpstream | Some e \<Rightarrow> Call e))\<rparr>
      | u # us \<Rightarrow>
          if max_attempt c \<le> length (wk_tried s)
          then s\<lparr>wk_phase := WalkDone (Inl (case wk_failure s of None \<Rightarrow> NoUpstream | Some e \<Rightarrow> Call e))\<rparr>
          else if wk_tried s = [] then walk_call u (s\<lparr>wk_rest := us\<rparr>)
          else s\<lparr>wk_rest := us, wk_phase := Pausing u (wk_now s),
                 wk_log := wk_log s @ [Failover (last (wk_tried s))]\<rparr>)"

definition walk_begin :: "core \<Rightarrow> upstream list \<Rightarrow> duration \<Rightarrow> walker" where
  "walk_begin c chain t =
     walk_head c \<lparr>wk_rest = chain, wk_tried = [], wk_failure = None,
       wk_phase = WalkDone (Inl NoUpstream), wk_now = t, wk_log = []\<rparr>"

text \<open>The pause is over; or the call returned.\<close>

datatype walk_event = Woke duration | Returned sent duration

fun walk_step :: "serde \<Rightarrow> core \<Rightarrow> walk_event \<Rightarrow> walker \<Rightarrow> walker option" where
  "walk_step sj c (Woke t) s =
     (case wk_phase s of
        Pausing u began \<Rightarrow>
          if began + retry_after c \<le> t then Some (walk_call u (s\<lparr>wk_now := t\<rparr>)) else None
      | _ \<Rightarrow> None)"
| "walk_step sj c (Returned sent t) s =
     (case wk_phase s of
        Calling u a \<Rightarrow>
          if wk_now s \<le> t then
            let (r, calls) = try_finish sj u sent t a;
                s1 = s\<lparr>wk_now := t, wk_log := wk_log s @ calls\<rparr>
            in Some
              (case r of
                 Inr reply \<Rightarrow> s1\<lparr>wk_phase := WalkDone (Inr \<lparr>ans_reply = reply, ans_upstream = uid u\<rparr>)\<rparr>
               | Inl e \<Rightarrow>
                   if is_retryable e then walk_head c (s1\<lparr>wk_failure := Some e\<rparr>)
                   else s1\<lparr>wk_failure := Some e, wk_phase := WalkDone (Inl (Call e))\<rparr>)
          else None
      | _ \<Rightarrow> None)"

text \<open>What dropping the walk does.\<close>

definition walk_drop :: "duration \<Rightarrow> walker \<Rightarrow> obs_event list" where
  "walk_drop t s = (case wk_phase s of Calling u a \<Rightarrow> attempt_drop t a | _ \<Rightarrow> [])"

definition walk_finished :: "walker \<Rightarrow> finished option" where
  "walk_finished s =
     (case wk_phase s of
        WalkDone r \<Rightarrow> Some \<lparr>fin_result = r, fin_tried = wk_tried s, fin_hedge = None\<rparr>
      | _ \<Rightarrow> None)"

inductive walk_reach :: "serde \<Rightarrow> core \<Rightarrow> upstream list \<Rightarrow> walker \<Rightarrow> bool" for sj c chain where
  walk_first: "walk_reach sj c chain (walk_begin c chain t)"
| walk_next: "walk_reach sj c chain s \<Longrightarrow> walk_step sj c ev s = Some s' \<Longrightarrow> walk_reach sj c chain s'"

fun walk_run :: "serde \<Rightarrow> core \<Rightarrow> walk_event list \<Rightarrow> walker \<Rightarrow> walker option" where
  "walk_run sj c [] s = Some s"
| "walk_run sj c (ev # evs) s = Option.bind (walk_step sj c ev s) (walk_run sj c evs)"

lemma walk_run_append:
  "walk_run sj c (xs @ ys) s = Option.bind (walk_run sj c xs s) (walk_run sj c ys)"
proof (induction xs arbitrary: s)
  case (Cons x xs)
  then show ?case by (cases "walk_step sj c x s") simp_all
qed simp

lemma walk_run_reach: "walk_run sj c evs s = Some s' \<Longrightarrow> walk_reach sj c chain s \<Longrightarrow> walk_reach sj c chain s'"
  by (induction evs arbitrary: s) (auto simp: bind_eq_Some_conv intro: walk_next)

subsection \<open>The states of a walk\<close>

text \<open>
  The upstreams tried are a prefix of the chain, and each but the one in the call has been recorded,
  once and in order, with a failover between two of them.
\<close>

definition walk_ok :: "core \<Rightarrow> upstream list \<Rightarrow> walker \<Rightarrow> bool" where
  "walk_ok c chain s \<longleftrightarrow>
     (let k = length (wk_tried s); n = min (length chain) (max_attempt c)
      in k \<le> n \<and> wk_tried s = map uid (take k chain) \<and> filter is_hedge (wk_log s) = [] \<and>
         (case wk_phase s of
            Pausing u began \<Rightarrow>
              0 < k \<and> k < n \<and> u = chain ! k \<and> wk_rest s = drop (k + 1) chain \<and> wk_failure s \<noteq> None \<and>
              attempt_uids (wk_log s) = wk_tried s \<and> switches (wk_log s) = k \<and>
              list_all retryable_record (wk_log s)
          | Calling u a \<Rightarrow>
              0 < k \<and> u = chain ! (k - 1) \<and> wk_rest s = drop k chain \<and>
              armed a \<and> att_upstream a = uid u \<and> att_started a \<le> wk_now s \<and>
              attempt_uids (wk_log s) @ [uid u] = wk_tried s \<and> switches (wk_log s) = k - 1 \<and>
              list_all retryable_record (wk_log s)
          | WalkDone r \<Rightarrow>
              attempt_uids (wk_log s) = wk_tried s \<and> switches (wk_log s) = k - 1 \<and>
              (case r of
                 Inr a \<Rightarrow> 0 < k \<and> ans_upstream a = last (wk_tried s)
               | Inl NoUpstream \<Rightarrow> n = 0
               | Inl (Call e) \<Rightarrow> 0 < k \<and> (is_retryable e \<longrightarrow> k = n))))"

lemma take_snoc_uid: "k < length chain \<Longrightarrow> map uid (take k chain) @ [uid (chain ! k)] = map uid (take (Suc k) chain)"
  by (simp add: take_Suc_conv_app_nth)

text \<open>The head of the loop, from a state in which everything tried has been recorded.\<close>

lemma walk_head_ok:
  assumes k: "k = length (wk_tried s)" "k \<le> min (length chain) (max_attempt c)"
    and s: "wk_tried s = map uid (take k chain)" "wk_rest s = drop k chain"
      "attempt_uids (wk_log s) = wk_tried s" "switches (wk_log s) = k - 1" "filter is_hedge (wk_log s) = []"
      "list_all retryable_record (wk_log s)"
    and f: "wk_failure s = None \<longleftrightarrow> k = 0" "\<And>e. wk_failure s = Some e \<Longrightarrow> is_retryable e"
  shows "walk_ok c chain (walk_head c s)"
proof (cases "k < min (length chain) (max_attempt c)")
  case False
  with k(2) have n: "min (length chain) (max_attempt c) = k" by linarith
  have kl: "k \<le> length chain" using k(2) by simp
  have "walk_head c s =
      s\<lparr>wk_phase := WalkDone (Inl (case wk_failure s of None \<Rightarrow> NoUpstream | Some e \<Rightarrow> Call e))\<rparr>"
    using n s(2) k(1) by (auto simp: walk_head_def min_def split: list.split if_splits)
  with n s f kl show ?thesis
    unfolding walk_ok_def Let_def by (cases "wk_failure s") (simp_all add: min_absorb2)
next
  case True
  then have rest: "wk_rest s = chain ! k # drop (Suc k) chain" using s(2) by (simp add: Cons_nth_drop_Suc)
  have kl: "k < length chain" "k < max_attempt c" using True by simp_all
  show ?thesis
  proof (cases "k = 0")
    case True
    then have "wk_tried s = []" using s(1) by simp
    with True rest s(3-6) kl show ?thesis
      unfolding walk_ok_def Let_def by (simp add: walk_head_def walk_call_def attempt_start_def take_Suc_conv_app_nth
          Suc_le_eq)
  next
    case False
    then have ne: "wk_tried s \<noteq> []" using s(1) kl by auto
    then have "walk_head c s = s\<lparr>wk_rest := drop (Suc k) chain, wk_phase := Pausing (chain ! k) (wk_now s),
        wk_log := wk_log s @ [Failover (last (wk_tried s))]\<rparr>"
      using rest kl k(1) by (simp add: walk_head_def)
    with False s(3-6) f(1) kl s(1) show ?thesis
      unfolding walk_ok_def Let_def by (simp add: min_absorb2)
  qed
qed

lemma walk_begin_ok: "walk_ok c chain (walk_begin c chain t)"
  unfolding walk_begin_def by (rule walk_head_ok [where k = 0]) simp_all

lemma try_finish_record:
  assumes "try_finish sj u sent t a = (r, calls)"
  obtains rec where "calls = [Record (att_upstream a) rec]"
    "retryable_outcome (rec_outcome rec) \<longleftrightarrow> (\<exists>e. r = Inl e \<and> is_retryable e)"
  using assms
  by (auto simp: try_finish_def Let_def attempt_finish_def attempt_drop_def retryable_outcome_def
      call_record_of_def split: sum.splits)

lemma walk_step_ok:
  assumes ok: "walk_ok c chain s" and step: "walk_step sj c ev s = Some s'"
  shows "walk_ok c chain s'"
proof (cases ev)
  case (Woke t)
  with step obtain u b where ph: "wk_phase s = Pausing u b" and b: "b + retry_after c \<le> t"
    and s': "s' = walk_call u (s\<lparr>wk_now := t\<rparr>)"
    by (auto split: walk_phase.splits if_splits)
  with ok show ?thesis
    by (auto simp: walk_ok_def Let_def walk_call_def attempt_start_def take_Suc_conv_app_nth)
next
  case (Returned sent t)
  with step obtain u a where ph: "wk_phase s = Calling u a" and t: "wk_now s \<le> t"
    by (auto split: walk_phase.splits if_splits)
  obtain r calls where f: "try_finish sj u sent t a = (r, calls)" by fastforce
  from f obtain rec where calls: "calls = [Record (att_upstream a) rec]"
    and rr: "retryable_outcome (rec_outcome rec) \<longleftrightarrow> (\<exists>e. r = Inl e \<and> is_retryable e)"
    by (rule try_finish_record)
  let ?k = "length (wk_tried s)"
  let ?s = "s\<lparr>wk_now := t, wk_log := wk_log s @ calls\<rparr>"
  have st: "0 < ?k" "?k \<le> min (length chain) (max_attempt c)" "u = chain ! (?k - 1)"
    "wk_tried s = map uid (take ?k chain)" "wk_rest s = drop ?k chain" "att_upstream a = uid u"
    "attempt_uids (wk_log s) @ [uid u] = wk_tried s" "switches (wk_log s) = ?k - 1"
    "filter is_hedge (wk_log s) = []" "list_all retryable_record (wk_log s)"
    using ok ph by (auto simp: walk_ok_def Let_def)
  have lst: "last (wk_tried s) = uid u" using st(7) by (metis last_snoc)
  have at: "attempt_uids (wk_log ?s) = wk_tried s" "switches (wk_log ?s) = ?k - 1" "filter is_hedge (wk_log ?s) = []"
    using st by (simp_all add: calls)
  show ?thesis
  proof (cases r)
    case (Inr reply)
    with step Returned ph t f have "s' = ?s\<lparr>wk_phase := WalkDone (Inr \<lparr>ans_reply = reply, ans_upstream = uid u\<rparr>)\<rparr>"
      by simp
    with st(1,2) st(4) at lst show ?thesis unfolding walk_ok_def by (simp add: Let_def)
  next
    case (Inl e)
    show ?thesis
    proof (cases "is_retryable e")
      case False
      with Inl step Returned ph t f have "s' = ?s\<lparr>wk_failure := Some e, wk_phase := WalkDone (Inl (Call e))\<rparr>"
        by simp
      with False st(1,2) st(4) at show ?thesis unfolding walk_ok_def by (simp add: Let_def)
    next
      case True
      with Inl step Returned ph t f have s': "s' = walk_head c (?s\<lparr>wk_failure := Some e\<rparr>)" by simp
      have "list_all retryable_record (wk_log ?s)" using st(10) rr Inl True by (simp add: calls)
      with st at True show ?thesis unfolding s' by (intro walk_head_ok [where k = ?k]) simp_all
    qed
  qed
qed

lemma walk_reach_ok: "walk_reach sj c chain s \<Longrightarrow> walk_ok c chain s"
  by (induction rule: walk_reach.induct) (auto intro: walk_begin_ok walk_step_ok)

subsection \<open>The walk of the theory Core is one of its runs\<close>

lemma walk_from_run:
  assumes "walk_from sj net c body (wk_rest s) (wk_tried s) (wk_failure s) \<lparr>now = wk_now s, log = l @ wk_log s\<rparr> =
    (fin, w')"
  shows "\<exists>evs s'. walk_run sj c evs (walk_head c s) = Some s' \<and> walk_finished s' = Some fin \<and>
    w' = \<lparr>now = wk_now s', log = l @ wk_log s'\<rparr>"
  using assms
proof (induction "wk_rest s" arbitrary: s)
  case Nil
  then show ?case by (intro exI [of _ "[]"]) (auto simp: walk_head_def walk_finished_def)
next
  case (Cons u us)
  note rest = Cons.hyps(2) [symmetric]
  show ?case
  proof (cases "max_attempt c \<le> length (wk_tried s)")
    case True
    with Cons.prems rest show ?thesis
      by (intro exI [of _ "[]"]) (auto simp: walk_head_def walk_finished_def)
  next
    case False
    define t0 where "t0 = (if wk_tried s = [] then wk_now s else wk_now s + retry_after c)"
    define lg where "lg = wk_log s @ (if wk_tried s = [] then [] else [Failover (last (wk_tried s))])"
    define pre where "pre = (if wk_tried s = [] then [] else [Woke t0])"
    obtain sent el where net: "net u body t0 = (sent, el)" by fastforce
    define a where "a = attempt_start (uid u) t0"
    obtain r calls where tf: "try_finish sj u sent (t0 + el) a = (r, calls)" by fastforce
    define mid where "mid = s\<lparr>wk_rest := us, wk_tried := wk_tried s @ [uid u], wk_phase := Calling u a,
      wk_now := t0, wk_log := lg\<rparr>"
    define s1 where "s1 = mid\<lparr>wk_now := t0 + el, wk_log := lg @ calls\<rparr>"
    have mid: "walk_run sj c pre (walk_head c s) = Some mid"
      using False rest
      by (simp add: pre_def walk_head_def walk_call_def mid_def a_def t0_def lg_def)
    have once: "try_once sj net u body (if wk_tried s = [] then \<lparr>now = wk_now s, log = l @ wk_log s\<rparr>
        else sleep (retry_after c) (emit (Failover (last (wk_tried s))) \<lparr>now = wk_now s, log = l @ wk_log s\<rparr>)) =
        (r, \<lparr>now = t0 + el, log = l @ lg @ calls\<rparr>)"
      using net tf by (simp add: try_once_def Let_def t0_def a_def lg_def sleep_def emit_def split: if_splits)
    have step: "walk_step sj c (Returned sent (t0 + el)) mid = Some
        (case r of
           Inr reply \<Rightarrow> s1\<lparr>wk_phase := WalkDone (Inr \<lparr>ans_reply = reply, ans_upstream = uid u\<rparr>)\<rparr>
         | Inl e \<Rightarrow> if is_retryable e then walk_head c (s1\<lparr>wk_failure := Some e\<rparr>)
             else s1\<lparr>wk_failure := Some e, wk_phase := WalkDone (Inl (Call e))\<rparr>)"
    proof -
      have "wk_phase mid = Calling u a" "wk_now mid = t0" "wk_log mid = lg" by (simp_all add: mid_def)
      then show ?thesis unfolding s1_def by (simp add: tf Let_def)
    qed
    have runs: "walk_run sj c (pre @ Returned sent (t0 + el) # evs) (walk_head c s) =
        Option.bind (walk_step sj c (Returned sent (t0 + el)) mid) (walk_run sj c evs)" for evs
      by (simp add: walk_run_append mid del: walk_step.simps)
    show ?thesis
    proof (cases "\<exists>e. r = Inl e \<and> is_retryable e")
      case True
      then obtain e where e: "r = Inl e" "is_retryable e" by blast
      let ?s = "s1\<lparr>wk_failure := Some e\<rparr>"
      have "walk_from sj net c body (wk_rest ?s) (wk_tried ?s) (wk_failure ?s)
          \<lparr>now = wk_now ?s, log = l @ wk_log ?s\<rparr> = (fin, w')"
        using Cons.prems rest False once e by (simp add: Let_def s1_def mid_def)
      moreover have "us = wk_rest ?s" by (simp add: s1_def mid_def)
      ultimately obtain evs s' where "walk_run sj c evs (walk_head c ?s) = Some s'"
        "walk_finished s' = Some fin" "w' = \<lparr>now = wk_now s', log = l @ wk_log s'\<rparr>"
        using Cons.hyps(1) [of ?s] by blast
      with e show ?thesis
        by (intro exI [of _ "pre @ Returned sent (t0 + el) # evs"] exI [of _ s'])
          (simp add: runs step del: walk_step.simps)
    next
      case False
      have s1: "wk_tried s1 = wk_tried s @ [uid u]" "wk_now s1 = t0 + el" "wk_log s1 = lg @ calls"
        by (simp_all add: s1_def mid_def)
      with Cons.prems rest \<open>\<not> max_attempt c \<le> _\<close> once False show ?thesis
        by (intro exI [of _ "pre @ [Returned sent (t0 + el)]"])
          (auto simp: runs step Let_def walk_finished_def split: sum.splits simp del: walk_step.simps)
    qed
  qed
qed

lemma walk_is_run:
  assumes "walk sj net c chain body w = (fin, w')"
  shows "\<exists>evs s. walk_run sj c evs (walk_begin c chain (now w)) = Some s \<and> walk_finished s = Some fin \<and>
    now w' = wk_now s \<and> log w' = log w @ wk_log s"
proof -
  let ?s = "\<lparr>wk_rest = chain, wk_tried = [], wk_failure = None,
       wk_phase = WalkDone (Inl NoUpstream), wk_now = now w, wk_log = []\<rparr>"
  have "walk_from sj net c body (wk_rest ?s) (wk_tried ?s) (wk_failure ?s)
      \<lparr>now = wk_now ?s, log = log w @ wk_log ?s\<rparr> = (fin, w')"
    using assms by (cases w) (simp add: walk_def)
  from walk_from_run [OF this] obtain evs s where "walk_run sj c evs (walk_head c ?s) = Some s"
    "walk_finished s = Some fin" "w' = \<lparr>now = wk_now s, log = log w @ wk_log s\<rparr>" by blast
  then show ?thesis by (intro exI [of _ evs] exI [of _ s]) (simp add: walk_begin_def)
qed

subsection \<open>The single send\<close>

datatype send_phase = SendCalling upstream attempt | SendDone finished

record sender =
  sd_phase :: send_phase
  sd_now :: duration
  sd_log :: "obs_event list"

definition send_begin :: "upstream list \<Rightarrow> duration \<Rightarrow> sender" where
  "send_begin chain t =
     \<lparr>sd_phase =
        (case chain of
           [] \<Rightarrow> SendDone \<lparr>fin_result = Inl NoUpstream, fin_tried = [], fin_hedge = Some \<lparr>started = 0, won = 0\<rparr>\<rparr>
         | u # _ \<Rightarrow> SendCalling u (attempt_start (uid u) t)),
      sd_now = t, sd_log = []\<rparr>"

definition send_step :: "serde \<Rightarrow> sent \<Rightarrow> duration \<Rightarrow> sender \<Rightarrow> sender option" where
  "send_step sj sent t s =
     (case sd_phase s of
        SendCalling u a \<Rightarrow>
          if sd_now s \<le> t then
            let (r, calls) = try_finish sj u sent t a
            in Some
              \<lparr>sd_phase = SendDone
                 \<lparr>fin_result =
                    (case r of
                       Inr reply \<Rightarrow> Inr \<lparr>ans_reply = reply, ans_upstream = uid u\<rparr>
                     | Inl e \<Rightarrow> Inl (Call e)),
                  fin_tried = [uid u], fin_hedge = Some \<lparr>started = 0, won = 0\<rparr>\<rparr>,
               sd_now = t, sd_log = sd_log s @ calls\<rparr>
          else None
      | SendDone _ \<Rightarrow> None)"

definition send_drop :: "duration \<Rightarrow> sender \<Rightarrow> obs_event list" where
  "send_drop t s = (case sd_phase s of SendCalling u a \<Rightarrow> attempt_drop t a | SendDone _ \<Rightarrow> [])"

definition send_ok :: "upstream list \<Rightarrow> sender \<Rightarrow> bool" where
  "send_ok chain s \<longleftrightarrow>
     (case sd_phase s of
        SendCalling u a \<Rightarrow> chain \<noteq> [] \<and> u = hd chain \<and> armed a \<and> att_upstream a = uid u \<and> sd_log s = []
      | SendDone fin \<Rightarrow>
          fin_tried fin = map uid (take 1 chain) \<and> attempt_uids (sd_log s) = fin_tried fin \<and>
          switches (sd_log s) = 0 \<and> filter is_hedge (sd_log s) = [] \<and>
          (\<forall>a. fin_result fin = Inr a \<longrightarrow> chain \<noteq> [] \<and> ans_upstream a = uid (hd chain)))"

lemma send_begin_ok: "send_ok chain (send_begin chain t)"
  by (auto simp: send_ok_def send_begin_def attempt_start_def split: list.split)

lemma send_step_ok:
  assumes "send_ok chain s" "send_step sj sent t s = Some s'"
  shows "send_ok chain s'"
proof -
  from assms(2) obtain u a where ph: "sd_phase s = SendCalling u a"
    by (auto simp: send_step_def split: send_phase.splits)
  obtain r calls where f: "try_finish sj u sent t a = (r, calls)" by fastforce
  then obtain rec where "calls = [Record (att_upstream a) rec]" by (rule try_finish_record)
  with assms ph f show ?thesis
    by (cases chain) (auto simp: send_ok_def send_step_def Let_def split: if_splits sum.splits)
qed

lemma send_once_run:
  assumes "send_once sj net chain body w = (fin, w')"
  shows "(chain = [] \<and> sd_phase (send_begin chain (now w)) = SendDone fin \<and> w' = w) \<or>
    (\<exists>sent s. send_step sj sent (now w') (send_begin chain (now w)) = Some s \<and> sd_phase s = SendDone fin \<and>
       now w' = sd_now s \<and> log w' = log w @ sd_log s)"
proof (cases chain)
  case Nil
  with assms show ?thesis by (auto simp: send_once_def send_begin_def)
next
  case (Cons u us)
  obtain sent el where net: "net u body (now w) = (sent, el)" by fastforce
  obtain r calls where f: "try_finish sj u sent (now w + el) (attempt_start (uid u) (now w)) = (r, calls)"
    by fastforce
  with assms Cons net have "now w' = now w + el" "log w' = log w @ calls"
    by (auto simp: send_once_def try_once_def Let_def)
  with assms Cons net f show ?thesis
    by (intro disjI2 exI [of _ sent])
      (auto simp: send_once_def try_once_def Let_def send_step_def send_begin_def)
qed

end
