(* ===== verification/Singleflight.thy ===== *)
theory Singleflight
  imports Prelude
begin

text \<open>
  \<open>src/proxy/singleflight/mod.rs\<close> and \<open>evict.rs\<close>: concurrent requests with one key share a flight.
  The mutex makes every access of the map atomic, so an execution is a sequence of the steps below,
  each one critical section: a request joins, a participant drops its handle of a flight, a flight
  completes, and the \<open>Evict\<close> guard of an abandoned flight takes the lock. A flight is a
  \<open>futures_util\<close> \<open>Shared\<close> future: a reference-counted cell whose weak handle upgrades as long as a
  strong one exists. Its cell is here an element of the list \<open>flights\<close>, its handle the index.
\<close>

type_synonym dedup_id = "128 word"
type_synonym request_uuid = "128 word"

text \<open>
  A flight runs until it has an output. A running flight without holders is dead: its future is
  being dropped, but the guard inside has not taken the lock yet; \<open>Freed\<close> is after that.
\<close>

datatype 'a phase = Running | Finished 'a | Freed

record 'a flight =
  fl_key :: dedup_id
  fl_id :: u64
  fl_leader :: request_uuid
  fl_holders :: nat
  fl_phase :: "'a phase"

record entry =
  entry_id :: u64
  entry_leader :: request_uuid
  entry_flight :: nat

record 'a singleflight =
  entries :: "(dedup_id \<times> entry) list"
  flight_ids :: u64
  flights :: "'a flight list"

datatype role = Leader | Follower (leader: request_uuid)

definition singleflight_default :: "'a singleflight" where
  "singleflight_default = \<lparr>entries = [], flight_ids = 0, flights = []\<rparr>"

subsection \<open>Joining\<close>

definition next_id :: "'a singleflight \<Rightarrow> u64 \<times> 'a singleflight" where
  "next_id sf = (flight_ids sf, sf\<lparr>flight_ids := flight_ids sf + 1\<rparr>)"

definition upgrade :: "'a singleflight \<Rightarrow> nat \<Rightarrow> nat option" where
  "upgrade sf h = (if 0 < fl_holders (flights sf ! h) then Some h else None)"

definition update_flight :: "nat \<Rightarrow> ('a flight \<Rightarrow> 'a flight) \<Rightarrow> 'a singleflight \<Rightarrow> 'a singleflight" where
  "update_flight h f sf = sf\<lparr>flights := (flights sf)[h := f (flights sf ! h)]\<rparr>"

definition join :: "dedup_id \<Rightarrow> request_uuid \<Rightarrow> 'a singleflight \<Rightarrow> (nat \<times> role) \<times> 'a singleflight" where
  "join key me sf =
     (case Option.bind (map_of (entries sf) key)
             (\<lambda>e. map_option (\<lambda>h. (h, entry_leader e)) (upgrade sf (entry_flight e))) of
        Some (h, ldr) \<Rightarrow>
          ((h, Follower ldr), update_flight h (\<lambda>f. f\<lparr>fl_holders := fl_holders f + 1\<rparr>) sf)
      | None \<Rightarrow>
          let (i, sf1) = next_id sf;
              h = length (flights sf1);
              flight = \<lparr>fl_key = key, fl_id = i, fl_leader = me, fl_holders = 1, fl_phase = Running\<rparr>;
              e = \<lparr>entry_id = i, entry_leader = me, entry_flight = h\<rparr>
          in ((h, Leader),
              sf1\<lparr>flights := flights sf1 @ [flight], entries := AList.update key e (entries sf1)\<rparr>))"

subsection \<open>Leaving and evicting\<close>

text \<open>\<open>Evict::drop\<close>: the entry is removed only if it is still the guard's own.\<close>

definition evict_drop :: "dedup_id \<Rightarrow> u64 \<Rightarrow> 'a singleflight \<Rightarrow> 'a singleflight" where
  "evict_drop key i sf =
     (case map_of (entries sf) key of
        Some e \<Rightarrow> if entry_id e = i then sf\<lparr>entries := AList.delete key (entries sf)\<rparr> else sf
      | None \<Rightarrow> sf)"

text \<open>
  The future's own body: when the work is done the guard is dropped with the locals, then the output
  is there for every holder. A participant that goes away drops its handle; the last one to do so
  before the end drops the future, whose guard then takes the lock in a step of its own.
\<close>

datatype 'a sf_event =
  Join dedup_id request_uuid
| Complete nat 'a
| HangUp nat
| Evicted nat

fun sf_step :: "'a sf_event \<Rightarrow> 'a singleflight \<Rightarrow> 'a singleflight option" where
  "sf_step (Join key me) sf = Some (snd (join key me sf))"
| "sf_step (Complete h a) sf =
     (if h < length (flights sf) \<and> fl_phase (flights sf ! h) = Running \<and> 0 < fl_holders (flights sf ! h)
      then Some (update_flight h (\<lambda>f. f\<lparr>fl_phase := Finished a\<rparr>)
             (evict_drop (fl_key (flights sf ! h)) (fl_id (flights sf ! h)) sf))
      else None)"
| "sf_step (HangUp h) sf =
     (if h < length (flights sf) \<and> 0 < fl_holders (flights sf ! h)
      then Some (update_flight h (\<lambda>f. f\<lparr>fl_holders := fl_holders f - 1\<rparr>) sf)
      else None)"
| "sf_step (Evicted h) sf =
     (if h < length (flights sf) \<and> fl_phase (flights sf ! h) = Running \<and> fl_holders (flights sf ! h) = 0
      then Some (update_flight h (\<lambda>f. f\<lparr>fl_phase := Freed\<rparr>)
             (evict_drop (fl_key (flights sf ! h)) (fl_id (flights sf ! h)) sf))
      else None)"

inductive sf_reach :: "'a singleflight \<Rightarrow> bool" where
  sf_begin: "sf_reach singleflight_default"
| sf_next: "sf_reach sf \<Longrightarrow> sf_step ev sf = Some sf' \<Longrightarrow> sf_reach sf'"

subsection \<open>The invariant\<close>

text \<open>A flight that a new request with its key should join.\<close>

definition live :: "'a flight \<Rightarrow> bool" where
  "live f \<longleftrightarrow> fl_phase f = Running \<and> 0 < fl_holders f"

definition points_to :: "'a singleflight \<Rightarrow> dedup_id \<Rightarrow> entry \<Rightarrow> bool" where
  "points_to sf k e \<longleftrightarrow>
     entry_flight e < length (flights sf) \<and>
     (let f = flights sf ! entry_flight e
      in fl_key f = k \<and> fl_id f = entry_id e \<and> fl_leader f = entry_leader e \<and> fl_phase f = Running)"

definition sf_inv :: "'a singleflight \<Rightarrow> bool" where
  "sf_inv sf \<longleftrightarrow>
     distinct (map fst (entries sf)) \<and>
     flight_ids sf = of_nat (length (flights sf)) \<and>
     (\<forall>h < length (flights sf). fl_id (flights sf ! h) = of_nat h) \<and>
     (\<forall>k e. map_of (entries sf) k = Some e \<longrightarrow> points_to sf k e) \<and>
     (\<forall>h < length (flights sf). live (flights sf ! h) \<longrightarrow>
        (\<exists>e. map_of (entries sf) (fl_key (flights sf ! h)) = Some e \<and> entry_flight e = h))"

lemma flight_id_inj:
  "i < n \<Longrightarrow> j < n \<Longrightarrow> n \<le> 2 ^ 64 \<Longrightarrow> (of_nat i :: u64) = of_nat j \<Longrightarrow> i = j"
  by (metis order_less_le_trans unat_of_nat_u64)

lemma update_flight_simps [simp, frame_simps]:
  "entries (update_flight h f sf) = entries sf" "flight_ids (update_flight h f sf) = flight_ids sf"
  "flights (update_flight h f sf) = (flights sf)[h := f (flights sf ! h)]"
  by (simp_all add: update_flight_def)

lemma evict_drop_frame [simp, frame_simps]:
  "flights (evict_drop k i sf) = flights sf" "flight_ids (evict_drop k i sf) = flight_ids sf"
  by (auto simp: evict_drop_def split: option.split)

lemma distinct_evict: "distinct (map fst (entries sf)) \<Longrightarrow> distinct (map fst (entries (evict_drop k i sf)))"
  by (auto simp: evict_drop_def distinct_delete split: option.split)

text \<open>Within \<open>2 ^ 64\<close> flights an id names one flight, so a guard evicts the entry of its own flight only.\<close>

lemma evict_drop_own:
  assumes inv: "sf_inv sf" and n: "length (flights sf) \<le> 2 ^ 64" and h: "h < length (flights sf)"
  shows "map_of (entries (evict_drop (fl_key (flights sf ! h)) (fl_id (flights sf ! h)) sf)) k =
    (case map_of (entries sf) k of
       Some e \<Rightarrow> if entry_flight e = h then None else Some e
     | None \<Rightarrow> None)"
proof -
  have id: "entry_id e = of_nat (entry_flight e) \<and> entry_flight e < length (flights sf) \<and>
      fl_key (flights sf ! entry_flight e) = k'" if "map_of (entries sf) k' = Some e" for k' e
  proof -
    from inv that have "points_to sf k' e" unfolding sf_inv_def by blast
    with inv show ?thesis by (auto simp: points_to_def sf_inv_def Let_def)
  qed
  have idh: "fl_id (flights sf ! h) = of_nat h" using inv h by (simp add: sf_inv_def)
  have same: "entry_id e = fl_id (flights sf ! h) \<longleftrightarrow> entry_flight e = h"
    if "map_of (entries sf) k' = Some e" for k' e
    using id [OF that] idh flight_id_inj [OF _ h n] by auto
  show ?thesis
  proof (cases "map_of (entries sf) (fl_key (flights sf ! h))")
    case None
    then have "entries (evict_drop (fl_key (flights sf ! h)) (fl_id (flights sf ! h)) sf) = entries sf"
      by (simp add: evict_drop_def)
    with None id show ?thesis by (auto split: option.split)
  next
    case (Some e)
    with same [OF Some] id show ?thesis
      by (auto simp: evict_drop_def AList.delete_conv' split: option.split)
  qed
qed

lemma join_live:
  assumes "map_of (entries sf) k = Some e" "0 < fl_holders (flights sf ! entry_flight e)"
  shows "join k me sf = ((entry_flight e, Follower (entry_leader e)),
    update_flight (entry_flight e) (\<lambda>f. f\<lparr>fl_holders := fl_holders f + 1\<rparr>) sf)"
  using assms by (simp add: join_def upgrade_def)

definition new_flight :: "'a singleflight \<Rightarrow> dedup_id \<Rightarrow> request_uuid \<Rightarrow> 'a flight" where
  "new_flight sf k me =
     \<lparr>fl_key = k, fl_id = flight_ids sf, fl_leader = me, fl_holders = 1, fl_phase = Running\<rparr>"

lemma join_new:
  assumes "\<And>e. map_of (entries sf) k = Some e \<Longrightarrow> fl_holders (flights sf ! entry_flight e) = 0"
  shows "join k me sf = ((length (flights sf), Leader),
    sf\<lparr>flight_ids := flight_ids sf + 1, flights := flights sf @ [new_flight sf k me],
       entries := AList.update k \<lparr>entry_id = flight_ids sf, entry_leader = me,
         entry_flight = length (flights sf)\<rparr> (entries sf)\<rparr>)"
proof (cases "map_of (entries sf) k")
  case (Some e)
  with assms show ?thesis by (simp add: join_def upgrade_def next_id_def Let_def new_flight_def)
qed (simp add: join_def next_id_def Let_def new_flight_def)

lemma sf_inv_entry:
  "sf_inv sf \<Longrightarrow> map_of (entries sf) k = Some e \<Longrightarrow> points_to sf k e"
  unfolding sf_inv_def by blast

lemma sf_inv_live:
  "sf_inv sf \<Longrightarrow> h < length (flights sf) \<Longrightarrow> live (flights sf ! h) \<Longrightarrow>
   \<exists>e. map_of (entries sf) (fl_key (flights sf ! h)) = Some e \<and> entry_flight e = h"
  unfolding sf_inv_def by blast

text \<open>Changing the holders of a flight, none becoming live that was not.\<close>

lemma holders_inv:
  assumes inv: "sf_inv sf" and h: "h < length (flights sf)"
    and keep: "live ((flights sf ! h)\<lparr>fl_holders := n\<rparr>) \<Longrightarrow> live (flights sf ! h)"
  shows "sf_inv (update_flight h (\<lambda>f. f\<lparr>fl_holders := n\<rparr>) sf)"
  unfolding sf_inv_def
proof (intro conjI allI impI)
  fix k e
  assume "map_of (entries (update_flight h (\<lambda>f. f\<lparr>fl_holders := n\<rparr>) sf)) k = Some e"
  with sf_inv_entry [OF inv, of k e] h
  show "points_to (update_flight h (\<lambda>f. f\<lparr>fl_holders := n\<rparr>) sf) k e"
    by (auto simp: points_to_def Let_def nth_list_update)
next
  fix g
  assume g: "g < length (flights (update_flight h (\<lambda>f. f\<lparr>fl_holders := n\<rparr>) sf))"
    and l: "live (flights (update_flight h (\<lambda>f. f\<lparr>fl_holders := n\<rparr>) sf) ! g)"
  then have "live (flights sf ! g)" using keep h by (auto simp: nth_list_update split: if_splits)
  with sf_inv_live [OF inv, of g] g
  show "\<exists>e. map_of (entries (update_flight h (\<lambda>f. f\<lparr>fl_holders := n\<rparr>) sf))
      (fl_key (flights (update_flight h (\<lambda>f. f\<lparr>fl_holders := n\<rparr>) sf) ! g)) = Some e \<and> entry_flight e = g"
    using h by (auto simp: nth_list_update)
qed (use inv h in \<open>auto simp: sf_inv_def nth_list_update\<close>)

lemma new_inv:
  assumes inv: "sf_inv sf"
    and free: "\<And>e. map_of (entries sf) k = Some e \<Longrightarrow> fl_holders (flights sf ! entry_flight e) = 0"
  shows "sf_inv (snd (join k me sf))"
proof -
  let ?e = "\<lparr>entry_id = flight_ids sf, entry_leader = me, entry_flight = length (flights sf)\<rparr>"
  let ?sf = "sf\<lparr>flight_ids := flight_ids sf + 1, flights := flights sf @ [new_flight sf k me],
      entries := AList.update k ?e (entries sf)\<rparr>"
  have "sf_inv ?sf"
    unfolding sf_inv_def
  proof (intro conjI allI impI)
    fix k' e
    assume e: "map_of (entries ?sf) k' = Some e"
    show "points_to ?sf k' e"
    proof (cases "k' = k")
      case True
      with e have "e = ?e" by (simp add: update_conv')
      with True show ?thesis by (simp add: points_to_def new_flight_def)
    next
      case False
      with e have "map_of (entries sf) k' = Some e" by (simp add: update_conv')
      from sf_inv_entry [OF inv this] show ?thesis
        by (auto simp: points_to_def Let_def nth_append)
    qed
  next
    fix g
    assume g: "g < length (flights ?sf)" and l: "live (flights ?sf ! g)"
    show "\<exists>e. map_of (entries ?sf) (fl_key (flights ?sf ! g)) = Some e \<and> entry_flight e = g"
    proof (cases "g = length (flights sf)")
      case True
      then show ?thesis by (simp add: update_conv' new_flight_def)
    next
      case False
      with g l have g': "g < length (flights sf)" and l': "live (flights sf ! g)"
        by (simp_all add: nth_append split: if_splits)
      from sf_inv_live [OF inv g' l'] obtain e
        where e: "map_of (entries sf) (fl_key (flights sf ! g)) = Some e" "entry_flight e = g" by blast
      have "fl_key (flights sf ! g) \<noteq> k" using free [of e] e l' by (auto simp: live_def)
      with e g' show ?thesis by (simp add: update_conv' nth_append)
    qed
  next
    show "distinct (map fst (entries ?sf))" using inv by (simp add: sf_inv_def distinct_update)
    show "flight_ids ?sf = of_nat (length (flights ?sf))" using inv by (simp add: sf_inv_def)
    fix g
    assume "g < length (flights ?sf)"
    then show "fl_id (flights ?sf ! g) = of_nat g"
      using inv by (cases "g = length (flights sf)") (auto simp: sf_inv_def nth_append new_flight_def)
  qed
  then show ?thesis by (simp add: join_new [OF free])
qed

lemma join_inv:
  assumes inv: "sf_inv sf"
  shows "sf_inv (snd (join k me sf))"
proof (cases "\<exists>e. map_of (entries sf) k = Some e \<and> 0 < fl_holders (flights sf ! entry_flight e)")
  case True
  then obtain e where e: "map_of (entries sf) k = Some e" "0 < fl_holders (flights sf ! entry_flight e)"
    by blast
  have p: "points_to sf k e" by (rule sf_inv_entry [OF inv e(1)])
  then have "sf_inv (update_flight (entry_flight e)
      (\<lambda>f. f\<lparr>fl_holders := fl_holders (flights sf ! entry_flight e) + 1\<rparr>) sf)"
    using e(2) by (intro holders_inv [OF inv]) (auto simp: points_to_def live_def Let_def)
  then show ?thesis unfolding join_live [OF e] by (simp add: update_flight_def)
next
  case False
  then show ?thesis by (intro new_inv [OF inv]) auto
qed

lemma evict_inv:
  assumes inv: "sf_inv sf" and n: "length (flights sf) \<le> 2 ^ 64" and h: "h < length (flights sf)"
    and p: "p \<noteq> Running"
  shows "sf_inv (update_flight h (\<lambda>f. f\<lparr>fl_phase := p\<rparr>)
    (evict_drop (fl_key (flights sf ! h)) (fl_id (flights sf ! h)) sf))" (is "sf_inv ?sf")
  unfolding sf_inv_def
proof (intro conjI allI impI)
  note own = evict_drop_own [OF inv n h]
  fix k e
  assume "map_of (entries ?sf) k = Some e"
  then have e: "map_of (entries sf) k = Some e" "entry_flight e \<noteq> h"
    by (auto simp: own split: option.splits if_splits)
  from sf_inv_entry [OF inv e(1)] e(2) show "points_to ?sf k e"
    by (simp add: points_to_def Let_def)
next
  note own = evict_drop_own [OF inv n h]
  fix g
  assume g: "g < length (flights ?sf)" and l: "live (flights ?sf ! g)"
  have "g \<noteq> h" using l h p by (auto simp: live_def)
  with g l have "g < length (flights sf)" "live (flights sf ! g)" by simp_all
  from sf_inv_live [OF inv this] \<open>g \<noteq> h\<close>
  show "\<exists>e. map_of (entries ?sf) (fl_key (flights ?sf ! g)) = Some e \<and> entry_flight e = g"
    by (auto simp: own)
qed (use inv h in \<open>auto simp: sf_inv_def nth_list_update distinct_evict\<close>)

lemma sf_step_inv:
  assumes "sf_inv sf" "sf_step ev sf = Some sf'" "length (flights sf) \<le> 2 ^ 64"
  shows "sf_inv sf'"
proof (cases ev)
  case (Join k me)
  with assms show ?thesis by (auto intro: join_inv)
next
  case (Complete h a)
  with assms show ?thesis by (auto intro: evict_inv split: if_splits)
next
  case (HangUp h)
  with assms(2) have h: "h < length (flights sf)" "0 < fl_holders (flights sf ! h)"
    and sf': "sf' = update_flight h (\<lambda>f. f\<lparr>fl_holders := fl_holders f - 1\<rparr>) sf"
    by (auto split: if_splits)
  have "sf_inv (update_flight h (\<lambda>f. f\<lparr>fl_holders := fl_holders (flights sf ! h) - 1\<rparr>) sf)"
    using h by (intro holders_inv [OF assms(1)]) (auto simp: live_def)
  then show ?thesis by (simp add: sf' update_flight_def)
next
  case (Evicted h)
  with assms show ?thesis by (auto intro: evict_inv split: if_splits)
qed

lemma join_flights:
  "(\<exists>h f. flights (snd (join k me sf)) = (flights sf)[h := f]) \<or>
   (\<exists>f. flights (snd (join k me sf)) = flights sf @ [f])"
proof (cases "\<exists>e. map_of (entries sf) k = Some e \<and> 0 < fl_holders (flights sf ! entry_flight e)")
  case True
  then obtain e where "map_of (entries sf) k = Some e" "0 < fl_holders (flights sf ! entry_flight e)"
    by blast
  from join_live [OF this, of me] show ?thesis by auto
next
  case False
  then have "flights (snd (join k me sf)) = flights sf @ [new_flight sf k me]"
    by (subst join_new) auto
  then show ?thesis by blast
qed

lemma flights_grow: "sf_step ev sf = Some sf' \<Longrightarrow> length (flights sf) \<le> length (flights sf')"
proof (cases ev)
  case (Join k me)
  assume "sf_step ev sf = Some sf'"
  with Join have "sf' = snd (join k me sf)" by simp
  with join_flights [of k me sf] show ?thesis by (metis le_add1 length_append length_list_update order_refl)
next
  case (Complete h a)
  assume "sf_step ev sf = Some sf'"
  with Complete have "length (flights sf') = length (flights sf)" by (simp split: if_splits) auto
  then show ?thesis by simp
next
  case (HangUp h)
  assume "sf_step ev sf = Some sf'"
  with HangUp have "length (flights sf') = length (flights sf)" by (simp split: if_splits) auto
  then show ?thesis by simp
next
  case (Evicted h)
  assume "sf_step ev sf = Some sf'"
  with Evicted have "length (flights sf') = length (flights sf)" by (simp split: if_splits) auto
  then show ?thesis by simp
qed

lemma sf_reach_inv: "sf_reach sf \<Longrightarrow> length (flights sf) \<le> 2 ^ 64 \<Longrightarrow> sf_inv sf"
proof (induction rule: sf_reach.induct)
  case sf_begin
  then show ?case by (simp add: sf_inv_def singleflight_default_def)
next
  case (sf_next sf ev sf')
  have n: "length (flights sf) \<le> 2 ^ 64"
    using flights_grow [OF sf_next.hyps(2)] sf_next.prems by (rule order_trans)
  show ?case by (rule sf_step_inv [OF sf_next.IH [OF n] sf_next.hyps(2) n])
qed

subsection \<open>Properties of every interleaving\<close>

text \<open>
  C10: One flight per key: in every state the operations can reach (with at most 2^64 flights made, so
  that ids are not reused), at most one flight of a key is running for somebody, and it is the one
  the map leads to.
\<close>

theorem one_live_flight:
  assumes "sf_reach sf" "length (flights sf) \<le> 2 ^ 64"
    and "g < length (flights sf)" "h < length (flights sf)"
    and "live (flights sf ! g)" "live (flights sf ! h)" "fl_key (flights sf ! g) = fl_key (flights sf ! h)"
  shows "g = h \<and> (\<exists>e. map_of (entries sf) (fl_key (flights sf ! h)) = Some e \<and> entry_flight e = h)"
proof -
  note inv = sf_reach_inv [OF assms(1,2)]
  obtain d where d: "map_of (entries sf) (fl_key (flights sf ! h)) = Some d" "entry_flight d = g"
    using sf_inv_live [OF inv assms(3,5)] unfolding assms(7) by blast
  obtain e where e: "map_of (entries sf) (fl_key (flights sf ! h)) = Some e" "entry_flight e = h"
    using sf_inv_live [OF inv assms(4,6)] by blast
  from d(1) e(1) have "d = e" by (simp only: option.inject)
  with d e show ?thesis by blast
qed

lemma join_facts:
  assumes "sf_reach sf" "length (flights sf) \<le> 2 ^ 64" "join key me sf = ((h, r), sf')"
  shows "(case r of
       Follower ldr \<Rightarrow>
         h < length (flights sf) \<and> live (flights sf ! h) \<and> fl_key (flights sf ! h) = key \<and>
         fl_leader (flights sf ! h) = ldr \<and> entries sf' = entries sf \<and>
         fl_holders (flights sf' ! h) = fl_holders (flights sf ! h) + 1
     | Leader \<Rightarrow>
         h = length (flights sf) \<and>
         (\<forall>g < length (flights sf). live (flights sf ! g) \<longrightarrow> fl_key (flights sf ! g) \<noteq> key) \<and>
         fl_leader (flights sf' ! h) = me) \<and>
    h < length (flights sf') \<and> live (flights sf' ! h) \<and> fl_key (flights sf' ! h) = key \<and>
    (\<exists>e. map_of (entries sf') key = Some e \<and> entry_flight e = h)"
proof -
  note inv = sf_reach_inv [OF assms(1,2)]
  show ?thesis
  proof (cases "\<exists>e. map_of (entries sf) key = Some e \<and> 0 < fl_holders (flights sf ! entry_flight e)")
    case True
    then obtain e where e: "map_of (entries sf) key = Some e" "0 < fl_holders (flights sf ! entry_flight e)"
      by blast
    from sf_inv_entry [OF inv e(1)] e assms(3) join_live [OF e, of me] show ?thesis
      by (auto simp: points_to_def Let_def live_def)
  next
    case False
    then have free: "map_of (entries sf) key = Some e \<Longrightarrow> fl_holders (flights sf ! entry_flight e) = 0" for e
      by auto
    have none: "fl_key (flights sf ! g) \<noteq> key" if "g < length (flights sf)" "live (flights sf ! g)" for g
      using sf_inv_live [OF inv that] False that(2) by (auto simp: live_def)
    have "join key me sf = ((length (flights sf), Leader),
        sf\<lparr>flight_ids := flight_ids sf + 1, flights := flights sf @ [new_flight sf key me],
           entries := AList.update key \<lparr>entry_id = flight_ids sf, entry_leader = me,
             entry_flight = length (flights sf)\<rparr> (entries sf)\<rparr>)"
      by (rule join_new) (rule free)
    with assms(3) none show ?thesis
      by (auto simp: update_conv' new_flight_def live_def)
  qed
qed

text \<open>
  C39: Joining: a request becomes a follower exactly when a flight of its key is running for somebody,
  and then it holds that flight and learns its leader; otherwise it leads a new flight of its key,
  which is running and which the next request with the key will find. Nobody ever joins a finished or
  an abandoned flight.
\<close>

theorem join_role:
  assumes "sf_reach sf" "length (flights sf) \<le> 2 ^ 64" "join key me sf = ((h, r), sf')"
  shows "(case r of
       Follower ldr \<Rightarrow>
         h < length (flights sf) \<and> live (flights sf ! h) \<and> fl_key (flights sf ! h) = key \<and>
         fl_leader (flights sf ! h) = ldr \<and> entries sf' = entries sf \<and>
         fl_holders (flights sf' ! h) = fl_holders (flights sf ! h) + 1
     | Leader \<Rightarrow>
         h = length (flights sf) \<and>
         (\<forall>g < length (flights sf). live (flights sf ! g) \<longrightarrow> fl_key (flights sf ! g) \<noteq> key) \<and>
         fl_leader (flights sf' ! h) = me) \<and>
    h < length (flights sf') \<and> live (flights sf' ! h) \<and> fl_key (flights sf' ! h) = key \<and>
    (\<exists>e. map_of (entries sf') key = Some e \<and> entry_flight e = h)"
  by (rule join_facts [OF assms])

text \<open>
  C21: The map holds running flights only, each under its own key, and does not leak: once every
  flight has finished or been freed it is empty.
\<close>

theorem entries_do_not_leak:
  assumes "sf_reach sf" "length (flights sf) \<le> 2 ^ 64"
  shows "(\<forall>k e. map_of (entries sf) k = Some e \<longrightarrow>
      entry_flight e < length (flights sf) \<and> fl_key (flights sf ! entry_flight e) = k \<and>
      fl_phase (flights sf ! entry_flight e) = Running) \<and>
    ((\<forall>f \<in> set (flights sf). fl_phase f \<noteq> Running) \<longrightarrow> entries sf = [])"
proof -
  note inv = sf_reach_inv [OF assms]
  have a: "entry_flight e < length (flights sf) \<and> fl_key (flights sf ! entry_flight e) = k \<and>
      fl_phase (flights sf ! entry_flight e) = Running" if "map_of (entries sf) k = Some e" for k e
    using sf_inv_entry [OF inv that] by (simp add: points_to_def Let_def)
  have "entries sf = []" if ended: "\<forall>f \<in> set (flights sf). fl_phase f \<noteq> Running"
  proof (rule ccontr)
    assume "entries sf \<noteq> []"
    then obtain k e es where "entries sf = (k, e) # es" by (metis list.exhaust surj_pair)
    then have "map_of (entries sf) k = Some e" by simp
    from a [OF this] ended nth_mem [of "entry_flight e" "flights sf"] show False by blast
  qed
  with a show ?thesis by blast
qed

text \<open>
  C20: A guard evicts its own flight's entry only: when a flight completes, or the guard of an
  abandoned one runs late, the entry of a flight that has replaced it under the same key stays, and
  so does every other; its own is gone.
\<close>

theorem eviction_is_exact:
  assumes "sf_reach sf" "length (flights sf) \<le> 2 ^ 64"
    and "sf_step ev sf = Some sf'" "ev = Complete h a \<or> ev = Evicted h"
  shows "map_of (entries sf') k =
    (case map_of (entries sf) k of
       Some e \<Rightarrow> if entry_flight e = h then None else Some e
     | None \<Rightarrow> None)"
proof -
  note inv = sf_reach_inv [OF assms(1,2)]
  from assms(3,4) have "h < length (flights sf)"
    and "entries sf' = entries (evict_drop (fl_key (flights sf ! h)) (fl_id (flights sf ! h)) sf)"
    by (auto split: if_splits)
  with evict_drop_own [OF inv assms(2)] show ?thesis by simp
qed

subsection \<open>A concrete interleaving\<close>

fun sf_run :: "'a sf_event list \<Rightarrow> 'a singleflight \<Rightarrow> 'a singleflight option" where
  "sf_run [] sf = Some sf"
| "sf_run (ev # evs) sf = (case sf_step ev sf of None \<Rightarrow> None | Some sf' \<Rightarrow> sf_run evs sf')"

lemma sf_run_reach: "sf_run evs sf = Some sf' \<Longrightarrow> sf_reach sf \<Longrightarrow> sf_reach sf'"
  by (induction evs arbitrary: sf) (auto split: option.splits intro: sf_next)

text \<open>A leader leaves, a new leader replaces its flight before the old guard runs, a request follows.\<close>

definition demo_flights :: "nat singleflight" where
  "demo_flights =
     \<lparr>entries = [(5, \<lparr>entry_id = 1, entry_leader = 2, entry_flight = 1\<rparr>)], flight_ids = 2,
      flights = [\<lparr>fl_key = 5, fl_id = 0, fl_leader = 1, fl_holders = 0, fl_phase = Running\<rparr>,
        \<lparr>fl_key = 5, fl_id = 1, fl_leader = 2, fl_holders = 2, fl_phase = Running\<rparr>]\<rparr>"

lemma demo_flights_run:
  "sf_run [Join 5 1, HangUp 0, Join 5 2, Join 5 3] singleflight_default = Some demo_flights"
  by (simp add: singleflight_default_def join_def next_id_def upgrade_def update_flight_def
      demo_flights_def Let_def)

lemma demo_flights_reach: "sf_reach demo_flights"
  by (rule sf_run_reach [OF demo_flights_run sf_begin])

theorem one_live_flight_witness:
  "(1 :: nat) = 1 \<and> (\<exists>e. map_of (entries demo_flights) (fl_key (flights demo_flights ! 1)) = Some e \<and>
     entry_flight e = 1)"
  by (rule one_live_flight [OF demo_flights_reach]) (simp_all add: demo_flights_def live_def)

lemma demo_flights_join:
  "join 5 4 demo_flights = ((1, Follower 2), snd (join 5 4 demo_flights))"
  by (simp add: join_def demo_flights_def upgrade_def)

theorem join_role_witness:
  "live (flights demo_flights ! 1) \<and> fl_leader (flights demo_flights ! 1) = 2"
  using join_role [OF demo_flights_reach _ demo_flights_join]
  by (simp add: demo_flights_def live_def)

theorem entries_do_not_leak_witness:
  "fl_phase (flights demo_flights ! 1) = Running"
  using entries_do_not_leak [OF demo_flights_reach]
  by (simp add: demo_flights_def)

theorem eviction_is_exact_witness:
  "\<exists>sf'. sf_step (Evicted 0) demo_flights = Some sf' \<and> map_of (entries sf') 5 = map_of (entries demo_flights) 5"
proof -
  obtain sf' where step: "sf_step (Evicted 0) demo_flights = Some sf'"
    by (simp add: demo_flights_def)
  have "length (flights demo_flights) \<le> 2 ^ 64" by (simp add: demo_flights_def)
  from eviction_is_exact [OF demo_flights_reach this step, of 0 _ 5] step show ?thesis
    by (simp add: demo_flights_def)
qed

end
