(* ===== verification/Pipeline.thy ===== *)
theory Pipeline
  imports Hedge Singleflight
begin

text \<open>
  The rest of \<open>src/proxy/mod.rs\<close>, with \<open>src/http/rpc.rs\<close> and \<open>src/http/healthz.rs\<close>: the pipeline, the
  choice of dispatch, the reply made from how a request ended, and coalescing. One request's run is a
  function of the schedule of its race; the service, many requests sharing flights, is a state
  machine over the steps of the theory \<open>Singleflight\<close>.
\<close>

subsection \<open>Building\<close>

datatype pipeline_error = ZeroMaxAttempt

record 'd pipeline =
  pl_core :: core
  pl_decider :: 'd
  pl_flights :: "reply singleflight option"

definition pipeline_new ::
  "'d \<Rightarrow> u64 option \<Rightarrow> duration option \<Rightarrow> dispatch option \<Rightarrow> bool option \<Rightarrow>
     (pipeline_error, 'd pipeline) result" where
  "pipeline_new d attempts pause disp dedup =
     (let attempts = (case attempts of Some a \<Rightarrow> a | None \<Rightarrow> DEFAULT_MAX_ATTEMPT);
          pause = (case pause of Some p \<Rightarrow> p | None \<Rightarrow> DEFAULT_RETRY_AFTER);
          disp = (case disp of Some x \<Rightarrow> x | None \<Rightarrow> Sequential);
          dedup = (case dedup of Some x \<Rightarrow> x | None \<Rightarrow> False)
      in if attempts = 0 then Inl ZeroMaxAttempt
         else Inr \<lparr>pl_core = \<lparr>max_attempt = unat attempts, retry_after = pause, core_dispatch = disp\<rparr>,
                   pl_decider = d,
                   pl_flights = (if dedup then Some singleflight_default else None)\<rparr>)"

definition is_ready :: "'d pipeline \<Rightarrow> bool" where
  "is_ready p = decider_ready (pl_decider p)"

definition get_healthz :: "'d pipeline \<Rightarrow> nat \<times> bytes" where
  "get_healthz p = (if is_ready p then (200, ''OK'') else (503, ''NOT READY''))"

definition get_livez :: "nat \<times> bytes" where
  "get_livez = (200, ''OK'')"

subsection \<open>One run\<close>

text \<open>
  \<open>Core::race\<close>: the race driven by a schedule, \<open>None\<close> when the schedule does not bring it to an end.
\<close>

definition core_race ::
  "serde \<Rightarrow> core \<Rightarrow> upstream list \<Rightarrow> race_event list \<Rightarrow> world \<Rightarrow> (finished \<times> world) option" where
  "core_race sj c chain evs w =
     Option.bind (race_run sj chain (max_attempt c) evs (race_start chain (max_attempt c) (now w)))
       (\<lambda>s. map_option
         (\<lambda>r. (race_finished chain r,
              \<lparr>now = race_now s, log = log w @ race_log s @ race_win_log chain r\<rparr>))
         (outcome s))"

fun fin_ok :: "(failure, answer) result \<Rightarrow> bool" where
  "fin_ok (Inr _) = True" | "fin_ok (Inl _) = False"

definition finish :: "serde \<Rightarrow> finished \<Rightarrow> reply" where
  "finish sj fin =
     (case fin_result fin of
        Inr a \<Rightarrow> ans_reply a
      | Inl (Call (RpcError status code retryable body)) \<Rightarrow> \<lparr>reply_status = status, reply_body = body\<rparr>
      | Inl failure \<Rightarrow> reply_rpc_error sj JSONRPC_INTERNAL_ERROR (display_failure failure))"

definition run_request ::
  "serde \<Rightarrow> network \<Rightarrow> core \<Rightarrow> upstream list \<Rightarrow> bytes \<Rightarrow> duration \<Rightarrow> race_event list \<Rightarrow> world \<Rightarrow>
     (reply \<times> world) option" where
  "run_request sj net c chain body received_at evs w =
     (let m = method_label sj body
      in map_option
           (\<lambda>(fin, w'). (finish sj fin,
              emit (Request m (fin_ok (fin_result fin)) (length (fin_tried fin)) (now w' - received_at)) w'))
           (case (core_dispatch c, is_write_method m) of
              (Hedged, False) \<Rightarrow> core_race sj c chain evs w
            | (Hedged, True) \<Rightarrow> Some (send_once sj net chain body w)
            | (Sequential, _) \<Rightarrow> Some (walk sj net c chain body w)))"

text \<open>\<open>Core::start\<close>: the decider is asked for the chain, then the request runs along it.\<close>

definition core_start ::
  "('d \<Rightarrow> nat \<Rightarrow> upstream list \<times> 'd) \<Rightarrow> serde \<Rightarrow> network \<Rightarrow> bytes \<Rightarrow> duration \<Rightarrow> race_event list \<Rightarrow>
     'd pipeline \<Rightarrow> world \<Rightarrow> (reply \<times> 'd pipeline \<times> world) option" where
  "core_start decide sj net body received_at evs p w =
     (let (chain, d) = decide (pl_decider p) (max_attempt (pl_core p))
      in map_option (\<lambda>(r, w'). (r, p\<lparr>pl_decider := d\<rparr>, w'))
           (run_request sj net (pl_core p) chain body received_at evs w))"

subsection \<open>The service\<close>

text \<open>
  A request is running alone, waiting for a flight, answered, or gone (its client hung up and its
  handler was dropped).
\<close>

datatype stage = Alone | Waiting nat role | Replied response | Gone

record request =
  req_body :: bytes
  req_uuid :: request_uuid
  req_stage :: stage

text \<open>The body a flight's closure has captured is \<open>flight_bodies ! h\<close>.\<close>

record service =
  shared :: "reply singleflight option"
  flight_bodies :: "bytes list"
  clients :: "request list"
  service_log :: "obs_event list"

definition BAD_REQUEST :: response where
  "BAD_REQUEST = \<lparr>resp_status = 400, resp_content_type = None, resp_body = []\<rparr>"

text \<open>\<open>coalesce\<close> up to the first \<open>await\<close>: which flight a request waits for, if any.\<close>

definition coalesce_begin ::
  "serde \<Rightarrow> request_uuid \<Rightarrow> bytes \<Rightarrow> reply singleflight \<Rightarrow> (nat \<times> role) option \<times> reply singleflight" where
  "coalesce_begin sj me body sf =
     (case (dedup_key sj body, request_id sj body) of
        (Some key, Some rid) \<Rightarrow> (case join key me sf of (hr, sf') \<Rightarrow> (Some hr, sf'))
      | _ \<Rightarrow> (None, sf))"

text \<open>
  \<open>coalesce\<close> after the flight's reply: what the participant answers, \<open>None\<close> when it must run on its
  own, and the calls on the observer.
\<close>

definition coalesce_end ::
  "serde \<Rightarrow> role \<Rightarrow> bytes \<Rightarrow> reply \<Rightarrow> reply option \<times> obs_event list" where
  "coalesce_end sj r body reply =
     (case r of
        Leader \<Rightarrow> (Some reply, [])
      | Follower ldr \<Rightarrow>
          (case Option.bind (request_id sj body) (readdress sj (reply_body reply)) of
             Some b \<Rightarrow> (Some (reply\<lparr>reply_body := b\<rparr>), [Coalesced])
           | None \<Rightarrow> (None, [])))"

text \<open>\<open>proxy_inner\<close> up to its first \<open>await\<close>, for a new request.\<close>

definition arrive :: "serde \<Rightarrow> request_uuid \<Rightarrow> bytes \<Rightarrow> service \<Rightarrow> service" where
  "arrive sj me body s =
     (let add = (\<lambda>st s. s\<lparr>clients := clients s @
            [\<lparr>req_body = body, req_uuid = me, req_stage = st\<rparr>]\<rparr>)
      in case shape body of
           Batch \<Rightarrow> add (Replied BAD_REQUEST) s
         | Malformed \<Rightarrow> add (Replied BAD_REQUEST) s
         | Single \<Rightarrow>
             (case shared s of
                None \<Rightarrow> add Alone s
              | Some sf \<Rightarrow>
                  (case coalesce_begin sj me body sf of
                     (None, sf') \<Rightarrow> add Alone s
                   | (Some (h, r), sf') \<Rightarrow>
                       add (Waiting h r)
                         (s\<lparr>shared := Some sf',
                            flight_bodies :=
                              (if r = Leader then flight_bodies s @ [body] else flight_bodies s)\<rparr>))))"

definition set_stage :: "nat \<Rightarrow> stage \<Rightarrow> service \<Rightarrow> service" where
  "set_stage i st s = s\<lparr>clients := (clients s)[i := (clients s ! i)\<lparr>req_stage := st\<rparr>]\<rparr>"

definition with_flights :: "reply sf_event \<Rightarrow> service \<Rightarrow> service option" where
  "with_flights ev s =
     (case shared s of
        None \<Rightarrow> None
      | Some sf \<Rightarrow> map_option (\<lambda>sf'. s\<lparr>shared := Some sf'\<rparr>) (sf_step ev sf))"

text \<open>
  A request arrives; a flight's run ends with a reply; a participant takes the reply of its finished
  flight, dropping its handle; a request running alone ends; a client hangs up; a dropped flight's
  guard takes the lock.
\<close>

datatype service_event =
  Arrive request_uuid bytes
| FlightEnds nat reply
| Takes nat
| AloneEnds nat reply
| Leaves nat
| GuardRuns nat

fun service_step :: "serde \<Rightarrow> service_event \<Rightarrow> service \<Rightarrow> service option" where
  "service_step sj (Arrive me body) s = Some (arrive sj me body s)"
| "service_step sj (FlightEnds h reply) s = with_flights (Complete h reply) s"
| "service_step sj (GuardRuns h) s = with_flights (Evicted h) s"
| "service_step sj (AloneEnds i reply) s =
     (if i < length (clients s) \<and> req_stage (clients s ! i) = Alone
      then Some (set_stage i (Replied (reply_into_response reply)) s) else None)"
| "service_step sj (Leaves i) s =
     (if i < length (clients s) then
        (case req_stage (clients s ! i) of
           Alone \<Rightarrow> Some (set_stage i Gone s)
         | Waiting h r \<Rightarrow> map_option (set_stage i Gone) (with_flights (HangUp h) s)
         | _ \<Rightarrow> None)
      else None)"
| "service_step sj (Takes i) s =
     (if i < length (clients s) then
        (case (req_stage (clients s ! i), shared s) of
           (Waiting h r, Some sf) \<Rightarrow>
             (if h < length (flights sf) then
                (case fl_phase (flights sf ! h) of
                   Finished reply \<Rightarrow>
                     (case coalesce_end sj r (req_body (clients s ! i)) reply of
                        (ans, calls) \<Rightarrow>
                          map_option
                            (\<lambda>s'. set_stage i
                               (case ans of Some x \<Rightarrow> Replied (reply_into_response x) | None \<Rightarrow> Alone)
                               (s'\<lparr>service_log := service_log s' @ calls\<rparr>))
                            (with_flights (HangUp h) s))
                 | _ \<Rightarrow> None)
              else None)
         | _ \<Rightarrow> None)
      else None)"

definition service_start :: "bool \<Rightarrow> service" where
  "service_start dedup =
     \<lparr>shared = (if dedup then Some singleflight_default else None), flight_bodies = [], clients = [],
      service_log = []\<rparr>"

inductive service_reach :: "serde \<Rightarrow> bool \<Rightarrow> service \<Rightarrow> bool" for sj dedup where
  service_begin: "service_reach sj dedup (service_start dedup)"
| service_next: "service_reach sj dedup s \<Longrightarrow> service_step sj ev s = Some s' \<Longrightarrow> service_reach sj dedup s'"

end
