(* ===== verification/Service.thy ===== *)
theory Service
  imports Pipeline
begin

text \<open>
  What the pipeline promises: one run stays within the attempts it may make and reports itself once,
  a write under hedged dispatch is sent once, and requests that share a flight are answered soundly
  and never lost.
\<close>

subsection \<open>One run\<close>

fun is_request :: "obs_event \<Rightarrow> bool" where
  "is_request (Request _ _ _ _) = True"
| "is_request _ = False"

text \<open>The calls a log records, oldest first, and how one run's recorded calls end.\<close>

fun recorded_call :: "obs_event \<Rightarrow> (upstream_id \<times> (call_error, nat) result) option" where
  "recorded_call (Record u r) = Some (u, rec_outcome r)"
| "recorded_call _ = None"

definition recorded :: "obs_event list \<Rightarrow> (upstream_id \<times> (call_error, nat) result) list" where
  "recorded evs = List.map_filter recorded_call evs"

definition last_recorded :: "obs_event list \<Rightarrow> upstream_id \<Rightarrow> (call_error, nat) result \<Rightarrow> bool" where
  "last_recorded evs u r \<longleftrightarrow>
     (\<exists>before. recorded evs = before @ [(u, r)] \<and> list_all (\<lambda>(_, r'). retryable_outcome r') before)"

definition result_of_calls :: "obs_event list \<Rightarrow> (failure, answer) result \<Rightarrow> bool" where
  "result_of_calls evs res \<longleftrightarrow>
     (case res of
        Inr a \<Rightarrow> last_recorded evs (ans_upstream a) (Inr (reply_status (ans_reply a)))
      | Inl (Call e) \<Rightarrow> \<exists>u. last_recorded evs u (Inl e)
      | Inl NoUpstream \<Rightarrow> evs = [])"

lemma recorded_simps [simp]:
  "recorded [] = []"
  "recorded (e # evs) = (case recorded_call e of None \<Rightarrow> recorded evs | Some x \<Rightarrow> x # recorded evs)"
  "recorded (xs @ ys) = recorded xs @ recorded ys"
  by (auto simp: recorded_def List.map_filter_def split: option.split)

lemma recorded_retryable: "list_all retryable_record evs \<Longrightarrow> list_all (\<lambda>(_, r). retryable_outcome r) (recorded evs)"
proof (induction evs)
  case (Cons e evs)
  then show ?case by (cases e) simp_all
qed simp

lemma recorded_abandoned: "list_all is_abandoned evs \<Longrightarrow> recorded evs = []"
proof (induction evs)
  case (Cons e evs)
  then show ?case by (cases e) simp_all
qed simp

lemma ended_by_last: "ended_by evs u r \<Longrightarrow> recorded wins = [] \<Longrightarrow> last_recorded (evs @ wins) u r"
  by (auto simp: ended_by_def last_recorded_def recorded_abandoned recorded_retryable)

lemma try_once_log:
  assumes "try_once sj net u body w = (r, w')"
  shows "\<exists>rec. log w' = log w @ [Record (uid u) rec] \<and>
    rec_outcome rec = (case r of Inr reply \<Rightarrow> Inr (reply_status reply) | Inl e \<Rightarrow> Inl e)"
proof -
  obtain sent elapsed where net: "net u body (now w) = (sent, elapsed)" by fastforce
  show ?thesis
    using assms try_once_visit [of net u body w sent elapsed sj] net
    by (auto simp: visit_record_def visit_result_def call_record_of_def reply_of_def split: sum.splits)
qed

lemma send_once_log:
  assumes "send_once sj net chain body w = (fin, w')"
  shows "\<exists>calls. log w' = log w @ calls \<and> attempt_uids calls = map uid (take 1 chain) \<and> switches calls = 0 \<and>
    \<not> list_ex is_request calls \<and> fin_tried fin = map uid (take 1 chain) \<and> result_of_calls calls (fin_result fin)"
proof (cases chain)
  case Nil
  with assms show ?thesis by (auto simp: send_once_def result_of_calls_def)
next
  case (Cons u us)
  obtain r w1 where once: "try_once sj net u body w = (r, w1)" by fastforce
  from try_once_log [OF once] obtain rec where "log w1 = log w @ [Record (uid u) rec]"
    "rec_outcome rec = (case r of Inr reply \<Rightarrow> Inr (reply_status reply) | Inl e \<Rightarrow> Inl e)" by blast
  with once Cons assms show ?thesis
    by (intro exI [of _ "[Record (uid u) rec]"])
      (auto simp: send_once_def result_of_calls_def last_recorded_def split: sum.splits)
qed

lemma visits_log_counts:
  "attempt_uids (visits_log sj vs) = map (uid \<circ> v_upstream) vs"
  "switches (visits_log sj vs) = length vs - 1" "\<not> list_ex is_request (visits_log sj vs)"
  by (induction sj vs rule: visits_log.induct) (auto simp: visit_record_def)

lemma visits_log_result:
  assumes "list_all (retryable_failure sj) (butlast vs)"
  shows "result_of_calls (visits_log sj vs) (visits_result sj vs)"
proof (cases "vs = []")
  case True
  then show ?thesis by (simp add: result_of_calls_def visits_result_def)
next
  case False
  let ?rec = "\<lambda>v. (uid (v_upstream v), case visit_result sj v of Inr out \<Rightarrow> Inr (co_http_status out) | Inl e \<Rightarrow> Inl e)"
  have "recorded (visits_log sj vs) = map ?rec vs"
    by (induction sj vs rule: visits_log.induct) (auto simp: visit_record_def call_record_of_def)
  also have "\<dots> = map ?rec (butlast vs) @ [?rec (last vs)]"
    using False by (cases vs rule: rev_cases) simp_all
  finally have "recorded (visits_log sj vs) = map ?rec (butlast vs) @ [?rec (last vs)]" .
  moreover have "list_all (\<lambda>(_, r'). retryable_outcome r') (map ?rec (butlast vs))"
    using assms by (auto simp: list_all_iff retryable_failure_def retryable_outcome_def split: sum.splits)
  ultimately show ?thesis
    using False by (auto simp: result_of_calls_def visits_result_def last_recorded_def reply_of_def split: sum.split)
qed

lemma upto_answer_butlast: "list_all p (butlast (upto_answer p xs))"
  by (induction p xs rule: upto_answer.induct) auto

lemma walk_log:
  assumes "walk sj net c chain body w = (fin, w')"
  shows "\<exists>calls. log w' = log w @ calls \<and> attempt_uids calls = fin_tried fin \<and>
    switches calls = length (fin_tried fin) - 1 \<and> \<not> list_ex is_request calls \<and>
    length (fin_tried fin) \<le> min (length chain) (max_attempt c) \<and>
    fin_tried fin = map uid (take (length (fin_tried fin)) chain) \<and> result_of_calls calls (fin_result fin)"
proof -
  let ?vs = "walk_visits sj net c body (now w) chain"
  from assms have fin: "fin_tried fin = map (uid \<circ> v_upstream) ?vs" "fin_result fin = visits_result sj ?vs" and log: "log w' = log w @ visits_log sj ?vs"
    by (auto simp: walk_eq Let_def)
  have b: "length ?vs \<le> min (max_attempt c) (length chain)" "map v_upstream ?vs = take (length ?vs) chain"
    by (rule walk_visits_bounds)+
  have "map (uid \<circ> v_upstream) ?vs = map uid (take (length ?vs) chain)" using b(2) by (metis map_map)
  with b(1) show ?thesis
    using visits_log_result [of sj ?vs, unfolded walk_visits_def, OF upto_answer_butlast]
    by (intro exI [of _ "visits_log sj ?vs"]) (simp add: fin log visits_log_counts walk_visits_def)
qed

lemma drop_lanes_no_request [simp]: "\<not> list_ex is_request (drop_lanes t ls)"
  by (auto simp: list_ex_iff dest!: drop_lanes_only_abandons)

lemma race_parts_no_request:
  "list_ex is_request (race_log (launch chain i c t s)) = list_ex is_request (race_log s)"
  "list_ex is_request (race_log (return_raced r t s)) = list_ex is_request (race_log s)"
  "list_ex is_request (race_log (loop_head chain cap t s)) = list_ex is_request (race_log s)"
  by (auto simp: launch_def return_raced_def loop_head_def split: cause.split)

lemma on_answer_no_request:
  "list_ex is_request (race_log (on_answer chain cap l r t s)) = list_ex is_request (race_log s)"
  by (auto simp: on_answer_def Let_def race_parts_no_request split: sum.split)

lemma race_log_no_request:
  assumes "race_reach sj chain cap s"
  shows "\<not> list_ex is_request (race_log s)"
  using assms
proof (induction rule: race_reach.induct)
  case (race_begin t)
  then show ?case by (simp add: race_start_def race_parts_no_request) (simp add: race_init_def race_parts_no_request)
next
  case (race_next s ev s')
  show ?case
  proof (cases ev)
    case (Polled k t)
    with race_next show ?thesis by (auto simp: Let_def split: if_splits option.splits)
  next
    case (Answered k sent t)
    with race_next obtain a r calls where
      f: "try_finish sj (chain ! lane_index (inflight s ! k)) sent t a = (r, calls)"
      and s': "s' = on_answer chain cap (inflight s ! k) r t (s\<lparr>race_now := t,
        inflight := remove_at k (inflight s), race_log := race_log s @ calls\<rparr>)"
      by (auto simp: Let_def split: if_splits option.splits prod.splits)
    from f have "\<not> list_ex is_request calls"
      by (auto simp: try_finish_def Let_def attempt_finish_def attempt_drop_def)
    with race_next.IH show ?thesis by (simp add: s' on_answer_no_request)
  next
    case (Timer t)
    with race_next show ?thesis
      by (auto simp: on_timer_def race_parts_no_request split: if_splits)
  qed
qed

lemma core_race_log:
  assumes "core_race sj c chain evs w = Some (fin, w')"
  shows "\<exists>calls. log w' = log w @ calls \<and> length (attempt_uids calls) \<le> length (fin_tried fin) \<and>
    set (attempt_uids calls) \<subseteq> set (fin_tried fin) \<and>
    (distinct (map uid chain) \<longrightarrow> distinct (attempt_uids calls)) \<and>
    switches calls = length (fin_tried fin) - 1 \<and> \<not> list_ex is_request calls \<and>
    length (fin_tried fin) \<le> min (length chain) (max_attempt c) \<and>
    fin_tried fin = map uid (take (length (fin_tried fin)) chain) \<and> result_of_calls calls (fin_result fin)"
proof -
  let ?cap = "max_attempt c"
  from assms obtain s r where run: "race_run sj chain ?cap evs (race_start chain ?cap (now w)) = Some s"
    and r: "outcome s = Some r" and fin: "fin = race_finished chain r"
    and log: "log w' = log w @ race_log s @ race_win_log chain r"
    by (auto simp: core_race_def bind_eq_Some_conv)
  have reach: "race_reach sj chain ?cap s" by (rule race_run_reach [OF run race_begin])
  from race_reach_ok [OF reach] r have d: "done_inv chain ?cap s" by (auto simp: race_ok_def run_inv_def)
  have win: "attempt_uids (race_win_log chain r) = []" "switches (race_win_log chain r) = 0"
    "\<not> list_ex is_request (race_win_log chain r)" "recorded (race_win_log chain r) = []"
    by (auto simp: race_win_log_def split: sum.split cause.split)
  have res: "result_of_calls (race_log s @ race_win_log chain r) (fin_result fin)"
    using race_reach_ended [OF reach r] d r ended_by_last [OF _ win(4)]
    by (auto simp: fin race_finished_def result_of_calls_def race_ended_by_def done_inv_def race_win_log_def
        split: sum.splits failure.splits)
  from d r have n: "raced_started r = launched s" "launched s \<le> min (length chain) ?cap"
    "switches (race_log s) = launched s - 1" "length (attempt_uids (race_log s)) \<le> launched s"
    "set (attempt_uids (race_log s)) \<subseteq> uid ` set (take (launched s) chain)"
    "distinct (map uid chain) \<longrightarrow> distinct (attempt_uids (race_log s))"
    by (auto simp: done_inv_def race_limit_def)
  then show ?thesis
    using win race_log_no_request [OF reach]
    using res by (intro exI [of _ "race_log s @ race_win_log chain r"]) (auto simp: log fin race_finished_def)
qed

lemma run_facts:
  assumes "run_request sj net c chain body received_at evs w = Some (reply, w')" "0 < max_attempt c"
  shows "\<exists>fin calls. reply = finish sj fin \<and>
    log w' = log w @ calls @ [Request (method_label sj body) (fin_ok (fin_result fin))
      (length (fin_tried fin)) (now w' - received_at)] \<and>
    \<not> list_ex is_request calls \<and>
    fin_tried fin = map uid (take (length (fin_tried fin)) chain) \<and>
    length (fin_tried fin) \<le> min (length chain) (max_attempt c) \<and>
    length (attempt_uids calls) \<le> length (fin_tried fin) \<and>
    set (attempt_uids calls) \<subseteq> set (fin_tried fin) \<and>
    (distinct (map uid chain) \<longrightarrow> distinct (attempt_uids calls)) \<and>
    switches calls = length (fin_tried fin) - 1 \<and> result_of_calls calls (fin_result fin)"
proof -
  let ?m = "method_label sj body"
  from assms(1) obtain fin w1 where reply: "reply = finish sj fin"
    and w': "w' = emit (Request ?m (fin_ok (fin_result fin)) (length (fin_tried fin)) (now w1 - received_at)) w1"
    and how: "(case (core_dispatch c, is_write_method ?m) of
        (Hedged, False) \<Rightarrow> core_race sj c chain evs w
      | (Hedged, True) \<Rightarrow> Some (send_once sj net chain body w)
      | (Sequential, _) \<Rightarrow> Some (walk sj net c chain body w)) = Some (fin, w1)"
    by (auto simp: run_request_def Let_def)
  have "\<exists>calls. log w1 = log w @ calls \<and> length (attempt_uids calls) \<le> length (fin_tried fin) \<and>
    set (attempt_uids calls) \<subseteq> set (fin_tried fin) \<and>
    (distinct (map uid chain) \<longrightarrow> distinct (attempt_uids calls)) \<and>
    switches calls = length (fin_tried fin) - 1 \<and> \<not> list_ex is_request calls \<and>
    length (fin_tried fin) \<le> min (length chain) (max_attempt c) \<and>
    fin_tried fin = map uid (take (length (fin_tried fin)) chain) \<and> result_of_calls calls (fin_result fin)"
  proof (cases "core_dispatch c")
    case Sequential
    with how have "walk sj net c chain body w = (fin, w1)" by simp
    from walk_log [OF this] obtain calls where calls: "log w1 = log w @ calls"
      "attempt_uids calls = fin_tried fin" "switches calls = length (fin_tried fin) - 1"
      "\<not> list_ex is_request calls" "length (fin_tried fin) \<le> min (length chain) (max_attempt c)"
      "fin_tried fin = map uid (take (length (fin_tried fin)) chain)" "result_of_calls calls (fin_result fin)" by blast
    moreover have "distinct (map uid chain) \<longrightarrow> distinct (fin_tried fin)"
      using calls(6) by (metis distinct_take take_map)
    ultimately show ?thesis by (intro exI [of _ calls]) simp
  next
    case Hedged
    show ?thesis
    proof (cases "is_write_method ?m")
      case True
      with Hedged how have "send_once sj net chain body w = (fin, w1)" by simp
      from send_once_log [OF this] assms(2) show ?thesis by (cases chain) auto
    next
      case False
      with Hedged how have "core_race sj c chain evs w = Some (fin, w1)" by simp
      from core_race_log [OF this] show ?thesis by auto
    qed
  qed
  then show ?thesis by (auto simp: reply w')
qed

text \<open>
  C11: One run, one report: whatever the dispatch and the schedule, a run that ends tries a prefix of
  its chain of at most \<open>max_attempt\<close> upstreams, makes at most one attempt on each, reports a failover
  or a hedge between two of them, and tells the observer once, last, about the request: its method,
  whether it was answered, the number of upstreams tried and the time it took. The last call recorded
  says how the run ended, every one before it having failed retryably: the run was answered if that call
  was, with its status and by its upstream; it failed with that call's failure if it failed; and with no
  upstream, only when nothing was told. What the run replies is made from how it ended.
\<close>

theorem run_reports_once:
  assumes "run_request sj net c chain body received_at evs w = Some (reply, w')" "0 < max_attempt c"
  shows "\<exists>fin calls. reply = finish sj fin \<and>
    log w' = log w @ calls @ [Request (method_label sj body) (fin_ok (fin_result fin))
      (length (fin_tried fin)) (now w' - received_at)] \<and>
    \<not> list_ex is_request calls \<and>
    fin_tried fin = map uid (take (length (fin_tried fin)) chain) \<and>
    length (fin_tried fin) \<le> min (length chain) (max_attempt c) \<and>
    length (attempt_uids calls) \<le> length (fin_tried fin) \<and>
    set (attempt_uids calls) \<subseteq> set (fin_tried fin) \<and>
    (distinct (map uid chain) \<longrightarrow> distinct (attempt_uids calls)) \<and>
    switches calls = length (fin_tried fin) - 1 \<and> result_of_calls calls (fin_result fin)"
  by (rule run_facts [OF assms])

text \<open>
  C15: With hedging on, a method that is not a known read is sent at most once: one attempt, on the
  first upstream of the chain, with no hedge and no failover, however it ends.
\<close>

theorem hedged_write_sent_once:
  assumes "run_request sj net c chain body received_at evs w = Some (reply, w')"
    and "core_dispatch c = Hedged" "is_write_method (method_label sj body)"
  shows "\<exists>calls. log w' = log w @ calls \<and> attempt_uids calls = map uid (take 1 chain) \<and> switches calls = 0"
proof -
  obtain fin w1 where once: "send_once sj net chain body w = (fin, w1)" by fastforce
  with assms have "w' = emit (Request (method_label sj body) (fin_ok (fin_result fin))
      (length (fin_tried fin)) (now w1 - received_at)) w1"
    by (simp add: run_request_def Let_def)
  with send_once_log [OF once] show ?thesis by auto
qed

subsection \<open>Requests that share flights\<close>

fun waits :: "nat \<Rightarrow> stage \<Rightarrow> bool" where
  "waits h (Waiting g r) = (g = h)"
| "waits h _ = False"

definition waiting_on :: "nat \<Rightarrow> request list \<Rightarrow> nat" where
  "waiting_on h cs = length (filter (\<lambda>q. waits h (req_stage q)) cs)"

definition client_ok :: "serde \<Rightarrow> reply singleflight \<Rightarrow> request \<Rightarrow> bool" where
  "client_ok sj sf q \<longleftrightarrow>
     (\<forall>h r. req_stage q = Waiting h r \<longrightarrow>
        h < length (flights sf) \<and> dedup_key sj (req_body q) = Some (fl_key (flights sf ! h)) \<and>
        request_id sj (req_body q) \<noteq> None)"

definition flight_ok :: "serde \<Rightarrow> reply singleflight \<Rightarrow> bytes list \<Rightarrow> request list \<Rightarrow> nat \<Rightarrow> bool" where
  "flight_ok sj sf bodies cs h \<longleftrightarrow>
     dedup_key sj (bodies ! h) = Some (fl_key (flights sf ! h)) \<and>
     fl_holders (flights sf ! h) = waiting_on h cs \<and>
     (fl_phase (flights sf ! h) = Freed \<longrightarrow> fl_holders (flights sf ! h) = 0)"

definition shared_inv :: "serde \<Rightarrow> reply singleflight \<Rightarrow> bytes list \<Rightarrow> request list \<Rightarrow> bool" where
  "shared_inv sj sf bodies cs \<longleftrightarrow>
     sf_reach sf \<and> length bodies = length (flights sf) \<and>
     (\<forall>h < length (flights sf). flight_ok sj sf bodies cs h) \<and>
     (\<forall>q \<in> set cs. client_ok sj sf q)"

lemma filter_update_count:
  "i < length xs \<Longrightarrow>
   length (filter P (xs[i := y])) + (if P (xs ! i) then 1 else 0) =
   length (filter P xs) + (if P y then 1 else (0 :: nat))"
proof (induction xs arbitrary: i)
  case (Cons x xs)
  then show ?case by (cases i) auto
qed simp

lemma waiting_on_snoc [simp]:
  "waiting_on h (cs @ [q]) = waiting_on h cs + (if waits h (req_stage q) then 1 else 0)"
  by (simp add: waiting_on_def)

lemma waiting_on_update:
  assumes "i < length cs" "\<not> waits h st"
  shows "waiting_on h (cs[i := (cs ! i)\<lparr>req_stage := st\<rparr>]) =
    waiting_on h cs - (if waits h (req_stage (cs ! i)) then 1 else 0)"
  using filter_update_count [OF assms(1), of "\<lambda>q. waits h (req_stage q)" "(cs ! i)\<lparr>req_stage := st\<rparr>"] assms(2)
  by (simp add: waiting_on_def)

definition idle :: "stage \<Rightarrow> bool" where
  "idle st \<longleftrightarrow> (\<forall>h. \<not> waits h st)"

lemma idle_simps [simp]: "idle Alone" "idle (Replied x)" "idle Gone" "\<not> idle (Waiting h r)"
  by (auto simp: idle_def)

lemma idle_client_ok: "idle (req_stage q) \<Longrightarrow> client_ok sj sf q"
  by (auto simp: client_ok_def)

lemma shared_inv_add:
  assumes "shared_inv sj sf bodies cs" "idle (req_stage q)"
  shows "shared_inv sj sf bodies (cs @ [q])"
  using assms by (auto simp: shared_inv_def flight_ok_def idle_client_ok) (simp add: idle_def)

text \<open>A request that stops waiting, or that was not waiting, while its flight loses its handle.\<close>

lemma shared_inv_leave:
  assumes inv: "shared_inv sj sf bodies cs" and i: "i < length cs" and st: "idle st"
    and w: "req_stage (cs ! i) = Waiting h r" and step: "sf_step (HangUp h) sf = Some sf'"
  shows "shared_inv sj sf' bodies (cs[i := (cs ! i)\<lparr>req_stage := st\<rparr>])" (is "shared_inv sj sf' bodies ?cs")
proof -
  from step have h: "h < length (flights sf)"
    and sf': "sf' = update_flight h (\<lambda>f. f\<lparr>fl_holders := fl_holders f - 1\<rparr>) sf"
    by (simp_all split: if_splits)
  have reach: "sf_reach sf'" using inv step unfolding shared_inv_def by (blast intro: sf_next)
  have cnt: "waiting_on g ?cs = waiting_on g cs - (if g = h then 1 else 0)" for g
    using waiting_on_update [OF i, of g st] st w by (simp add: idle_def)
  have fl: "flight_ok sj sf' bodies ?cs g" if g: "g < length (flights sf')" for g
  proof -
    have "flight_ok sj sf bodies cs g" using inv g by (simp add: shared_inv_def sf')
    then show ?thesis using h by (cases "g = h") (auto simp: flight_ok_def sf' cnt)
  qed
  have cl: "client_ok sj sf' q" if q: "q \<in> set ?cs" for q
  proof (cases "q = (cs ! i)\<lparr>req_stage := st\<rparr>")
    case True
    with st show ?thesis by (simp add: idle_client_ok)
  next
    case False
    with q have "q \<in> set cs" using set_update_subset_insert by fastforce
    then have "client_ok sj sf q" using inv by (simp add: shared_inv_def)
    then show ?thesis using h by (auto simp: client_ok_def sf' nth_list_update)
  qed
  show ?thesis using reach fl cl inv by (auto simp: shared_inv_def sf')
qed

lemma shared_inv_idle:
  assumes inv: "shared_inv sj sf bodies cs" and i: "i < length cs" and st: "idle st" "idle (req_stage (cs ! i))"
  shows "shared_inv sj sf bodies (cs[i := (cs ! i)\<lparr>req_stage := st\<rparr>])"
proof -
  have "waiting_on g (cs[i := (cs ! i)\<lparr>req_stage := st\<rparr>]) = waiting_on g cs" for g
    using waiting_on_update [OF i, of g st] st by (simp add: idle_def)
  moreover have "client_ok sj sf q" if "q \<in> set (cs[i := (cs ! i)\<lparr>req_stage := st\<rparr>])" for q
  proof (cases "q = (cs ! i)\<lparr>req_stage := st\<rparr>")
    case True
    with st(1) show ?thesis by (simp add: idle_client_ok)
  next
    case False
    with that have "q \<in> set cs" using set_update_subset_insert by fastforce
    then show ?thesis using inv by (simp add: shared_inv_def)
  qed
  ultimately show ?thesis using inv by (auto simp: shared_inv_def flight_ok_def)
qed

text \<open>A flight ends, or its guard runs: no request is touched.\<close>

lemma shared_inv_phase:
  assumes inv: "shared_inv sj sf bodies cs" and step: "sf_step ev sf = Some sf'"
    and ev: "ev = Complete h a \<or> ev = Evicted h"
  shows "shared_inv sj sf' bodies cs"
proof -
  have reach: "sf_reach sf'" using inv step unfolding shared_inv_def by (blast intro: sf_next)
  from step ev obtain p where h: "h < length (flights sf)"
    and fl: "flights sf' = (flights sf)[h := (flights sf ! h)\<lparr>fl_phase := p\<rparr>]"
    and p: "p = Freed \<Longrightarrow> fl_holders (flights sf ! h) = 0"
  proof (cases "ev = Evicted h")
    case True
    with step show thesis by (intro that [of Freed]) (auto split: if_splits)
  next
    case False
    with ev step show thesis by (intro that [of "Finished a"]) (auto split: if_splits)
  qed
  have "flight_ok sj sf' bodies cs g" if "g < length (flights sf')" for g
  proof -
    have "flight_ok sj sf bodies cs g" using inv that fl by (simp add: shared_inv_def)
    with h p show ?thesis by (cases "g = h") (auto simp: flight_ok_def fl)
  qed
  moreover have "client_ok sj sf' q" if "q \<in> set cs" for q
  proof -
    have "client_ok sj sf q" using inv that by (simp add: shared_inv_def)
    with h show ?thesis by (auto simp: client_ok_def fl nth_list_update)
  qed
  ultimately show ?thesis using reach inv by (simp add: shared_inv_def fl)
qed

lemma shared_inv_join:
  assumes inv: "shared_inv sj sf bodies cs" and n: "length (flights sf) \<le> 2 ^ 64"
    and key: "dedup_key sj body = Some key" and rid: "request_id sj body \<noteq> None"
    and j: "join key me sf = ((h, r), sf')"
  shows "shared_inv sj sf' (if r = Leader then bodies @ [body] else bodies)
    (cs @ [\<lparr>req_body = body, req_uuid = me, req_stage = Waiting h r\<rparr>])" (is "shared_inv sj sf' ?bodies ?cs")
proof -
  have reach: "sf_reach sf" using inv by (simp add: shared_inv_def)
  have reach': "sf_reach sf'" by (rule sf_next [OF reach, of "Join key me"]) (simp add: j)
  have len: "length bodies = length (flights sf)" using inv by (simp add: shared_inv_def)
  have old: "flight_ok sj sf bodies cs g" if "g < length (flights sf)" for g
    using inv that by (simp add: shared_inv_def)
  have clients: "client_ok sj sf q" if "q \<in> set cs" for q using inv that by (simp add: shared_inv_def)
  show ?thesis
  proof (cases "\<exists>e. map_of (entries sf) key = Some e \<and> 0 < fl_holders (flights sf ! entry_flight e)")
    case True
    then obtain e where e: "map_of (entries sf) key = Some e" "0 < fl_holders (flights sf ! entry_flight e)"
      by blast
    from join_live [OF e, of me] j have h: "h = entry_flight e" and r: "r \<noteq> Leader"
      and sf': "sf' = update_flight h (\<lambda>f. f\<lparr>fl_holders := fl_holders f + 1\<rparr>) sf" by auto
    from sf_inv_entry [OF sf_reach_inv [OF reach n] e(1)]
    have p: "h < length (flights sf)" "fl_key (flights sf ! h) = key" "fl_phase (flights sf ! h) = Running"
      by (simp_all add: points_to_def Let_def h)
    have "flight_ok sj sf' bodies ?cs g" if "g < length (flights sf')" for g
      using old [of g] that p by (cases "g = h") (auto simp: flight_ok_def sf')
    moreover have "client_ok sj sf' q" if "q \<in> set ?cs" for q
      using clients [of q] that p key rid
      by (cases "q \<in> set cs") (auto simp: client_ok_def sf' nth_list_update)
    ultimately show ?thesis using reach' len r by (simp add: shared_inv_def sf')
  next
    case False
    have "join key me sf = ((length (flights sf), Leader),
        sf\<lparr>flight_ids := flight_ids sf + 1, flights := flights sf @ [new_flight sf key me],
           entries := AList.update key \<lparr>entry_id = flight_ids sf, entry_leader = me,
             entry_flight = length (flights sf)\<rparr> (entries sf)\<rparr>)"
      by (rule join_new) (use False in auto)
    with j have h: "h = length (flights sf)" and r: "r = Leader"
      and fl: "flights sf' = flights sf @ [new_flight sf key me]" by auto
    have z: "waiting_on h cs = 0"
      using clients by (auto simp: waiting_on_def filter_empty_conv client_ok_def h
          elim!: waits.elims)
    have "flight_ok sj sf' (bodies @ [body]) ?cs g" if "g < length (flights sf')" for g
      using old [of g] that len z key
      by (cases "g = h") (auto simp: flight_ok_def fl h nth_append new_flight_def)
    moreover have "client_ok sj sf' q" if "q \<in> set ?cs" for q
      using clients [of q] that key rid
      by (cases "q \<in> set cs") (auto simp: client_ok_def fl h nth_append new_flight_def)
    ultimately show ?thesis using reach' len r by (simp add: shared_inv_def fl)
  qed
qed

definition flights_of :: "service \<Rightarrow> reply flight list" where
  "flights_of s = (case shared s of None \<Rightarrow> [] | Some sf \<Rightarrow> flights sf)"

definition service_inv :: "serde \<Rightarrow> service \<Rightarrow> bool" where
  "service_inv sj s \<longleftrightarrow>
     (case shared s of
        None \<Rightarrow> \<forall>q \<in> set (clients s). idle (req_stage q)
      | Some sf \<Rightarrow> shared_inv sj sf (flight_bodies s) (clients s))"

lemma with_flights_Some:
  "with_flights ev s = Some s' \<longleftrightarrow>
     (\<exists>sf sf'. shared s = Some sf \<and> sf_step ev sf = Some sf' \<and> s' = s\<lparr>shared := Some sf'\<rparr>)"
  by (auto simp: with_flights_def split: option.splits)

lemma set_stage_simps [simp]:
  "shared (set_stage i st s) = shared s" "flight_bodies (set_stage i st s) = flight_bodies s"
  "clients (set_stage i st s) = (clients s)[i := (clients s ! i)\<lparr>req_stage := st\<rparr>]"
  "service_log (set_stage i st s) = service_log s"
  by (simp_all add: set_stage_def)

text \<open>The steps, told apart by what they do to the flights.\<close>

lemma arrive_cases:
  obtains (idle) st where "arrive sj me body s =
      s\<lparr>clients := clients s @ [\<lparr>req_body = body, req_uuid = me, req_stage = st\<rparr>]\<rparr>" "idle st"
  | (join) sf sf' key h r where "shared s = Some sf" "dedup_key sj body = Some key"
      "request_id sj body \<noteq> None" "join key me sf = ((h, r), sf')"
      "arrive sj me body s = s\<lparr>shared := Some sf',
         flight_bodies := (if r = Leader then flight_bodies s @ [body] else flight_bodies s),
         clients := clients s @ [\<lparr>req_body = body, req_uuid = me, req_stage = Waiting h r\<rparr>]\<rparr>"
proof (cases "shape body = Single \<and> shared s \<noteq> None \<and> dedup_key sj body \<noteq> None \<and> request_id sj body \<noteq> None")
  case True
  then obtain sf key rid where f: "shared s = Some sf" "dedup_key sj body = Some key"
    "request_id sj body = Some rid" by auto
  obtain h r sf' where j: "join key me sf = ((h, r), sf')" by (metis prod.exhaust)
  from True f j show thesis
    by (intro join [of sf key h r sf']) (auto simp: arrive_def coalesce_begin_def Let_def)
next
  case False
  let ?st = "if shape body = Single then Alone else Replied BAD_REQUEST"
  have "arrive sj me body s =
      s\<lparr>clients := clients s @ [\<lparr>req_body = body, req_uuid = me, req_stage = ?st\<rparr>]\<rparr>"
    using False
    by (cases "shape body"; cases "shared s"; cases "dedup_key sj body"; cases "request_id sj body")
      (auto simp: arrive_def Let_def coalesce_begin_def)
  moreover have "idle ?st" by simp
  ultimately show thesis by (rule idle)
qed

lemma takes_step:
  assumes "service_step sj (Takes i) s = Some s'"
  shows "\<exists>h r sf sf' reply. i < length (clients s) \<and> req_stage (clients s ! i) = Waiting h r \<and>
    shared s = Some sf \<and> h < length (flights sf) \<and> fl_phase (flights sf ! h) = Finished reply \<and>
    sf_step (HangUp h) sf = Some sf' \<and>
    s' = set_stage i (case fst (coalesce_end sj r (req_body (clients s ! i)) reply) of
        Some x \<Rightarrow> Replied (reply_into_response x) | None \<Rightarrow> Alone)
      (s\<lparr>shared := Some sf',
         service_log := service_log s @ snd (coalesce_end sj r (req_body (clients s ! i)) reply)\<rparr>)"
proof -
  from assms have i: "i < length (clients s)" by (simp split: if_splits)
  obtain h r where w: "req_stage (clients s ! i) = Waiting h r"
    using assms i by (cases "req_stage (clients s ! i)") auto
  obtain sf where sf: "shared s = Some sf" using assms i w by (cases "shared s") auto
  have h: "h < length (flights sf)" using assms i w sf by (simp split: if_splits)
  obtain reply where p: "fl_phase (flights sf ! h) = Finished reply"
    using assms i w sf h by (cases "fl_phase (flights sf ! h)") auto
  have "map_option (\<lambda>s'. set_stage i
      (case fst (coalesce_end sj r (req_body (clients s ! i)) reply) of
        Some x \<Rightarrow> Replied (reply_into_response x) | None \<Rightarrow> Alone)
      (s'\<lparr>service_log := service_log s' @ snd (coalesce_end sj r (req_body (clients s ! i)) reply)\<rparr>))
      (with_flights (HangUp h) s) = Some s'"
    using assms i w sf h p by (simp add: split_beta del: sf_step.simps)
  then obtain s1 where s1: "with_flights (HangUp h) s = Some s1"
    and s': "s' = set_stage i (case fst (coalesce_end sj r (req_body (clients s ! i)) reply) of
        Some x \<Rightarrow> Replied (reply_into_response x) | None \<Rightarrow> Alone)
      (s1\<lparr>service_log := service_log s1 @ snd (coalesce_end sj r (req_body (clients s ! i)) reply)\<rparr>)"
    by (simp only: map_option_eq_Some) blast
  from s1 sf obtain sf' where "sf_step (HangUp h) sf = Some sf'" "s1 = s\<lparr>shared := Some sf'\<rparr>"
    by (auto simp: with_flights_Some simp del: sf_step.simps)
  with i w sf h p s' show ?thesis
    by (intro exI [of _ h] exI [of _ r] exI [of _ sf] exI [of _ sf'] exI [of _ reply])
      (simp del: sf_step.simps)
qed

lemma service_step_inv:
  assumes inv: "service_inv sj s" and n: "length (flights_of s) \<le> 2 ^ 64"
    and step: "service_step sj ev s = Some s'"
  shows "service_inv sj s'"
proof (cases ev)
  case (Arrive me body)
  with step have s': "s' = arrive sj me body s" by simp
  show ?thesis
  proof (cases rule: arrive_cases [of sj me body s])
    case (idle st)
    with inv show ?thesis
      by (auto simp: s' service_inv_def shared_inv_add split: option.splits)
  next
    case (join sf sf' key h r)
    from inv join(1) have "shared_inv sj sf (flight_bodies s) (clients s)" by (simp add: service_inv_def)
    from shared_inv_join [OF this _ join(2-4)] n join(1) show ?thesis
      unfolding s' join(5) by (simp add: service_inv_def flights_of_def)
  qed
next
  case (FlightEnds h reply)
  with step obtain sf sf' where f: "shared s = Some sf" "sf_step (Complete h reply) sf = Some sf'"
    "s' = s\<lparr>shared := Some sf'\<rparr>" by (auto simp: with_flights_Some simp del: sf_step.simps)
  with inv shared_inv_phase [OF _ f(2)] show ?thesis by (simp add: service_inv_def)
next
  case (GuardRuns h)
  with step obtain sf sf' where f: "shared s = Some sf" "sf_step (Evicted h) sf = Some sf'"
    "s' = s\<lparr>shared := Some sf'\<rparr>" by (auto simp: with_flights_Some simp del: sf_step.simps)
  with inv shared_inv_phase [OF _ f(2)] show ?thesis by (simp add: service_inv_def)
next
  case (AloneEnds i reply)
  with step have i: "i < length (clients s)" "req_stage (clients s ! i) = Alone"
    and s': "s' = set_stage i (Replied (reply_into_response reply)) s" by (auto split: if_splits)
  show ?thesis
  proof (cases "shared s")
    case None
    with inv show ?thesis
      using set_update_subset_insert [of "clients s" i]
      by (fastforce simp: s' service_inv_def)
  next
    case (Some sf)
    with inv i shared_inv_idle [of sj sf "flight_bodies s" "clients s" i] show ?thesis
      by (simp add: s' service_inv_def)
  qed
next
  case (Leaves i)
  with step have i: "i < length (clients s)" by (auto split: if_splits)
  show ?thesis
  proof (cases "req_stage (clients s ! i)")
    case Alone
    with step i Leaves have s': "s' = set_stage i Gone s" by simp
    show ?thesis
    proof (cases "shared s")
      case None
      with inv show ?thesis
        using set_update_subset_insert [of "clients s" i]
        by (fastforce simp: s' service_inv_def)
    next
      case (Some sf)
      with inv i Alone shared_inv_idle [of sj sf "flight_bodies s" "clients s" i] show ?thesis
        by (simp add: s' service_inv_def)
    qed
  next
    case (Waiting h r)
    with step i Leaves obtain sf sf' where f: "shared s = Some sf" "sf_step (HangUp h) sf = Some sf'"
      and s': "s' = set_stage i Gone (s\<lparr>shared := Some sf'\<rparr>)"
      by (auto simp: with_flights_Some simp del: sf_step.simps)
    with inv shared_inv_leave [OF _ i _ Waiting f(2)] show ?thesis by (simp add: service_inv_def)
  qed (use step i Leaves in simp_all)
next
  case (Takes i)
  with step have "service_step sj (Takes i) s = Some s'" by simp
  from takes_step [OF this] obtain h r sf sf' reply where i: "i < length (clients s)"
    and w: "req_stage (clients s ! i) = Waiting h r" and f: "shared s = Some sf" "sf_step (HangUp h) sf = Some sf'"
    and s': "s' = set_stage i (case fst (coalesce_end sj r (req_body (clients s ! i)) reply) of
        Some x \<Rightarrow> Replied (reply_into_response x) | None \<Rightarrow> Alone)
      (s\<lparr>shared := Some sf',
         service_log := service_log s @ snd (coalesce_end sj r (req_body (clients s ! i)) reply)\<rparr>)"
    by blast
  have st: "idle (case fst (coalesce_end sj r (req_body (clients s ! i)) reply) of
      Some x \<Rightarrow> Replied (reply_into_response x) | None \<Rightarrow> Alone)"
    by (simp split: option.split)
  from inv f(1) shared_inv_leave [OF _ i st w f(2)] show ?thesis by (simp add: service_inv_def s')
qed

lemma service_flights_grow:
  assumes "service_step sj ev s = Some s'"
  shows "length (flights_of s) \<le> length (flights_of s')"
proof (cases ev)
  case (Arrive me body)
  with assms have s': "s' = arrive sj me body s" by simp
  show ?thesis
  proof (cases rule: arrive_cases [of sj me body s])
    case (join sf sf' key h r)
    have "length (flights sf) \<le> length (flights sf')"
      by (rule flights_grow [of "Join key me"]) (simp add: join)
    with join show ?thesis by (simp add: s' flights_of_def)
  qed (simp add: s' flights_of_def)
next
  case (Takes i)
  with assms have "service_step sj (Takes i) s = Some s'" by simp
  from takes_step [OF this] show ?thesis
    by (auto simp: flights_of_def split: if_splits)
next
  case (Leaves i)
  with assms show ?thesis
    by (auto simp: with_flights_Some flights_of_def dest!: flights_grow simp del: sf_step.simps
        split: if_splits stage.splits)
qed (use assms in \<open>auto simp: with_flights_Some flights_of_def set_stage_def dest!: flights_grow
    simp del: sf_step.simps split: if_splits\<close>)

lemma service_reach_inv:
  "service_reach sj dedup s \<Longrightarrow> length (flights_of s) \<le> 2 ^ 64 \<Longrightarrow> service_inv sj s"
proof (induction rule: service_reach.induct)
  case service_begin
  then show ?case
    by (simp add: service_start_def service_inv_def shared_inv_def sf_begin singleflight_default_def [symmetric])
      (simp add: singleflight_default_def)
next
  case (service_next s ev s')
  have n: "length (flights_of s) \<le> 2 ^ 64"
    using service_flights_grow [OF service_next.hyps(2)] service_next.prems by (rule order_trans)
  show ?case by (rule service_step_inv [OF service_next.IH [OF n] n service_next.hyps(2)])
qed

lemma waiting_facts:
  assumes "service_reach sj dedup s" "shared s = Some sf" "length (flights sf) \<le> 2 ^ 64"
    and "i < length (clients s)" "req_stage (clients s ! i) = Waiting h r"
  shows "h < length (flights sf)" "0 < fl_holders (flights sf ! h)" "fl_phase (flights sf ! h) \<noteq> Freed"
    "dedup_key sj (req_body (clients s ! i)) = Some (fl_key (flights sf ! h))"
    "dedup_key sj (flight_bodies s ! h) = Some (fl_key (flights sf ! h))"
proof -
  have "service_inv sj s"
    using assms(2,3) by (intro service_reach_inv [OF assms(1)]) (simp add: flights_of_def)
  then have inv: "shared_inv sj sf (flight_bodies s) (clients s)" using assms(2) by (simp add: service_inv_def)
  have q: "clients s ! i \<in> set (clients s)" using assms(4) by simp
  with inv have c: "client_ok sj sf (clients s ! i)" by (simp add: shared_inv_def)
  with assms(5) show h: "h < length (flights sf)"
    and "dedup_key sj (req_body (clients s ! i)) = Some (fl_key (flights sf ! h))"
    by (simp_all add: client_ok_def)
  from inv h have f: "flight_ok sj sf (flight_bodies s) (clients s) h" by (simp add: shared_inv_def)
  then show "dedup_key sj (flight_bodies s ! h) = Some (fl_key (flights sf ! h))" by (simp add: flight_ok_def)
  have "filter (\<lambda>q. waits h (req_stage q)) (clients s) \<noteq> []"
    using q assms(5) by (auto simp: filter_empty_conv intro!: bexI [of _ "clients s ! i"])
  with f show pos: "0 < fl_holders (flights sf ! h)" by (simp add: flight_ok_def waiting_on_def)
  with f show "fl_phase (flights sf ! h) \<noteq> Freed" by (auto simp: flight_ok_def)
qed

lemma keyed_is_read:
  "dedup_key sj body = Some k \<Longrightarrow>
   \<exists>m p. question sj body = Some (m, p) \<and> is_idempotent_read m \<and>
     map_option (digest128 sj) (hash_input sj m p) = Some k"
  by (auto simp: dedup_key_question dest: question_read split: option.splits)

text \<open>
  C16: Only known reads share, and only the same question: in every state of the service a request
  that waits for a flight asks a known read, and so does the body the flight was started for; both
  hash to the flight's key.
\<close>

theorem sharers_ask_the_same:
  assumes "service_reach sj dedup s" "shared s = Some sf" "length (flights sf) \<le> 2 ^ 64"
    and "i < length (clients s)" "req_stage (clients s ! i) = Waiting h r"
  shows "\<exists>m p m' p'. question sj (req_body (clients s ! i)) = Some (m, p) \<and> is_idempotent_read m \<and>
    question sj (flight_bodies s ! h) = Some (m', p') \<and> is_idempotent_read m' \<and>
    map_option (digest128 sj) (hash_input sj m p) = Some (fl_key (flights sf ! h)) \<and>
    map_option (digest128 sj) (hash_input sj m' p') = Some (fl_key (flights sf ! h))"
  using keyed_is_read [OF waiting_facts(4) [OF assms]] keyed_is_read [OF waiting_facts(5) [OF assms]]
  by blast

text \<open>
  C4: Nobody waits in vain: in every state of the service the flight a request waits for is either
  running, held by it, so that it ends with whatever reply the run produces, or finished, and then
  the request can take its reply. It is never a flight that was dropped, however many other
  participants have hung up, the leader included.
\<close>

theorem nobody_waits_in_vain:
  assumes "service_reach sj dedup s" "shared s = Some sf" "length (flights sf) \<le> 2 ^ 64"
    and "i < length (clients s)" "req_stage (clients s ! i) = Waiting h r"
  shows "case fl_phase (flights sf ! h) of
      Running \<Rightarrow> \<forall>reply. service_step sj (FlightEnds h reply) s \<noteq> None
    | Finished reply \<Rightarrow> service_step sj (Takes i) s \<noteq> None
    | Freed \<Rightarrow> False"
proof -
  note w = waiting_facts [OF assms]
  from w assms show ?thesis
    by (auto simp: with_flights_def split_beta split: phase.split)
qed

text \<open>
  C17: A follower's answer: a follower that takes the flight's reply is answered under its own id, or
  runs on its own. When the leader's body reads as a map of raw fields, and that map with the field \<open>id\<close>
  replaced by the follower's own id, byte for byte, and nothing else changed, can be printed, the answer
  has the leader's status and that body, and the observer counts one coalesced request. Otherwise the
  leader's body is not passed on: the follower runs its request itself and nothing is counted. Either
  way it lets go of the flight.
\<close>

theorem follower_gets_own_id:
  assumes "service_step sj (Takes i) s = Some s'"
    and "req_stage (clients s ! i) = Waiting h (Follower ldr)" "shared s = Some sf"
    and "fl_phase (flights sf ! h) = Finished reply"
  shows "(case (request_id sj (req_body (clients s ! i)), de_raw_map sj (reply_body reply)) of
      (Some rid, Some env) \<Rightarrow>
        (case ser_raw_map sj (btree_insert ''id'' rid env) of
           Some out \<Rightarrow>
             map_of (btree_insert ''id'' rid env) = (map_of env)(''id'' \<mapsto> rid) \<and>
             req_stage (clients s' ! i) = Replied \<lparr>resp_status = reply_status reply,
               resp_content_type = Some ''application/json'', resp_body = out\<rparr> \<and>
             service_log s' = service_log s @ [Coalesced]
         | None \<Rightarrow> req_stage (clients s' ! i) = Alone \<and> service_log s' = service_log s)
    | _ \<Rightarrow> req_stage (clients s' ! i) = Alone \<and> service_log s' = service_log s) \<and>
    (\<exists>sf'. shared s' = Some sf' \<and> Suc (fl_holders (flights sf' ! h)) = fl_holders (flights sf ! h))"
proof -
  let ?reply = "coalesce_end sj (Follower ldr) (req_body (clients s ! i)) reply"
  from takes_step [OF assms(1)] assms(2-4) obtain sf' where i: "i < length (clients s)" "h < length (flights sf)"
    and sf': "sf_step (HangUp h) sf = Some sf'"
    and s': "s' = set_stage i (case fst ?reply of Some x \<Rightarrow> Replied (reply_into_response x) | None \<Rightarrow> Alone)
      (s\<lparr>shared := Some sf', service_log := service_log s @ snd ?reply\<rparr>)" by auto
  from sf' i(2) have "Suc (fl_holders (flights sf' ! h)) = fl_holders (flights sf ! h)" by (auto split: if_splits)
  then show ?thesis
    using i(1) by (auto simp: s' coalesce_end_def readdress_def reply_into_response_def split: option.split)
qed

subsection \<open>Concrete requests\<close>

lemma demo_method: "method_label demo_serde ''{}'' = OTHER_METHOD"
  by (simp add: method_label_def demo_serde_def method_labels_def IDEMPOTENT_READS_def SENDS_def)

lemma demo_write: "is_write_method (method_label demo_serde ''{}'')"
  unfolding demo_method by (simp add: is_write_method_def is_idempotent_read_def OTHER_METHOD_def IDEMPOTENT_READS_def)

definition demo_end :: world where
  "demo_end =
     \<lparr>now = 18, log = [Record (UpstreamId ''a'') \<lparr>rec_duration = 5, rec_outcome = Inl (Unreachable ''down'')\<rparr>,
       Failover (UpstreamId ''a''),
       Record (UpstreamId ''b'') \<lparr>rec_duration = 3, rec_outcome = Inr 200\<rparr>,
       Request OTHER_METHOD True 2 18]\<rparr>"

lemma demo_request:
  "run_request demo_serde demo_network demo_core (map demo_upstream [''a'', ''b'', ''c'']) ''{}'' 0 []
     \<lparr>now = 0, log = []\<rparr> = Some (demo_reply, demo_end)"
proof -
  have "core_dispatch demo_core = Sequential" by (simp add: demo_core_def)
  then show ?thesis
    unfolding run_request_def demo_method demo_walk
    by (simp add: Let_def demo_finished_def finish_def emit_def demo_end_def)
qed

theorem run_reports_once_witness:
  "\<exists>fin calls. demo_reply = finish demo_serde fin \<and>
    log demo_end = calls @ [Request (method_label demo_serde ''{}'') (fin_ok (fin_result fin))
      (length (fin_tried fin)) (now demo_end - 0)] \<and> length (fin_tried fin) \<le> 2"
proof -
  have "0 < max_attempt demo_core" by (simp add: demo_core_def)
  from run_reports_once [OF demo_request this] show ?thesis
    by (auto simp: demo_core_def)
qed

lemma demo_hedged_request:
  "run_request demo_serde demo_network (demo_core\<lparr>core_dispatch := Hedged\<rparr>)
     (map demo_upstream [''b'', ''a'']) ''{}'' 0 [] \<lparr>now = 0, log = []\<rparr> =
   Some (demo_reply, \<lparr>now = 3, log = [Record (UpstreamId ''b'') \<lparr>rec_duration = 3, rec_outcome = Inr 200\<rparr>,
     Request OTHER_METHOD True 1 3]\<rparr>)"
proof -
  have net: "demo_network (demo_upstream ''b'') ''{}'' (now \<lparr>now = 0, log = []\<rparr>) = (demo_ok, 3)"
    by (simp add: demo_network_def demo_upstream_def)
  have once: "try_once demo_serde demo_network (demo_upstream ''b'') ''{}'' \<lparr>now = 0, log = []\<rparr> =
      (Inr demo_reply, \<lparr>now = 3, log = [Record (UpstreamId ''b'') \<lparr>rec_duration = 3, rec_outcome = Inr 200\<rparr>]\<rparr>)"
    using try_once_visit [of demo_network "demo_upstream ''b''" "''{}''" "\<lparr>now = 0, log = []\<rparr>" demo_ok 3 demo_serde]
      net
    by (simp add: demo_calls visit_record_def visit_result_def call_record_of_def demo_upstream_fields
        reply_of_def demo_reply_def)
  show ?thesis
    using demo_write
    by (simp add: run_request_def Let_def send_once_def once finish_def demo_method emit_def
        demo_upstream_fields)
qed

theorem hedged_write_sent_once_witness:
  "\<exists>calls. [Record (UpstreamId ''b'') \<lparr>rec_duration = 3, rec_outcome = Inr 200\<rparr>,
      Request OTHER_METHOD True 1 3] = calls \<and> attempt_uids calls = [UpstreamId ''b''] \<and> switches calls = 0"
  using hedged_write_sent_once [OF demo_hedged_request _ demo_write]
  by (simp add: demo_upstream_fields)

text \<open>Two requests ask the same; the leader's client hangs up; the follower is answered.\<close>

definition demo_sf :: "reply phase \<Rightarrow> (dedup_id \<times> entry) list \<Rightarrow> reply singleflight" where
  "demo_sf p es =
     \<lparr>entries = es, flight_ids = 1,
      flights = [\<lparr>fl_key = 10, fl_id = 0, fl_leader = 1, fl_holders = 1, fl_phase = p\<rparr>]\<rparr>"

definition demo_service :: "reply phase \<Rightarrow> (dedup_id \<times> entry) list \<Rightarrow> service" where
  "demo_service p es =
     \<lparr>shared = Some (demo_sf p es), flight_bodies = [''{eth_call''],
      clients = [\<lparr>req_body = ''{eth_call'', req_uuid = 1, req_stage = Gone\<rparr>,
        \<lparr>req_body = ''{eth_call'', req_uuid = 2, req_stage = Waiting 0 (Follower 1)\<rparr>],
      service_log = []\<rparr>"

abbreviation demo_entry :: "(dedup_id \<times> entry) list" where
  "demo_entry \<equiv> [(10, \<lparr>entry_id = 0, entry_leader = 1, entry_flight = 0\<rparr>)]"

lemma demo_key:
  "dedup_key demo_serde ''{eth_call'' = Some 10" "request_id demo_serde ''{eth_call'' = Some ''7''"
  "shape ''{eth_call'' = Single"
  by (simp_all add: dedup_key_def demo_serde_def is_idempotent_read_def IDEMPOTENT_READS_def
      request_id_def shape_def)

lemmas service_eval = service_start_def arrive_def demo_key coalesce_begin_def join_def next_id_def upgrade_def
  update_flight_def singleflight_default_def Let_def with_flights_def set_stage_def demo_service_def demo_sf_def

lemma demo_service_reach: "service_reach demo_serde True (demo_service Running demo_entry)"
proof -
  let ?s1 = "\<lparr>shared = Some (demo_sf Running demo_entry), flight_bodies = [''{eth_call''],
    clients = [\<lparr>req_body = ''{eth_call'', req_uuid = 1, req_stage = Waiting 0 Leader\<rparr>], service_log = []\<rparr>"
  let ?s2 = "\<lparr>shared = Some ((demo_sf Running demo_entry)\<lparr>flights :=
      [\<lparr>fl_key = 10, fl_id = 0, fl_leader = 1, fl_holders = 2, fl_phase = Running\<rparr>]\<rparr>),
    flight_bodies = [''{eth_call''],
    clients = [\<lparr>req_body = ''{eth_call'', req_uuid = 1, req_stage = Waiting 0 Leader\<rparr>,
      \<lparr>req_body = ''{eth_call'', req_uuid = 2, req_stage = Waiting 0 (Follower 1)\<rparr>], service_log = []\<rparr>"
  have 1: "service_step demo_serde (Arrive 1 ''{eth_call'') (service_start True) = Some ?s1"
    by (simp add: service_eval)
  have 2: "service_step demo_serde (Arrive 2 ''{eth_call'') ?s1 = Some ?s2"
    by (simp add: service_eval)
  have 3: "service_step demo_serde (Leaves 0) ?s2 = Some (demo_service Running demo_entry)"
    by (simp add: service_eval)
  show ?thesis
    by (rule service_next [OF service_next [OF service_next [OF service_begin 1] 2] 3])
qed

lemma demo_waits:
  "shared (demo_service p es) = Some (demo_sf p es)" "length (flights (demo_sf p es)) \<le> 2 ^ 64"
  "1 < length (clients (demo_service p es))"
  "req_stage (clients (demo_service p es) ! 1) = Waiting 0 (Follower 1)"
  by (simp_all add: demo_service_def demo_sf_def)

theorem sharers_ask_the_same_witness:
  "\<exists>m p. question demo_serde (req_body (clients (demo_service Running demo_entry) ! 1)) = Some (m, p) \<and>
     is_idempotent_read m"
  using sharers_ask_the_same [OF demo_service_reach demo_waits] by blast

theorem nobody_waits_in_vain_witness:
  "service_step demo_serde (FlightEnds 0 demo_reply) (demo_service Running demo_entry) \<noteq> None"
  using nobody_waits_in_vain [OF demo_service_reach demo_waits] by (simp add: demo_sf_def)

lemma demo_takes:
  "\<exists>s'. service_step sj (Takes 1) (demo_service (Finished demo_reply) []) = Some s'"
  by (simp add: demo_service_def demo_sf_def with_flights_def split_beta)

text \<open>The leader's body can be readdressed, or does not read as a map.\<close>

theorem follower_gets_own_id_witness:
  "(\<exists>s'. service_step demo_serde (Takes 1) (demo_service (Finished demo_reply) []) = Some s' \<and>
      req_stage (clients s' ! 1) = Replied \<lparr>resp_status = 200,
        resp_content_type = Some ''application/json'', resp_body = ''7''\<rparr>) \<and>
   (\<exists>s'. service_step (demo_serde\<lparr>de_raw_map := \<lambda>_. None\<rparr>) (Takes 1) (demo_service (Finished demo_reply) []) = Some s' \<and>
      req_stage (clients s' ! 1) = Alone \<and> service_log s' = [])"
proof
  obtain s' where s': "service_step demo_serde (Takes 1) (demo_service (Finished demo_reply) []) = Some s'"
    using demo_takes by blast
  have "request_id demo_serde (req_body (clients (demo_service (Finished demo_reply) []) ! 1)) = Some ''7''"
    by (simp add: demo_service_def demo_key)
  with follower_gets_own_id [OF s' demo_waits(4,1), of demo_reply] s'
  show "\<exists>s'. service_step demo_serde (Takes 1) (demo_service (Finished demo_reply) []) = Some s' \<and>
      req_stage (clients s' ! 1) = Replied \<lparr>resp_status = 200,
        resp_content_type = Some ''application/json'', resp_body = ''7''\<rparr>"
    by (simp add: demo_sf_def demo_reply_def demo_serde_def)
next
  let ?sj = "demo_serde\<lparr>de_raw_map := \<lambda>_. None\<rparr>"
  obtain s' where s': "service_step ?sj (Takes 1) (demo_service (Finished demo_reply) []) = Some s'"
    using demo_takes by blast
  with follower_gets_own_id [OF s' demo_waits(4,1), of demo_reply]
  show "\<exists>s'. service_step ?sj (Takes 1) (demo_service (Finished demo_reply) []) = Some s' \<and>
      req_stage (clients s' ! 1) = Alone \<and> service_log s' = []"
    by (auto simp: demo_sf_def demo_service_def split: option.splits)
qed

end
