(* ===== verification/Dispatch.thy ===== *)
theory Dispatch
  imports Walker Service
begin

text \<open>
  One run of a request (\<open>run\<close> and \<open>finish\<close> of \<open>src/proxy/mod.rs\<close>) as a step machine over the three
  dispatches: the walk and the single send of the theory \<open>Walker\<close> and the race of the theory \<open>Hedge\<close>.
  It can be dropped between two steps. The theory counts the attempts: each one that began is told to
  the observer exactly once, as recorded or as abandoned, however the run goes on and whenever it is
  dropped; and it shows that \<open>run_request\<close> of the theory \<open>Pipeline\<close> is what such runs return.
\<close>

subsection \<open>The machine\<close>

datatype running = Walking walker | Racing race | Sending sender

datatype run_event = WalkEvent walk_event | RaceEvent race_event | SendEvent sent duration

definition run_begin :: "core \<Rightarrow> bytes \<Rightarrow> upstream list \<Rightarrow> duration \<Rightarrow> running" where
  "run_begin c m chain t =
     (case (core_dispatch c, is_write_method m) of
        (Hedged, False) \<Rightarrow> Racing (race_start chain (max_attempt c) t)
      | (Hedged, True) \<Rightarrow> Sending (send_begin chain t)
      | (Sequential, _) \<Rightarrow> Walking (walk_begin c chain t))"

fun run_step :: "serde \<Rightarrow> core \<Rightarrow> upstream list \<Rightarrow> run_event \<Rightarrow> running \<Rightarrow> running option" where
  "run_step sj c chain (WalkEvent ev) (Walking s) = map_option Walking (walk_step sj c ev s)"
| "run_step sj c chain (RaceEvent ev) (Racing s) = map_option Racing (race_step sj chain (max_attempt c) ev s)"
| "run_step sj c chain (SendEvent sent t) (Sending s) = map_option Sending (send_step sj sent t s)"
| "run_step sj c chain _ _ = None"

text \<open>What the run has told the observer, and what dropping it now adds.\<close>

fun run_log :: "running \<Rightarrow> obs_event list" where
  "run_log (Walking s) = wk_log s"
| "run_log (Racing s) = race_log s"
| "run_log (Sending s) = sd_log s"

fun run_now :: "running \<Rightarrow> duration" where
  "run_now (Walking s) = wk_now s"
| "run_now (Racing s) = race_now s"
| "run_now (Sending s) = sd_now s"

fun run_drop :: "duration \<Rightarrow> running \<Rightarrow> obs_event list" where
  "run_drop t (Walking s) = walk_drop t s"
| "run_drop t (Racing s) = drop_lanes t (inflight s)"
| "run_drop t (Sending s) = send_drop t s"

text \<open>How a run ended, with the report of a hedge that won; then it reports itself and replies.\<close>

fun run_finished :: "upstream list \<Rightarrow> running \<Rightarrow> (finished \<times> obs_event list) option" where
  "run_finished chain (Walking s) = map_option (\<lambda>fin. (fin, [])) (walk_finished s)"
| "run_finished chain (Racing s) = map_option (\<lambda>r. (race_finished chain r, race_win_log chain r)) (outcome s)"
| "run_finished chain (Sending s) =
     (case sd_phase s of SendDone fin \<Rightarrow> Some (fin, []) | SendCalling _ _ \<Rightarrow> None)"

definition run_ended ::
  "serde \<Rightarrow> upstream list \<Rightarrow> bytes \<Rightarrow> duration \<Rightarrow> running \<Rightarrow> (reply \<times> obs_event list) option" where
  "run_ended sj chain m received_at s =
     map_option
       (\<lambda>(fin, win). (finish sj fin,
          win @ [Request m (fin_ok (fin_result fin)) (length (fin_tried fin)) (run_now s - received_at)]))
       (run_finished chain s)"

fun run_exec :: "serde \<Rightarrow> core \<Rightarrow> upstream list \<Rightarrow> run_event list \<Rightarrow> running \<Rightarrow> running option" where
  "run_exec sj c chain [] s = Some s"
| "run_exec sj c chain (ev # evs) s = Option.bind (run_step sj c chain ev s) (run_exec sj c chain evs)"

inductive run_reach :: "serde \<Rightarrow> core \<Rightarrow> bytes \<Rightarrow> upstream list \<Rightarrow> running \<Rightarrow> bool" for sj c m chain where
  run_first: "run_reach sj c m chain (run_begin c m chain t)"
| run_next: "run_reach sj c m chain s \<Longrightarrow> run_step sj c chain ev s = Some s' \<Longrightarrow> run_reach sj c m chain s'"

subsection \<open>The attempts that began\<close>

text \<open>
  The walk and the single send begin their first attempt at once, a race with the first poll of a call;
  a walk begins each other one when it wakes from a pause.
\<close>

fun begins :: "run_event \<Rightarrow> bool" where
  "begins (WalkEvent (Woke _)) = True"
| "begins (RaceEvent (Polled _ _)) = True"
| "begins _ = False"

definition begun_at_once :: "core \<Rightarrow> bytes \<Rightarrow> upstream list \<Rightarrow> nat" where
  "begun_at_once c m chain = (if chain = [] \<or> core_dispatch c = Hedged \<and> \<not> is_write_method m then 0 else 1)"

definition open_lanes :: "lane list \<Rightarrow> nat" where
  "open_lanes ls = length (filter (\<lambda>l. lane_attempt l \<noteq> None) ls)"

fun open_attempts :: "running \<Rightarrow> nat" where
  "open_attempts (Walking s) = (case wk_phase s of Calling _ _ \<Rightarrow> 1 | _ \<Rightarrow> 0)"
| "open_attempts (Racing s) = open_lanes (inflight s)"
| "open_attempts (Sending s) = (case sd_phase s of SendCalling _ _ \<Rightarrow> 1 | _ \<Rightarrow> 0)"

definition reported :: "running \<Rightarrow> nat" where
  "reported s = length (attempt_uids (run_log s))"

text \<open>A dropped call in flight is one abandoned attempt when it had begun.\<close>

lemma drop_lanes_length:
  assumes "\<forall>l \<in> set ls. \<forall>a. lane_attempt l = Some a \<longrightarrow> armed a"
  shows "length (attempt_uids (drop_lanes t ls)) = open_lanes ls"
  using assms by (induction ls) (auto simp: drop_lanes_def attempt_drop_def open_lanes_def split: option.split)

definition race_count :: "race \<Rightarrow> nat" where
  "race_count s = length (attempt_uids (race_log s)) + open_lanes (inflight s)"

definition armed_lanes :: "race \<Rightarrow> bool" where
  "armed_lanes s \<longleftrightarrow> (\<forall>l \<in> set (inflight s). \<forall>a. lane_attempt l = Some a \<longrightarrow> armed a)"

lemma count_return: "armed_lanes s \<Longrightarrow> race_count (return_raced r t s) = race_count s"
  by (simp add: race_count_def return_raced_def armed_lanes_def drop_lanes_length) (simp add: open_lanes_def)

lemma count_head: "armed_lanes s \<Longrightarrow> race_count (loop_head chain cap t s) = race_count s"
  by (simp add: loop_head_def count_return) (simp add: race_count_def)

lemma count_launch:
  "race_count (launch chain i c t s) = race_count s" "armed_lanes (launch chain i c t s) = armed_lanes s"
  by (auto simp: race_count_def launch_def open_lanes_def armed_lanes_def split: cause.split)

lemma count_frame [simp]:
  "race_count (s\<lparr>launched := n\<rparr>) = race_count s" "race_count (s\<lparr>hedge_count := h\<rparr>) = race_count s"
  "race_count (s\<lparr>last_failure := f\<rparr>) = race_count s" "race_count (s\<lparr>race_now := t\<rparr>) = race_count s"
  "armed_lanes (s\<lparr>launched := n\<rparr>) = armed_lanes s" "armed_lanes (s\<lparr>hedge_count := h\<rparr>) = armed_lanes s"
  "armed_lanes (s\<lparr>last_failure := f\<rparr>) = armed_lanes s" "armed_lanes (s\<lparr>race_now := t\<rparr>) = armed_lanes s"
  by (simp_all add: race_count_def armed_lanes_def)

lemma count_answer: "armed_lanes s \<Longrightarrow> race_count (on_answer chain cap l r t s) = race_count s"
  by (auto simp: on_answer_def Let_def count_return count_head count_launch split: sum.split cause.split)

lemma count_timer: "armed_lanes s \<Longrightarrow> race_count (on_timer chain cap t s) = race_count s"
  by (simp add: on_timer_def count_head count_launch)

lemma race_armed: "race_ok chain cap s \<Longrightarrow> armed_lanes s"
  by (auto simp: race_ok_def run_inv_def base_inv_def lane_ok_def armed_lanes_def done_inv_def)

lemma open_lanes_remove:
  assumes "k < length ls"
  shows "open_lanes ls = open_lanes (remove_at k ls) + (if lane_attempt (ls ! k) = None then 0 else 1)"
proof -
  have "ls = take k ls @ ls ! k # drop (Suc k) ls" using assms by (rule id_take_nth_drop)
  then have "open_lanes ls = open_lanes (take k ls @ ls ! k # drop (Suc k) ls)" by (rule arg_cong)
  then show ?thesis by (simp add: open_lanes_def remove_at_def)
qed

lemma open_lanes_poll:
  assumes "k < length ls" "lane_attempt (ls ! k) = None"
  shows "open_lanes (ls[k := (ls ! k)\<lparr>lane_attempt := Some a\<rparr>]) = open_lanes ls + 1"
proof -
  have "ls[k := (ls ! k)\<lparr>lane_attempt := Some a\<rparr>] =
      take k ls @ (ls ! k)\<lparr>lane_attempt := Some a\<rparr> # drop (Suc k) ls"
    using assms(1) by (rule upd_conv_take_nth_drop)
  moreover have "open_lanes ls = open_lanes (remove_at k ls)" using open_lanes_remove [OF assms(1)] assms(2) by simp
  ultimately show ?thesis by (simp add: open_lanes_def remove_at_def)
qed

lemma race_step_count:
  assumes ok: "race_ok chain cap s" and step: "race_step sj chain cap ev s = Some s'"
  shows "race_count s' = race_count s + (if begins (RaceEvent ev) then 1 else 0)"
proof (cases ev)
  case (Polled k t)
  with step have k: "k < length (inflight s)" and n: "lane_attempt (inflight s ! k) = None"
    and s': "s' = s\<lparr>race_now := t, inflight := (inflight s)[k := (inflight s ! k)
      \<lparr>lane_attempt := Some (attempt_start (uid (chain ! lane_index (inflight s ! k))) t)\<rparr>]\<rparr>"
    by (auto simp: Let_def split: if_splits option.splits)
  with Polled open_lanes_poll [OF k n] show ?thesis by (simp add: race_count_def)
next
  case (Answered k sent t)
  with step obtain a r calls where k: "k < length (inflight s)"
    and a: "lane_attempt (inflight s ! k) = Some a"
    and f: "try_finish sj (chain ! lane_index (inflight s ! k)) sent t a = (r, calls)"
    and s': "s' = on_answer chain cap (inflight s ! k) r t (s\<lparr>race_now := t,
      inflight := remove_at k (inflight s), race_log := race_log s @ calls\<rparr>)"
    by (auto simp: Let_def split: if_splits option.splits prod.splits)
  let ?s = "s\<lparr>race_now := t, inflight := remove_at k (inflight s), race_log := race_log s @ calls\<rparr>"
  have "armed_lanes ?s"
    using race_armed [OF ok] remove_at_set [of k "inflight s"] by (auto simp: armed_lanes_def)
  then have "race_count s' = race_count ?s" unfolding s' by (rule count_answer)
  moreover obtain rec where "calls = [Record (att_upstream a) rec]" using f by (rule try_finish_record)
  ultimately show ?thesis
    using Answered open_lanes_remove [OF k] a by (simp add: race_count_def)
next
  case (Timer t)
  with step race_armed [OF ok] show ?thesis by (auto simp: count_timer split: if_splits)
qed

lemma race_start_count: "race_count (race_start chain cap t) = 0"
proof -
  have z: "race_count (race_init\<lparr>race_now := t\<rparr>) = 0" "armed_lanes (race_init\<lparr>race_now := t\<rparr>)"
    by (simp_all add: race_count_def race_init_def open_lanes_def armed_lanes_def)
  then show ?thesis by (auto simp: race_start_def count_head count_launch)
qed

subsection \<open>The states of a run\<close>

fun run_ok :: "core \<Rightarrow> upstream list \<Rightarrow> running \<Rightarrow> bool" where
  "run_ok c chain (Walking s) = walk_ok c chain s"
| "run_ok c chain (Racing s) = race_ok chain (max_attempt c) s"
| "run_ok c chain (Sending s) = send_ok chain s"

lemma run_begin_ok: "run_ok c chain (run_begin c m chain t)"
  by (simp add: run_begin_def walk_begin_ok start_ok send_begin_ok split: dispatch.split bool.split)

lemma run_step_ok: "run_ok c chain s \<Longrightarrow> run_step sj c chain ev s = Some s' \<Longrightarrow> run_ok c chain s'"
  by (cases "(sj, c, chain, ev, s)" rule: run_step.cases)
    (auto intro: walk_step_ok race_step_ok send_step_ok)

lemma run_reach_ok: "run_reach sj c m chain s \<Longrightarrow> run_ok c chain s"
  by (induction rule: run_reach.induct) (auto intro: run_begin_ok run_step_ok)

lemma run_exec_reach:
  "run_exec sj c chain evs s = Some s' \<Longrightarrow> run_reach sj c m chain s \<Longrightarrow> run_reach sj c m chain s'"
  by (induction evs arbitrary: s) (auto simp: bind_eq_Some_conv intro: run_next)

text \<open>Every attempt that began is open or reported.\<close>

fun run_count :: "running \<Rightarrow> nat" where
  "run_count (Walking s) = length (wk_tried s)"
| "run_count (Racing s) = race_count s"
| "run_count (Sending s) = length (attempt_uids (sd_log s)) + open_attempts (Sending s)"

lemma walk_head_tried: "wk_tried s \<noteq> [] \<Longrightarrow> wk_tried (walk_head c s) = wk_tried s"
  by (auto simp: walk_head_def split: list.split)

lemma walk_step_tried:
  assumes "walk_ok c chain s" "walk_step sj c ev s = Some s'"
  shows "length (wk_tried s') = length (wk_tried s) + (if begins (WalkEvent ev) then 1 else 0)"
proof (cases ev)
  case (Woke t)
  with assms show ?thesis by (auto simp: walk_call_def split: walk_phase.splits if_splits)
next
  case (Returned sent t)
  with assms(2) obtain u a where ph: "wk_phase s = Calling u a"
    by (auto split: walk_phase.splits)
  then have "wk_tried s \<noteq> []" using assms(1) by (auto simp: walk_ok_def Let_def)
  with Returned assms(2) ph show ?thesis
    by (auto simp: Let_def walk_head_tried split: if_splits prod.splits sum.splits)
qed

lemma run_step_count:
  assumes "run_ok c chain s" "run_step sj c chain ev s = Some s'"
  shows "run_count s' = run_count s + (if begins ev then 1 else 0)"
proof (cases "(sj, c, chain, ev, s)" rule: run_step.cases)
  case (1 sj c chain ev s)
  with assms show ?thesis using walk_step_tried by auto
next
  case (2 sj c chain ev s)
  with assms show ?thesis using race_step_count by auto
next
  case (3 sj c chain sent t s)
  with assms obtain s1 where st: "send_step sj sent t s = Some s1" "s' = Sending s1" by auto
  then obtain u a where ph: "sd_phase s = SendCalling u a"
    by (auto simp: send_step_def split: send_phase.splits)
  obtain r calls where f: "try_finish sj u sent t a = (r, calls)" by fastforce
  then obtain rec where "calls = [Record (att_upstream a) rec]" by (rule try_finish_record)
  with st ph f 3 show ?thesis by (auto simp: send_step_def Let_def split: if_splits)
qed (use assms in auto)

lemma run_exec_count:
  assumes "run_ok c chain s" "run_exec sj c chain evs s = Some s'"
  shows "run_count s' = run_count s + length (filter begins evs)"
  using assms
proof (induction evs arbitrary: s)
  case (Cons ev evs)
  then obtain s1 where s1: "run_step sj c chain ev s = Some s1" "run_exec sj c chain evs s1 = Some s'"
    by (auto simp: bind_eq_Some_conv)
  with Cons run_step_count [OF Cons.prems(1) s1(1)] run_step_ok [OF Cons.prems(1) s1(1)] show ?case by auto
qed simp

lemma run_begin_count:
  assumes "0 < max_attempt c"
  shows "run_count (run_begin c m chain t) = begun_at_once c m chain"
proof (cases "core_dispatch c")
  case Sequential
  with assms show ?thesis
    by (cases chain) (auto simp: run_begin_def begun_at_once_def walk_begin_def walk_head_def walk_call_def)
next
  case Hedged
  then show ?thesis
    by (cases chain; cases "is_write_method m")
      (auto simp: run_begin_def begun_at_once_def race_start_count send_begin_def)
qed

text \<open>What the observer has been told once the run is dropped.\<close>

lemma walk_drop_uids: "walk_ok c chain s \<Longrightarrow> attempt_uids (wk_log s @ walk_drop t s) = wk_tried s"
  by (auto simp: walk_ok_def Let_def walk_drop_def attempt_drop_def split: walk_phase.splits)

lemma take_min: "k \<le> min (length xs) n \<Longrightarrow> set (take k xs) \<subseteq> set (take n xs)"
  by (rule set_take_subset_set_take) simp

lemma run_drop_facts:
  assumes "run_ok c chain s" "0 < max_attempt c"
  shows "length (attempt_uids (run_log s @ run_drop t s)) = run_count s \<and>
    (distinct (map uid chain) \<longrightarrow> distinct (attempt_uids (run_log s @ run_drop t s))) \<and>
    set (attempt_uids (run_log s @ run_drop t s)) \<subseteq> uid ` set (take (max_attempt c) chain)"
proof (cases s)
  case (Walking s')
  with assms have ok: "walk_ok c chain s'" by simp
  then have "wk_tried s' = map uid (take (length (wk_tried s')) chain)"
    "length (wk_tried s') \<le> min (length chain) (max_attempt c)" by (simp_all add: walk_ok_def Let_def)
  then show ?thesis
    using Walking walk_drop_uids [OF ok, of t] take_min
    by (metis (mono_tags, lifting) distinct_take image_mono list.set_map run_count.simps(1) run_drop.simps(1)
        run_log.simps(1) take_map)
next
  case (Racing s')
  with assms have ok: "race_ok chain (max_attempt c) s'" by simp
  have len: "length (attempt_uids (race_log s' @ drop_lanes t (inflight s'))) = race_count s'"
    using drop_lanes_length race_armed [OF ok] by (simp add: race_count_def armed_lanes_def)
  have "(distinct (map uid chain) \<longrightarrow> distinct (attempt_uids (race_log s' @ drop_lanes t (inflight s')))) \<and>
    set (attempt_uids (race_log s' @ drop_lanes t (inflight s'))) \<subseteq> uid ` set (take (launched s') chain) \<and>
    launched s' \<le> race_limit chain (max_attempt c)"
  proof (cases "outcome s'")
    case None
    with ok have b: "base_inv chain (max_attempt c) s'" by (auto simp: race_ok_def run_inv_def done_inv_def)
    then show ?thesis
      using return_counts(4) [OF b, of t] return_counts(5) [OF b, of t] by (simp add: base_inv_def)
  next
    case (Some r)
    with ok have "done_inv chain (max_attempt c) s'" by (auto simp: race_ok_def run_inv_def)
    then show ?thesis by (simp add: done_inv_def drop_lanes_def)
  qed
  then have d: "distinct (map uid chain) \<longrightarrow> distinct (attempt_uids (race_log s' @ drop_lanes t (inflight s')))"
    and sub: "set (attempt_uids (race_log s' @ drop_lanes t (inflight s'))) \<subseteq> uid ` set (take (launched s') chain)"
    and l: "launched s' \<le> min (length chain) (max_attempt c)" unfolding race_limit_def by blast+
  have "uid ` set (take (launched s') chain) \<subseteq> uid ` set (take (max_attempt c) chain)"
    by (rule image_mono [OF take_min [OF l]])
  with sub have "set (attempt_uids (race_log s' @ drop_lanes t (inflight s'))) \<subseteq>
      uid ` set (take (max_attempt c) chain)" by (rule subset_trans)
  then show ?thesis unfolding Racing run_log.simps run_drop.simps run_count.simps
    by (intro conjI len d)
next
  case (Sending s')
  with assms have "send_ok chain s'" by simp
  with Sending assms(2) show ?thesis
    by (cases chain) (auto simp: send_ok_def send_drop_def attempt_drop_def take_Cons' split: send_phase.splits)
qed

lemma run_log_no_request:
  assumes "run_reach sj c m chain s"
  shows "\<not> list_ex is_request (run_log s @ run_drop t s)"
proof -
  have step: "run_reach sj c m chain s \<Longrightarrow> \<not> list_ex is_request (run_log s) \<and>
      (\<forall>r. s = Racing r \<longrightarrow> race_reach sj chain (max_attempt c) r)"
  proof (induction rule: run_reach.induct)
    case (run_first t)
    have "race_reach sj chain (max_attempt c) (race_start chain (max_attempt c) t)" by (rule race_begin)
    from race_log_no_request [OF this] this show ?case
      by (auto simp: run_begin_def walk_begin_def walk_head_def walk_call_def send_begin_def
          split: dispatch.split bool.split list.split)
  next
    case (run_next s ev s')
    show ?case
    proof (cases "(sj, c, chain, ev, s)" rule: run_step.cases)
      case (1 sj' c' chain' ev' r)
      with run_next show ?thesis
        by (cases ev')
          (auto simp: walk_call_def walk_head_def Let_def try_finish_def attempt_finish_def attempt_drop_def
            split: walk_phase.splits if_splits sum.splits list.splits)
    next
      case (2 sj' c' chain' ev' r)
      with run_next obtain r' where r': "race_step sj chain (max_attempt c) ev' r = Some r'" "s' = Racing r'"
        "race_reach sj chain (max_attempt c) r" by auto
      then have "race_reach sj chain (max_attempt c) r'" by (metis race_next)
      with r' race_log_no_request show ?thesis by auto
    next
      case (3 sj' c' chain' sent t r)
      with run_next show ?thesis
        by (auto simp: send_step_def Let_def try_finish_def attempt_finish_def attempt_drop_def
            split: send_phase.splits if_splits)
    qed (use run_next in auto)
  qed
  have "\<not> list_ex is_request (run_drop t s)"
    by (cases s) (auto simp: walk_drop_def send_drop_def attempt_drop_def split: walk_phase.split send_phase.split)
  with step [OF assms] show ?thesis by simp
qed

text \<open>
  C6: No attempt is lost: however far a run has got when it is dropped (its client hung up, or it has
  ended by itself), each attempt that began has been told to the observer exactly once, as recorded or
  as abandoned. They are on different upstreams, all among the first \<open>max_attempt\<close> of the chain. The
  request itself is a different matter: a run that is dropped before its end has not counted it, whereas
  the comment on \<open>record_request\<close> and \<open>docs/metrics.md\<close> promise a count for each request that ran its
  own chain, however it ended.
\<close>

theorem no_attempt_lost:
  assumes "run_exec sj c chain evs (run_begin c m chain t0) = Some s" "0 < max_attempt c"
    and "distinct (map uid chain)"
  shows "length (attempt_uids (run_log s @ run_drop t s)) = begun_at_once c m chain + length (filter begins evs) \<and>
    distinct (attempt_uids (run_log s @ run_drop t s)) \<and>
    set (attempt_uids (run_log s @ run_drop t s)) \<subseteq> uid ` set (take (max_attempt c) chain) \<and>
    \<not> list_ex is_request (run_log s @ run_drop t s)"
proof -
  have reach: "run_reach sj c m chain s" using run_exec_reach [OF assms(1) run_first] .
  have "run_count s = begun_at_once c m chain + length (filter begins evs)"
    using run_exec_count [OF run_begin_ok assms(1)] run_begin_count [OF assms(2)] by simp
  with run_drop_facts [OF run_reach_ok [OF reach] assms(2), of t] run_log_no_request [OF reach] assms(3)
  show ?thesis by simp
qed

subsection \<open>Runs and the function run_request\<close>

lemma run_exec_walk:
  "run_exec sj c chain (map WalkEvent evs) (Walking s) = map_option Walking (walk_run sj c evs s)"
proof (induction evs arbitrary: s)
  case (Cons ev evs)
  then show ?case by (cases "walk_step sj c ev s") simp_all
qed simp

lemma run_exec_race:
  "run_exec sj c chain (map RaceEvent evs) (Racing s) =
     map_option Racing (race_run sj chain (max_attempt c) evs s)"
proof (induction evs arbitrary: s)
  case (Cons ev evs)
  then show ?case by (cases "race_step sj chain (max_attempt c) ev s") simp_all
qed simp

text \<open>
  C13: A request's run as a function of the network and the schedule (\<open>run_request\<close>) is one of the step
  machine's runs to its end: the same reply, at the same time, with the same calls on the observer, the
  report of the request last.
\<close>

theorem run_request_is_run:
  assumes "run_request sj net c chain body received_at evs w = Some (reply, w')"
  shows "\<exists>revs s calls.
    run_exec sj c chain revs (run_begin c (method_label sj body) chain (now w)) = Some s \<and>
    run_ended sj chain (method_label sj body) received_at s = Some (reply, calls) \<and>
    log w' = log w @ run_log s @ calls \<and> now w' = run_now s"
proof -
  let ?m = "method_label sj body"
  from assms obtain fin w1 where reply: "reply = finish sj fin"
    and w': "w' = emit (Request ?m (fin_ok (fin_result fin)) (length (fin_tried fin)) (now w1 - received_at)) w1"
    and how: "(case (core_dispatch c, is_write_method ?m) of
        (Hedged, False) \<Rightarrow> core_race sj c chain evs w
      | (Hedged, True) \<Rightarrow> Some (send_once sj net chain body w)
      | (Sequential, _) \<Rightarrow> Some (walk sj net c chain body w)) = Some (fin, w1)"
    by (auto simp: run_request_def Let_def)
  have "\<exists>revs s win. run_exec sj c chain revs (run_begin c ?m chain (now w)) = Some s \<and>
      run_finished chain s = Some (fin, win) \<and> log w1 = log w @ run_log s @ win \<and> now w1 = run_now s"
  proof (cases "core_dispatch c")
    case Sequential
    with how have "walk sj net c chain body w = (fin, w1)" by simp
    from walk_is_run [OF this] obtain wevs s where "walk_run sj c wevs (walk_begin c chain (now w)) = Some s"
      "walk_finished s = Some fin" "now w1 = wk_now s" "log w1 = log w @ wk_log s" by blast
    with Sequential show ?thesis
      by (intro exI [of _ "map WalkEvent wevs"] exI [of _ "Walking s"] exI [of _ "[]"])
        (simp add: run_begin_def run_exec_walk)
  next
    case Hedged
    show ?thesis
    proof (cases "is_write_method ?m")
      case True
      with Hedged how have "send_once sj net chain body w = (fin, w1)" by simp
      from send_once_run [OF this] show ?thesis
      proof (elim disjE exE conjE)
        assume "sd_phase (send_begin chain (now w)) = SendDone fin" "w1 = w"
        with Hedged True show ?thesis
          by (intro exI [of _ "[]"] exI [of _ "Sending (send_begin chain (now w))"])
            (simp add: run_begin_def send_begin_def)
      next
        fix sent s
        assume "send_step sj sent (now w1) (send_begin chain (now w)) = Some s" "sd_phase s = SendDone fin"
          "now w1 = sd_now s" "log w1 = log w @ sd_log s"
        with Hedged True show ?thesis
          by (intro exI [of _ "[SendEvent sent (now w1)]"] exI [of _ "Sending s"] exI [of _ "[]"])
            (simp add: run_begin_def)
      qed
    next
      case False
      with Hedged how have "core_race sj c chain evs w = Some (fin, w1)" by simp
      then obtain s r where "race_run sj chain (max_attempt c) evs (race_start chain (max_attempt c) (now w)) = Some s"
        "outcome s = Some r" "fin = race_finished chain r"
        "w1 = \<lparr>now = race_now s, log = log w @ race_log s @ race_win_log chain r\<rparr>"
        by (auto simp: core_race_def bind_eq_Some_conv)
      with Hedged False show ?thesis
        by (intro exI [of _ "map RaceEvent evs"] exI [of _ "Racing s"] exI [of _ "race_win_log chain r"])
          (simp add: run_begin_def run_exec_race)
    qed
  qed
  then obtain revs s win where "run_exec sj c chain revs (run_begin c ?m chain (now w)) = Some s"
    "run_finished chain s = Some (fin, win)" "log w1 = log w @ run_log s @ win" "now w1 = run_now s" by blast
  then show ?thesis
    by (intro exI [of _ revs] exI [of _ s]) (simp add: run_ended_def reply w')
qed

subsection \<open>Concrete runs\<close>

definition demo_half :: running where
  "demo_half =
     Walking \<lparr>wk_rest = [], wk_tried = [UpstreamId ''a'', UpstreamId ''b''],
       wk_failure = Some (Unreachable ''down''),
       wk_phase = Calling (demo_upstream ''b'') \<lparr>att_upstream = UpstreamId ''b'', att_started = 15, armed = True\<rparr>,
       wk_now = 15,
       wk_log = [Record (UpstreamId ''a'') \<lparr>rec_duration = 5, rec_outcome = Inl (Unreachable ''down'')\<rparr>,
         Failover (UpstreamId ''a'')]\<rparr>"

lemma demo_half_walk:
  "run_exec demo_serde demo_core demo_chain [WalkEvent (Returned demo_down 5), WalkEvent (Woke 15)]
     (run_begin demo_core ''eth_call'' demo_chain 0) = Some demo_half"
  by (simp add: demo_half_def run_begin_def demo_core_def walk_begin_def walk_head_def walk_call_def
      try_finish_def upstream_call_def demo_calls Let_def attempt_start_def attempt_finish_def attempt_drop_def
      call_record_of_def demo_upstream_fields)

lemma demo_core_fields: "max_attempt demo_core = 2" "retry_after demo_core = 10" "core_dispatch demo_core = Sequential"
  by (simp_all add: demo_core_def)

text \<open>A walk dropped in its second call.\<close>

theorem no_attempt_lost_witness:
  "length (attempt_uids (run_log demo_half @ run_drop 17 demo_half)) = 2 \<and>
    run_drop 17 demo_half = [Abandoned (UpstreamId ''b'') 2]"
proof
  have "0 < max_attempt demo_core" "distinct (map uid demo_chain)"
    by (simp_all add: demo_core_fields demo_upstream_fields)
  then have "length (attempt_uids (run_log demo_half @ run_drop 17 demo_half)) =
      begun_at_once demo_core ''eth_call'' demo_chain +
      length (filter begins [WalkEvent (Returned demo_down 5), WalkEvent (Woke 15)])"
    using no_attempt_lost [OF demo_half_walk, of 17] by blast
  then show "length (attempt_uids (run_log demo_half @ run_drop 17 demo_half)) = 2"
    by (simp add: begun_at_once_def demo_core_fields)
qed (simp add: demo_half_def walk_drop_def attempt_drop_def)

theorem run_request_is_run_witness:
  "\<exists>revs s calls. run_exec demo_serde demo_core (map demo_upstream [''a'', ''b'', ''c'']) revs
      (run_begin demo_core (method_label demo_serde ''{}'') (map demo_upstream [''a'', ''b'', ''c'']) 0) = Some s \<and>
    run_ended demo_serde (map demo_upstream [''a'', ''b'', ''c'']) (method_label demo_serde ''{}'') 0 s =
      Some (demo_reply, calls)"
  using run_request_is_run [OF demo_request] by auto

end
