(* ===== verification/ServiceSteps.thy ===== *)
theory ServiceSteps
  imports Service
begin

text \<open>
  What one step of the service leaves alone: bodies never change, a live flight stays live unless it
  completes or loses its last handle, a request stays on its own until it ends or leaves, a finished
  flight keeps its reply. The whole-application theory \<open>System\<close> carries its runs along these facts.
\<close>

lemma nth_update_in: "h < length xs \<Longrightarrow> xs[a := v] ! h = (if a = h then v else xs ! h)"
  by simp

lemma join_flights_live:
  assumes "h < length (flights sf)" "live (flights sf ! h)"
  shows "h < length (flights (snd (join k me sf))) \<and> live (flights (snd (join k me sf)) ! h)"
  using assms
  by (auto simp: join_def next_id_def Let_def live_def nth_append nth_update_in split: option.split)

lemma sf_step_live:
  assumes "sf_step ev sf = Some sf'" "h < length (flights sf)" "live (flights sf ! h)"
    and "\<And>a. ev \<noteq> Complete h a" "ev = HangUp h \<Longrightarrow> 1 < fl_holders (flights sf ! h)"
  shows "h < length (flights sf') \<and> live (flights sf' ! h)"
proof (cases ev)
  case (Join k me)
  with assms(1) have "sf' = snd (join k me sf)" by simp
  with join_flights_live [OF assms(2,3)] show ?thesis by simp
next
  case (Complete g a)
  with assms show ?thesis by (cases "g = h") (auto simp: nth_update_in split: if_splits)
next
  case (HangUp g)
  with assms show ?thesis by (cases "g = h") (auto simp: live_def nth_update_in split: if_splits)
next
  case (Evicted g)
  with assms show ?thesis by (cases "g = h") (auto simp: live_def nth_update_in split: if_splits)
qed

lemma sf_step_finished:
  assumes "sf_step ev sf = Some sf'" "h < length (flights sf')" "fl_phase (flights sf' ! h) = Finished r"
  shows "ev = Complete h r \<or> h < length (flights sf) \<and> fl_phase (flights sf ! h) = Finished r"
proof (cases ev)
  case (Join k me)
  with assms show ?thesis
    by (auto simp: join_def next_id_def Let_def nth_append nth_update_in split: option.splits if_splits)
next
  case (Complete g a)
  with assms show ?thesis by (cases "g = h") (auto split: if_splits)
next
  case (HangUp g)
  with assms show ?thesis by (cases "g = h") (auto split: if_splits)
next
  case (Evicted g)
  with assms show ?thesis by (cases "g = h") (auto split: if_splits)
qed

subsection \<open>The flights of a service\<close>

definition live_flight :: "nat \<Rightarrow> service \<Rightarrow> bool" where
  "live_flight h s \<longleftrightarrow> h < length (flights_of s) \<and> live (flights_of s ! h)"

definition alone :: "nat \<Rightarrow> service \<Rightarrow> bool" where
  "alone i s \<longleftrightarrow> i < length (clients s) \<and> req_stage (clients s ! i) = Alone"

text \<open>The step of the flights a step of the service makes, if any.\<close>

lemma service_flight_step:
  assumes "service_step sj ev s = Some s'"
  obtains (none) "shared s' = shared s"
  | (step) fev sf sf' where "shared s = Some sf" "shared s' = Some sf'" "sf_step fev sf = Some sf'"
      "\<And>h a. fev = Complete h a \<Longrightarrow> ev = FlightEnds h a"
      "\<And>h. fev = HangUp h \<Longrightarrow> \<exists>i r. (ev = Leaves i \<or> ev = Takes i \<and> (\<exists>x. fl_phase (flights sf ! h) = Finished x)) \<and>
         i < length (clients s) \<and> req_stage (clients s ! i) = Waiting h r"
proof (cases ev)
  case (Arrive me body)
  with assms have s': "s' = arrive sj me body s" by simp
  show thesis
  proof (cases rule: arrive_cases [of sj me body s])
    case (idle st)
    then show thesis by (intro none) (simp add: s')
  next
    case (join sf sf' key h r)
    then show thesis by (intro step [of sf sf' "Join key me"]) (simp_all add: s')
  qed
next
  case (FlightEnds h a)
  with assms obtain sf sf' where "shared s = Some sf" "sf_step (Complete h a) sf = Some sf'"
    "s' = s\<lparr>shared := Some sf'\<rparr>" by (auto simp: with_flights_Some simp del: sf_step.simps)
  with FlightEnds show thesis by (intro step [of sf sf' "Complete h a"]) simp_all
next
  case (GuardRuns h)
  with assms obtain sf sf' where "shared s = Some sf" "sf_step (Evicted h) sf = Some sf'"
    "s' = s\<lparr>shared := Some sf'\<rparr>" by (auto simp: with_flights_Some simp del: sf_step.simps)
  then show thesis by (intro step [of sf sf' "Evicted h"]) simp_all
next
  case (AloneEnds i a)
  with assms show thesis by (intro none) (auto split: if_splits)
next
  case (Leaves i)
  with assms have i: "i < length (clients s)" by (auto split: if_splits)
  show thesis
  proof (cases "req_stage (clients s ! i)")
    case (Waiting h r)
    with assms i Leaves obtain sf sf' where "shared s = Some sf" "sf_step (HangUp h) sf = Some sf'"
      "s' = set_stage i Gone (s\<lparr>shared := Some sf'\<rparr>)"
      by (auto simp: with_flights_Some simp del: sf_step.simps)
    with Waiting i Leaves show thesis by (intro step [of sf sf' "HangUp h"]) auto
  qed (use assms i Leaves in \<open>auto intro: none\<close>)
next
  case (Takes i)
  with assms have "service_step sj (Takes i) s = Some s'" by simp
  from takes_step [OF this] obtain h r sf sf' reply st lg where t: "i < length (clients s)"
    "req_stage (clients s ! i) = Waiting h r" "shared s = Some sf" "fl_phase (flights sf ! h) = Finished reply"
    "sf_step (HangUp h) sf = Some sf'" "s' = set_stage i st (s\<lparr>shared := Some sf', service_log := lg\<rparr>)" by blast
  with Takes show thesis by (intro step [of sf sf' "HangUp h"]) (auto simp del: sf_step.simps)
qed

lemma service_live:
  assumes st: "service_step sj ev s = Some s'" and live: "live_flight h s"
    and "\<And>a. ev \<noteq> FlightEnds h a"
    and last: "\<And>i r. ev = Leaves i \<Longrightarrow> i < length (clients s) \<Longrightarrow> req_stage (clients s ! i) = Waiting h r \<Longrightarrow>
      1 < fl_holders (flights_of s ! h)"
  shows "live_flight h s'"
  using st
proof (cases rule: service_flight_step)
  case none
  with live show ?thesis by (simp add: live_flight_def flights_of_def)
next
  case (step fev sf sf')
  have l: "h < length (flights sf)" "live (flights sf ! h)"
    using live step(1) by (simp_all add: live_flight_def flights_of_def)
  have "h < length (flights sf') \<and> live (flights sf' ! h)"
  proof (rule sf_step_live [OF step(3) l])
    show "fev \<noteq> Complete h a" for a using step(4) assms(3) by blast
    assume "fev = HangUp h"
    from step(5) [OF this] obtain i r where i: "i < length (clients s)" "req_stage (clients s ! i) = Waiting h r"
      and ev: "ev = Leaves i \<or> ev = Takes i \<and> (\<exists>x. fl_phase (flights sf ! h) = Finished x)" by blast
    from ev l(2) have "ev = Leaves i" by (auto simp: live_def)
    from last [OF this i] step(1) show "1 < fl_holders (flights sf ! h)" by (simp add: flights_of_def)
  qed
  then show ?thesis using step(2) by (simp add: live_flight_def flights_of_def)
qed

lemma service_finished:
  assumes "service_step sj ev s = Some s'" "h < length (flights_of s')"
    and "fl_phase (flights_of s' ! h) = Finished r"
  shows "ev = FlightEnds h r \<or> h < length (flights_of s) \<and> fl_phase (flights_of s ! h) = Finished r"
  using assms(1)
proof (cases rule: service_flight_step)
  case none
  with assms show ?thesis by (simp add: flights_of_def)
next
  case (step fev sf sf')
  with assms(2,3) have "h < length (flights sf')" "fl_phase (flights sf' ! h) = Finished r"
    by (simp_all add: flights_of_def)
  from sf_step_finished [OF step(3) this] step show ?thesis by (auto simp: flights_of_def)
qed

subsection \<open>The requests of a service\<close>

lemma service_clients:
  assumes st: "service_step sj ev s = Some s'" and i: "i < length (clients s)"
  shows "i < length (clients s')" "req_body (clients s' ! i) = req_body (clients s ! i)"
    "req_stage (clients s' ! i) \<noteq> req_stage (clients s ! i) \<Longrightarrow> ev = Leaves i \<or> ev = Takes i \<or> (\<exists>a. ev = AloneEnds i a)"
proof -
  have "i < length (clients s') \<and> req_body (clients s' ! i) = req_body (clients s ! i) \<and>
    (req_stage (clients s' ! i) \<noteq> req_stage (clients s ! i) \<longrightarrow>
      ev = Leaves i \<or> ev = Takes i \<or> (\<exists>a. ev = AloneEnds i a))"
  proof (cases ev)
    case (Arrive me body)
    with st have s': "s' = arrive sj me body s" by simp
    show ?thesis
      by (cases rule: arrive_cases [of sj me body s]) (use i in \<open>auto simp: s' nth_append\<close>)
  next
    case (Takes j)
    with st have "service_step sj (Takes j) s = Some s'" by simp
    from takes_step [OF this] obtain st sf' lg where
      "s' = set_stage j st (s\<lparr>shared := Some sf', service_log := lg\<rparr>)" by blast
    with i Takes show ?thesis by (auto simp: nth_update_in)
  next
    case (Leaves j)
    with st i show ?thesis
      by (auto simp: with_flights_Some nth_update_in simp del: sf_step.simps split: if_splits stage.splits)
  next
    case (AloneEnds j a)
    with st i show ?thesis by (auto simp: nth_update_in split: if_splits)
  next
    case (FlightEnds h a)
    with st i show ?thesis by (auto simp: with_flights_Some simp del: sf_step.simps)
  next
    case (GuardRuns h)
    with st i show ?thesis by (auto simp: with_flights_Some simp del: sf_step.simps)
  qed
  then show "i < length (clients s')" "req_body (clients s' ! i) = req_body (clients s ! i)"
    "req_stage (clients s' ! i) \<noteq> req_stage (clients s ! i) \<Longrightarrow> ev = Leaves i \<or> ev = Takes i \<or> (\<exists>a. ev = AloneEnds i a)"
    by blast+
qed

lemma service_alone:
  assumes "service_step sj ev s = Some s'" "alone i s" "ev \<noteq> Leaves i" "\<And>a. ev \<noteq> AloneEnds i a"
  shows "alone i s'"
proof -
  have i: "i < length (clients s)" "req_stage (clients s ! i) = Alone" using assms(2) by (simp_all add: alone_def)
  have "ev \<noteq> Takes i"
  proof
    assume "ev = Takes i"
    with assms(1) have "service_step sj (Takes i) s = Some s'" by simp
    from takes_step [OF this] i(2) show False by auto
  qed
  with service_clients [OF assms(1) i(1)] i(2) assms(3,4) show ?thesis by (auto simp: alone_def)
qed

text \<open>The bodies the flights have captured.\<close>

lemma service_bodies:
  assumes "service_step sj ev s = Some s'" "h < length (flight_bodies s)"
  shows "flight_bodies s' ! h = flight_bodies s ! h" "h < length (flight_bodies s')"
proof -
  have "flight_bodies s' ! h = flight_bodies s ! h \<and> h < length (flight_bodies s')"
  proof (cases ev)
    case (Arrive me body)
    with assms(1) have s': "s' = arrive sj me body s" by simp
    show ?thesis
      by (cases rule: arrive_cases [of sj me body s]) (use assms(2) in \<open>auto simp: s' nth_append\<close>)
  next
    case (Takes j)
    with assms(1) have "service_step sj (Takes j) s = Some s'" by simp
    from takes_step [OF this] assms(2) show ?thesis by auto
  next
    case (Leaves j)
    with assms show ?thesis
      by (auto simp: with_flights_Some simp del: sf_step.simps split: if_splits stage.splits)
  next
    case (AloneEnds j a)
    with assms show ?thesis by (auto split: if_splits)
  next
    case (FlightEnds g a)
    with assms show ?thesis by (auto simp: with_flights_Some simp del: sf_step.simps)
  next
    case (GuardRuns g)
    with assms show ?thesis by (auto simp: with_flights_Some simp del: sf_step.simps)
  qed
  then show "flight_bodies s' ! h = flight_bodies s ! h" "h < length (flight_bodies s')" by blast+
qed

lemma service_bodies_length:
  "service_inv sj s \<Longrightarrow> shared s = Some sf \<Longrightarrow> length (flight_bodies s) = length (flights sf)"
  by (simp add: service_inv_def shared_inv_def)

end
