(* ===== verification/Ranking.thy ===== *)
theory Ranking
  imports Decider Observer
begin

text \<open>
  \<open>src/decider/window.rs\<close>, the two refreshers \<open>src/decider/prefer_least_errors/refresher.rs\<close> and
  \<open>src/decider/least_latency/refresher.rs\<close>, and the constructors of the two deciders they rank for.
  A refresh reads the observer's snapshots, scores each upstream over the window, sorts the ranking
  (stably) and slides the window. What the two refreshers share is the locale \<open>margin_ranking\<close>.
\<close>

subsection \<open>The window\<close>

type_synonym snapshot_table = "(upstream_id \<times> snapshot) list"

record window =
  baselines :: "snapshot_table list"
  ticks :: nat
  tick :: duration

definition window_new :: "snapshot_table \<Rightarrow> nat \<Rightarrow> duration \<Rightarrow> window" where
  "window_new seed t tk = \<lparr>baselines = [seed], ticks = t, tick = tk\<rparr>"

text \<open>\<open>None\<close> is the panic of \<open>expect\<close>, and of a product of durations that overflows.\<close>

definition oldest :: "window \<Rightarrow> snapshot_table option" where
  "oldest w = (case baselines w of [] \<Rightarrow> None | b # _ \<Rightarrow> Some b)"

definition ticks_held :: "window \<Rightarrow> nat" where
  "ticks_held w = length (baselines w)"

definition MAX_DURATION :: duration where
  "MAX_DURATION = (2 ^ 64 - 1) * 1000000000 + 999999999"

definition duration_times :: "duration \<Rightarrow> nat \<Rightarrow> duration option" where
  "duration_times d k = (let n = d * (k mod 2 ^ 32) in if n \<le> MAX_DURATION then Some n else None)"

definition span :: "window \<Rightarrow> duration option" where
  "span w = duration_times (tick w) (ticks_held w)"

definition wanted_span :: "window \<Rightarrow> duration option" where
  "wanted_span w = duration_times (tick w) (ticks w)"

definition is_full :: "window \<Rightarrow> bool" where
  "is_full w \<longleftrightarrow> ticks w \<le> ticks_held w"

definition advance :: "snapshot_table \<Rightarrow> window \<Rightarrow> window" where
  "advance current w =
     (let pushed = baselines w @ [current]
      in w\<lparr>baselines := (if ticks w < length pushed then tl pushed else pushed)\<rparr>)"

lemma advance_frame [simp, frame_simps]:
  "ticks (advance c w) = ticks w" "tick (advance c w) = tick w"
  by (simp_all add: advance_def Let_def)

text \<open>A window that is used: it holds at least one baseline and at most \<open>ticks\<close>.\<close>

definition window_ok :: "window \<Rightarrow> bool" where
  "window_ok w \<longleftrightarrow> 0 < ticks_held w \<and> ticks_held w \<le> ticks w"

lemma window_new_ok: "0 < t \<Longrightarrow> window_ok (window_new seed t tk)"
  by (simp add: window_ok_def window_new_def ticks_held_def)

lemma advance_ok: "window_ok w \<Longrightarrow> window_ok (advance c w)"
  by (auto simp: window_ok_def advance_def ticks_held_def Let_def)

lemma oldest_ok: "window_ok w \<Longrightarrow> \<exists>b. oldest w = Some b"
  by (auto simp: window_ok_def ticks_held_def oldest_def split: list.split)

lemma window_run:
  assumes "0 < t"
  shows "baselines (foldl (\<lambda>w c. advance c w) (window_new seed t tk) cs) =
      drop (length cs + 1 - t) (seed # cs) \<and>
    ticks (foldl (\<lambda>w c. advance c w) (window_new seed t tk) cs) = t"
proof (induction cs rule: rev_induct)
  case Nil
  with assms show ?case by (simp add: window_new_def)
next
  case (snoc c cs)
  let ?w = "foldl (\<lambda>w c. advance c w) (window_new seed t tk) cs"
  have b: "baselines ?w = drop (length cs + 1 - t) (seed # cs)" and t: "ticks ?w = t"
    using snoc.IH by simp_all
  show ?case
  proof (cases "t \<le> length cs + 1")
    case True
    have "tl (drop (length cs + 1 - t) (seed # cs) @ [c]) = tl (drop (length cs + 1 - t) (seed # cs @ [c]))"
      using assms drop_append [of "length cs + 1 - t" "seed # cs" "[c]"] by simp
    also have "\<dots> = drop (Suc (length cs + 1 - t)) (seed # cs @ [c])"
      by (simp only: drop_Suc tl_drop)
    also have "Suc (length cs + 1 - t) = length (cs @ [c]) + 1 - t" using True by simp
    finally show ?thesis using True b t assms by (simp add: advance_def Let_def)
  next
    case False
    with b t show ?thesis by (simp add: advance_def Let_def)
  qed
qed

text \<open>
  The window slides: after any number of refreshes it holds the last \<open>ticks\<close> of the snapshots
  pushed (the seed first), so the oldest one, which scores are measured against, is the snapshot
  taken \<open>ticks\<close> refreshes ago, or the seed while there have been fewer.
\<close>

theorem window_slides:
  assumes "0 < t"
  shows "oldest (foldl (\<lambda>w c. advance c w) (window_new seed t tk) cs) =
    Some ((seed # cs) ! (length cs + 1 - t))"
proof -
  let ?i = "length cs + 1 - t"
  have "drop ?i (seed # cs) = (seed # cs) ! ?i # drop (Suc ?i) (seed # cs)"
    using assms by (intro Cons_nth_drop_Suc [symmetric]) simp
  with window_run [OF assms, of seed tk cs] show ?thesis by (simp add: oldest_def)
qed

theorem window_slides_witness:
  "oldest (foldl (\<lambda>w c. advance c w) (window_new [] 2 15)
      [[(UpstreamId ''a'', default_snapshot)], [(UpstreamId ''b'', default_snapshot)]]) =
   Some [(UpstreamId ''a'', default_snapshot)]"
  using window_slides [of 2 "[]" 15
      "[[(UpstreamId ''a'', default_snapshot)], [(UpstreamId ''b'', default_snapshot)]]"]
  by simp

subsection \<open>Sort keys\<close>

datatype 'k sort_key = SortKey (key_unscored: bool) (key_score: 'k)

text \<open>\<open>SortKey::cmp\<close>: unscored last, then by score.\<close>

instantiation sort_key :: (linorder) linorder
begin

definition less_eq_sort_key :: "'a sort_key \<Rightarrow> 'a sort_key \<Rightarrow> bool" where
  "less_eq_sort_key a b \<longleftrightarrow> key_unscored a < key_unscored b \<or>
     key_unscored a = key_unscored b \<and> key_score a \<le> key_score b"

definition less_sort_key :: "'a sort_key \<Rightarrow> 'a sort_key \<Rightarrow> bool" where
  "less_sort_key a b \<longleftrightarrow> key_unscored a < key_unscored b \<or>
     key_unscored a = key_unscored b \<and> key_score a < key_score b"

instance
proof
  fix a b c :: "'a sort_key"
  show "a < b \<longleftrightarrow> a \<le> b \<and> \<not> b \<le> a"
    by (auto simp: less_eq_sort_key_def less_sort_key_def)
  show "a \<le> a" by (simp add: less_eq_sort_key_def)
  show "a \<le> b \<Longrightarrow> b \<le> c \<Longrightarrow> a \<le> c" by (auto simp: less_eq_sort_key_def)
  show "a \<le> b \<Longrightarrow> b \<le> a \<Longrightarrow> a = b"
    by (auto simp: less_eq_sort_key_def intro: sort_key.expand)
  show "a \<le> b \<or> b \<le> a" by (auto simp: less_eq_sort_key_def)
qed

end

definition scored :: "'k \<Rightarrow> 'k sort_key" where
  "scored k = SortKey False k"

definition unscored :: "'k :: zero sort_key" where
  "unscored = SortKey True 0"

subsection \<open>The refreshers\<close>

definition PROMOTION_MARGIN :: f64 where "PROMOTION_MARGIN = rnd (1 / 5)"
definition MIN_WINDOW_SAMPLES :: u64 where "MIN_WINDOW_SAMPLES = 20"
definition REFRESH_DEFAULT :: duration where "REFRESH_DEFAULT = 15 * 1000000000"
definition WINDOW_DEFAULT :: nat where "WINDOW_DEFAULT = 4"

record ranking_refresher =
  rf_window :: window
  rf_interval :: duration
  rf_min_samples :: u64
  rf_margin :: f64

record latency_refresher = ranking_refresher +
  rf_penalty :: duration

text \<open>What the window says of one upstream: \<open>None\<close> when one of the two tables lacks it.\<close>

definition window_of :: "snapshot_table \<Rightarrow> snapshot_table \<Rightarrow> upstream_id \<Rightarrow> stats_diff option" where
  "window_of current baseline i =
     (case (map_of current i, map_of baseline i) of
        (Some c, Some b) \<Rightarrow> Some (snapshot_diff c b)
      | _ \<Rightarrow> None)"

definition ple_key ::
  "u64 \<Rightarrow> f64 \<Rightarrow> upstream_id option \<Rightarrow> (upstream_id \<Rightarrow> stats_diff option) \<Rightarrow> upstream \<Rightarrow> f64 sort_key" where
  "ple_key min_samples margin incumbent win u =
     (case win (uid u) of
        None \<Rightarrow> unscored
      | Some w \<Rightarrow>
          if diff_answered w < min_samples then unscored
          else if incumbent = Some (uid u) then scored (f64_mul (error_rate w) (f64_sub 1 margin))
          else scored (error_rate w))"

definition ll_key ::
  "u64 \<Rightarrow> f64 \<Rightarrow> duration \<Rightarrow> upstream_id option \<Rightarrow> (upstream_id \<Rightarrow> stats_diff option) \<Rightarrow> upstream \<Rightarrow>
     duration sort_key" where
  "ll_key min_samples margin penalty incumbent win u =
     (case win (uid u) of
        None \<Rightarrow> unscored
      | Some w \<Rightarrow>
          (case (if diff_calls w < min_samples then None else latency_score w penalty) of
             None \<Rightarrow> unscored
           | Some score \<Rightarrow>
               if incumbent = Some (uid u) then scored (mul_f64 score (f64_sub 1 margin))
               else scored score))"

definition incumbent_of :: "upstream list \<Rightarrow> upstream_id option" where
  "incumbent_of ranking = (case ranking of [] \<Rightarrow> None | u # _ \<Rightarrow> Some (uid u))"

text \<open>
  One refresh, from the observer as it is at the tick. The spans are only logged, but computing them
  can panic, so they are part of whether the refresh ends.
\<close>

definition ple_refresh ::
  "metrics_observer \<Rightarrow> ranking_refresher \<times> prefer_least_errors \<Rightarrow>
     (ranking_refresher \<times> prefer_least_errors) option" where
  "ple_refresh obs st =
     (case st of (rf, d) \<Rightarrow>
        let current = snapshot_map obs;
            ranking = ple_ranking d
        in (case (oldest (rf_window rf), span (rf_window rf), wanted_span (rf_window rf)) of
              (Some baseline, Some _, Some _) \<Rightarrow>
                let key = ple_key (rf_min_samples rf) (rf_margin rf) (incumbent_of ranking)
                            (window_of current baseline)
                in Some (rf\<lparr>rf_window := advance current (rf_window rf)\<rparr>,
                         d\<lparr>ple_ranking := sort_key key ranking\<rparr>)
            | _ \<Rightarrow> None))"

definition ll_refresh ::
  "metrics_observer \<Rightarrow> latency_refresher \<times> least_latency \<Rightarrow> (latency_refresher \<times> least_latency) option" where
  "ll_refresh obs st =
     (case st of (rf, d) \<Rightarrow>
        let current = snapshot_map obs;
            ranking = ll_ranking d
        in (case (oldest (rf_window rf), span (rf_window rf), wanted_span (rf_window rf)) of
              (Some baseline, Some _, Some _) \<Rightarrow>
                let key = ll_key (rf_min_samples rf) (rf_margin rf) (rf_penalty rf)
                            (incumbent_of ranking) (window_of current baseline)
                in Some (rf\<lparr>rf_window := advance current (rf_window rf)\<rparr>,
                         d\<lparr>ll_ranking := sort_key key ranking\<rparr>)
            | _ \<Rightarrow> None))"

text \<open>
  The \<open>run\<close> loop: the ticker's first tick is skipped, then one refresh per tick until shutdown, here
  with the observer as each tick finds it. A panic ends the task.
\<close>

fun run_loop :: "(metrics_observer \<Rightarrow> 's \<Rightarrow> 's option) \<Rightarrow> metrics_observer list \<Rightarrow> 's \<Rightarrow> 's option" where
  "run_loop refresh [] st = Some st"
| "run_loop refresh (obs # later) st =
     (case refresh obs st of None \<Rightarrow> None | Some st' \<Rightarrow> run_loop refresh later st')"

subsection \<open>The constructors\<close>

fun unknown_upstream :: "metrics_observer \<Rightarrow> upstream list \<Rightarrow> upstream_id option" where
  "unknown_upstream obs [] = None"
| "unknown_upstream obs (u # ups) =
     (if snapshot_of obs (uid u) = None then Some (uid u) else unknown_upstream obs ups)"

definition ple_new ::
  "upstream list \<Rightarrow> metrics_observer \<Rightarrow> duration option \<Rightarrow> nat option \<Rightarrow>
     (decider_error, ranking_refresher \<times> prefer_least_errors) result" where
  "ple_new ups obs refresh win =
     (let refresh = (case refresh of Some r \<Rightarrow> r | None \<Rightarrow> REFRESH_DEFAULT);
          win = (case win of Some w \<Rightarrow> w | None \<Rightarrow> WINDOW_DEFAULT)
      in if ups = [] then Inl EmptyUpstreams
         else if win = 0 then Inl ZeroWindow
         else (case unknown_upstream obs ups of
                 Some i \<Rightarrow> Inl (UnknownUpstream i)
               | None \<Rightarrow>
                   Inr (\<lparr>rf_window = window_new (snapshot_map obs) win refresh, rf_interval = refresh,
                         rf_min_samples = MIN_WINDOW_SAMPLES, rf_margin = PROMOTION_MARGIN\<rparr>,
                        \<lparr>ple_ranking = ups\<rparr>)))"

definition ll_new ::
  "upstream list \<Rightarrow> metrics_observer \<Rightarrow> duration \<Rightarrow> duration option \<Rightarrow> nat option \<Rightarrow> u64 option \<Rightarrow>
     (decider_error, latency_refresher \<times> least_latency) result" where
  "ll_new ups obs penalty refresh win min_samples =
     (let refresh = (case refresh of Some r \<Rightarrow> r | None \<Rightarrow> REFRESH_DEFAULT);
          win = (case win of Some w \<Rightarrow> w | None \<Rightarrow> WINDOW_DEFAULT);
          min_samples = (case min_samples of Some m \<Rightarrow> m | None \<Rightarrow> MIN_WINDOW_SAMPLES)
      in if ups = [] then Inl EmptyUpstreams
         else if win = 0 then Inl ZeroWindow
         else (case unknown_upstream obs ups of
                 Some i \<Rightarrow> Inl (UnknownUpstream i)
               | None \<Rightarrow>
                   Inr (\<lparr>rf_window = window_new (snapshot_map obs) win refresh, rf_interval = refresh,
                         rf_min_samples = min_samples, rf_margin = PROMOTION_MARGIN,
                         rf_penalty = penalty\<rparr>,
                        \<lparr>ll_ranking = ups, ll_requests = 0\<rparr>)))"

end
