(* ===== verification/Refresher.thy ===== *)
theory Refresher
  imports Ranking
begin

text \<open>
  What a refresh does to the ranking. The locale \<open>margin_ranking\<close> is what the two refreshers have in
  common: a score per window, a discount for the incumbent that never worsens it, and a stable sort.
  It is interpreted on the error rate (least errors) and on the mean latency (least latency).
\<close>

subsection \<open>Stable sorting\<close>

lemma sorted_key_head:
  assumes "xs \<noteq> []" "x \<in> set xs"
  shows "key (hd (sort_key key xs)) \<le> (key x :: 'k :: linorder)"
proof -
  obtain y ys where ys: "sort_key key xs = y # ys"
    using assms(1) by (metis length_0_conv length_sort list.exhaust)
  have "sorted (map key (y # ys))" using sorted_sort_key [of key xs] by (simp add: ys)
  moreover have "x \<in> set (y # ys)" using assms(2) set_sort [of key xs] by (simp add: ys)
  ultimately show ?thesis by (auto simp: ys)
qed

text \<open>A new first element has a strictly smaller key than the old first one.\<close>

lemma leader_change:
  assumes "hd (sort_key key (x # xs)) \<noteq> x"
  shows "key (hd (sort_key key (x # xs))) < (key x :: 'k :: linorder)"
proof (rule ccontr)
  let ?s = "sort_key key (x # xs)"
  assume "\<not> key (hd ?s) < key x"
  then have e: "key (hd ?s) = key x" using sorted_key_head [of "x # xs" x key] by simp
  have ne: "?s \<noteq> []" by (metis length_0_conv length_sort list.distinct(1))
  have "filter (\<lambda>y. key y = key x) ?s = filter (\<lambda>y. key y = key x) (x # xs)"
    by (rule sort_key_stable)
  then have "hd (filter (\<lambda>y. key y = key x) ?s) = x" by simp
  moreover have "hd (filter (\<lambda>y. key y = key x) ?s) = hd ?s"
    using ne e by (cases ?s) simp_all
  ultimately show False using assms by simp
qed

subsection \<open>Ranking with a margin\<close>

text \<open>The key of an upstream, over the score of its window.\<close>

definition margin_key ::
  "('w \<Rightarrow> 'k :: zero option) \<Rightarrow> ('k \<Rightarrow> 'k) \<Rightarrow> upstream_id option \<Rightarrow> (upstream_id \<Rightarrow> 'w option) \<Rightarrow> upstream \<Rightarrow>
     'k sort_key" where
  "margin_key raw discount incumbent win u =
     (case Option.bind (win (uid u)) raw of
        None \<Rightarrow> unscored
      | Some k \<Rightarrow> scored (if incumbent = Some (uid u) then discount k else k))"

locale margin_ranking =
  fixes raw :: "'w \<Rightarrow> 'k :: {linorder, zero} option"
    and discount :: "'k \<Rightarrow> 'k"
    and key :: "upstream_id option \<Rightarrow> (upstream_id \<Rightarrow> 'w option) \<Rightarrow> upstream \<Rightarrow> 'k sort_key"
  assumes discount_le: "raw w = Some k \<Longrightarrow> discount k \<le> k"
    and key_margin: "key = margin_key raw discount"
begin

lemma key_less:
  assumes "key inc win h < key inc win u" "inc = Some (uid u)" "uid h \<noteq> uid u"
  shows "\<exists>k. Option.bind (win (uid h)) raw = Some k \<and>
    (\<forall>k0. Option.bind (win (uid u)) raw = Some k0 \<longrightarrow> k < discount k0)"
  using assms
  by (auto simp: key_margin margin_key_def scored_def unscored_def less_sort_key_def split: option.splits)

text \<open>Taking the lead: the newcomer is scored and beats the discounted score of the incumbent.\<close>

lemma new_leader:
  assumes "ranking = u # rest" "h = hd (sort_key (key (incumbent_of ranking) win) ranking)"
    and "uid h \<noteq> uid u"
  shows "\<exists>k. Option.bind (win (uid h)) raw = Some k \<and>
    (\<forall>k0. Option.bind (win (uid u)) raw = Some k0 \<longrightarrow> k < discount k0)"
proof (rule key_less)
  have "hd (sort_key (key (incumbent_of ranking) win) (u # rest)) \<noteq> u"
    using assms(2,3) unfolding assms(1) by (metis (full_types))
  then show "key (incumbent_of ranking) win h < key (incumbent_of ranking) win u"
    unfolding assms(2) assms(1) by (rule leader_change)
  show "incumbent_of ranking = Some (uid u)" by (simp add: assms(1) incumbent_of_def)
  show "uid h \<noteq> uid u" by (rule assms(3))
qed

lemma new_leader_better:
  assumes "ranking = u # rest" "h = hd (sort_key (key (incumbent_of ranking) win) ranking)"
    and "uid h \<noteq> uid u" "Option.bind (win (uid u)) raw = Some k0"
  shows "\<exists>k. Option.bind (win (uid h)) raw = Some k \<and> k < k0"
proof -
  from assms(4) obtain w where "raw w = Some k0" by (auto simp: bind_eq_Some_conv)
  then have "discount k0 \<le> k0" by (rule discount_le)
  with new_leader [OF assms(1-3)] assms(4) show ?thesis by fastforce
qed

text \<open>Unscored upstreams come last, in the order they had.\<close>

lemma unscored_last:
  "i < j \<Longrightarrow> j < length ranking \<Longrightarrow>
   Option.bind (win (uid (sort_key (key inc win) ranking ! i))) raw = None \<Longrightarrow>
   Option.bind (win (uid (sort_key (key inc win) ranking ! j))) raw = None"
proof -
  let ?s = "sort_key (key inc win) ranking"
  assume ij: "i < j" "j < length ranking" and n: "Option.bind (win (uid (?s ! i))) raw = None"
  have "key inc win (?s ! i) \<le> key inc win (?s ! j)"
    using sorted_sort_key [of "key inc win" ranking] ij
    by (auto simp: sorted_iff_nth_mono)
  with n show ?thesis
    by (auto simp: key_margin margin_key_def unscored_def scored_def less_eq_sort_key_def split: option.splits)
qed

lemma unscored_stable:
  "filter (\<lambda>u. Option.bind (win (uid u)) raw = None) (sort_key (key inc win) ranking) =
   filter (\<lambda>u. Option.bind (win (uid u)) raw = None) ranking"
proof -
  have "(\<lambda>u. Option.bind (win (uid u)) raw = None) = (\<lambda>u. key inc win u = unscored)"
    by (auto simp: fun_eq_iff key_margin margin_key_def unscored_def scored_def split: option.splits)
  then show ?thesis by (simp add: sort_key_stable)
qed

end

subsection \<open>The two scores\<close>

definition ple_raw :: "u64 \<Rightarrow> stats_diff \<Rightarrow> f64 option" where
  "ple_raw min_samples w = (if diff_answered w < min_samples then None else Some (error_rate w))"

definition ll_raw :: "u64 \<Rightarrow> duration \<Rightarrow> stats_diff \<Rightarrow> duration option" where
  "ll_raw min_samples penalty w = (if diff_calls w < min_samples then None else latency_score w penalty)"

lemma ple_key_margin:
  "ple_key m margin = margin_key (ple_raw m) (\<lambda>r. f64_mul r (f64_sub 1 margin))"
  by (auto simp: fun_eq_iff ple_key_def margin_key_def ple_raw_def split: option.splits)

lemma ll_key_margin:
  "ll_key m margin p = margin_key (ll_raw m p) (\<lambda>d. mul_f64 d (f64_sub 1 margin))"
  by (auto simp: fun_eq_iff ll_key_def margin_key_def ll_raw_def split: option.splits)

text \<open>The factor \<open>1.0 - 0.20\<close> in doubles.\<close>

definition keep :: f64 where "keep = f64_sub 1 PROMOTION_MARGIN"

lemma keep_bounds: "4 / 5 * (1 - 1 / 2 ^ 52) \<le> keep" "keep \<le> 4 / 5 * (1 + 1 / 2 ^ 52)"
proof -
  have p: "1 / 5 * (1 - 1 / 2 ^ 53) \<le> PROMOTION_MARGIN" "PROMOTION_MARGIN \<le> 1 / 5 * (1 + 1 / 2 ^ 53)"
    using rnd_ge [of "1 / 5"] rnd_le [of "1 / 5"] by (simp_all add: PROMOTION_MARGIN_def)
  define x where "x = 1 - PROMOTION_MARGIN"
  have x: "0 \<le> x" "4 / 5 - 1 / 5 / 2 ^ 53 \<le> x" "x \<le> 4 / 5 + 1 / 5 / 2 ^ 53"
    using p by (simp_all add: x_def field_simps)
  have "x * (1 - 1 / 2 ^ 53) \<le> rnd x" "rnd x \<le> x * (1 + 1 / 2 ^ 53)"
    using rnd_ge [OF x(1)] rnd_le [OF x(1)] by simp_all
  with x(2,3) show "4 / 5 * (1 - 1 / 2 ^ 52) \<le> keep" "keep \<le> 4 / 5 * (1 + 1 / 2 ^ 52)"
    unfolding keep_def f64_sub_def x_def [symmetric] by (simp_all add: field_simps)
qed

lemma ple_discount: "0 \<le> r \<Longrightarrow> f64_mul r keep \<le> r * (4 / 5 * (1 + 1 / 2 ^ 50))"
proof -
  assume r: "0 \<le> r"
  have k: "0 \<le> keep" using keep_bounds(1) by (rule order_trans [rotated]) simp
  have "f64_mul r keep \<le> r * keep * (1 + 1 / 2 ^ 53)"
    unfolding f64_mul_def using r k by (intro rnd_le) simp
  also have "r * keep \<le> r * (4 / 5 * (1 + 1 / 2 ^ 52))"
    using r keep_bounds(2) by (intro mult_left_mono)
  also have "r * (4 / 5 * (1 + 1 / 2 ^ 52)) * (1 + 1 / 2 ^ 53) =
      r * (4 / 5 * (1 + 1 / 2 ^ 52) * (1 + 1 / 2 ^ 53))" by simp
  also have "\<dots> \<le> r * (4 / 5 * (1 + 1 / 2 ^ 50))"
    using r by (intro mult_left_mono) simp_all
  finally show ?thesis by simp
qed

lemma error_rate_nonneg: "0 \<le> error_rate w"
  by (simp add: error_rate_def Let_def f64_div_def rnd_nonneg)

lemma as_secs_f64_le: "as_secs_f64 d \<le> of_nat d / 1000000000 * (1 + 1 / 2 ^ 51)"
proof -
  define s n :: rat where "s = of_nat (d div 1000000000)" and "n = of_nat (d mod 1000000000)"
  define e :: rat where "e = 1 + 1 / 2 ^ 53"
  have sn: "0 \<le> s" "0 \<le> n" by (simp_all add: s_def n_def)
  have e1: "1 \<le> e" by (simp add: e_def)
  have d: "of_nat d = s * 1000000000 + n"
    unfolding s_def n_def by (metis div_mult_mod_eq of_nat_add of_nat_mult of_nat_numeral)
  have rs: "rnd s \<le> s * e" "rnd n \<le> n * e" using rnd_le sn by (simp_all add: e_def)
  have "f64_div (rnd n) 1000000000 \<le> rnd n / 1000000000 * e"
    unfolding f64_div_def e_def by (intro rnd_le) (simp add: rnd_nonneg)
  also have "\<dots> \<le> n * e / 1000000000 * e"
    using rs(2) e1 by (intro mult_right_mono divide_right_mono) simp_all
  finally have f: "f64_div (rnd n) 1000000000 \<le> n * e / 1000000000 * e" .
  have "0 \<le> f64_div (rnd n) 1000000000" by (simp add: f64_div_def rnd_nonneg)
  then have "as_secs_f64 d \<le> (rnd s + f64_div (rnd n) 1000000000) * e"
    unfolding as_secs_f64_def s_def [symmetric] n_def [symmetric] f64_add_def e_def
    by (intro rnd_le add_nonneg_nonneg rnd_nonneg)
  also have "\<dots> \<le> (s * e * e + n * e / 1000000000 * e) * e"
  proof (intro mult_right_mono add_mono f)
    have "s * e * 1 \<le> s * e * e" using sn(1) e1 by (intro mult_left_mono) simp_all
    with rs(1) show "rnd s \<le> s * e * e" by simp
  qed (use e1 in simp)
  also have "\<dots> = (s + n / 1000000000) * (e * e * e)" by (simp add: algebra_simps)
  also have "\<dots> \<le> (s + n / 1000000000) * (1 + 1 / 2 ^ 51)"
    using sn by (intro mult_left_mono) (simp_all add: e_def)
  finally show ?thesis by (simp add: d field_simps)
qed

lemma as_secs_f64_nonneg: "0 \<le> as_secs_f64 d"
  by (simp add: as_secs_f64_def f64_add_def rnd_nonneg)

lemma ll_scaled: "f64_mul keep (as_secs_f64 d) * 1000000000 \<le> of_nat d * (4 / 5 * (1 + 1 / 2 ^ 49))"
proof -
  have k: "0 \<le> keep" using keep_bounds(1) by (rule order_trans [rotated]) simp
  have "f64_mul keep (as_secs_f64 d) \<le> keep * as_secs_f64 d * (1 + 1 / 2 ^ 53)"
    unfolding f64_mul_def using k as_secs_f64_nonneg by (intro rnd_le) simp
  also have "keep * as_secs_f64 d \<le> 4 / 5 * (1 + 1 / 2 ^ 52) * (of_nat d / 1000000000 * (1 + 1 / 2 ^ 51))"
    using k as_secs_f64_nonneg as_secs_f64_le keep_bounds(2) by (intro mult_mono) simp_all
  finally have "f64_mul keep (as_secs_f64 d) * 1000000000 \<le>
      of_nat d * (4 / 5 * (1 + 1 / 2 ^ 52) * (1 + 1 / 2 ^ 51) * (1 + 1 / 2 ^ 53))"
    by (simp add: field_simps)
  also have "\<dots> \<le> of_nat d * (4 / 5 * (1 + 1 / 2 ^ 49))"
    by (intro mult_left_mono) simp_all
  finally show ?thesis .
qed

lemma mul_keep_le: "mul_f64 d keep \<le> d"
proof -
  have "f64_mul keep (as_secs_f64 d) * 1000000000 \<le> of_nat d * 1"
    by (rule order_trans [OF ll_scaled]) (intro mult_left_mono, simp_all)
  then have "round_even (f64_mul keep (as_secs_f64 d) * 1000000000) \<le> int d"
    by (intro round_even_le_int) simp
  then show ?thesis by (simp add: mul_f64_def from_secs_f64_def)
qed

lemma mul_keep_four_fifths:
  assumes "d \<le> 2 ^ 48"
  shows "5 * mul_f64 d keep \<le> 4 * d + 4"
proof -
  let ?x = "f64_mul keep (as_secs_f64 d) * 1000000000"
  have "(of_nat d :: rat) \<le> 2 ^ 48" using assms by (metis of_nat_le_iff of_nat_numeral of_nat_power)
  then have "of_nat d * (4 / 5 * (1 + 1 / 2 ^ 49)) \<le> (of_nat d :: rat) * 4 / 5 + 2 / 5" by simp
  with ll_scaled [of d] have "?x \<le> of_nat d * 4 / 5 + 2 / 5" by linarith
  moreover have "of_int (round_even ?x) \<le> ?x + 1 / 2" using round_even_error [of ?x] by linarith
  ultimately have "5 * of_int (round_even ?x) \<le> (4 * of_nat d + 9 / 2 :: rat)" by linarith
  then have "(of_int (5 * round_even ?x) :: rat) < of_int (4 * int d + 5)" by simp
  then have "5 * round_even ?x < 4 * int d + 5" by (simp only: of_int_less_iff)
  then show ?thesis by (simp add: mul_f64_def from_secs_f64_def)
qed


subsection \<open>The refreshers rank with a margin\<close>

interpretation ple_rank: margin_ranking "ple_raw m" "\<lambda>r. f64_mul r keep" "ple_key m PROMOTION_MARGIN"
  for m
proof unfold_locales
  fix w k
  assume "ple_raw m w = Some k"
  then have k: "0 \<le> k" using error_rate_nonneg by (auto simp: ple_raw_def split: if_splits)
  have "f64_mul k keep \<le> k * (4 / 5 * (1 + 1 / 2 ^ 50))" using k by (rule ple_discount)
  also have "\<dots> \<le> k * 1" using k by (intro mult_left_mono) simp_all
  finally show "f64_mul k keep \<le> k" by simp
qed (simp add: ple_key_margin keep_def)

interpretation ll_rank: margin_ranking "ll_raw m p" "\<lambda>d. mul_f64 d keep" "ll_key m PROMOTION_MARGIN p"
  for m p
  by unfold_locales (simp add: mul_keep_le, simp add: ll_key_margin keep_def)


subsection \<open>What a refresh does\<close>

lemma ple_refresh_Some:
  "ple_refresh obs (rf, d) = Some (rf', d') \<longleftrightarrow>
     (\<exists>baseline. oldest (rf_window rf) = Some baseline \<and> span (rf_window rf) \<noteq> None \<and>
        wanted_span (rf_window rf) \<noteq> None \<and>
        rf' = rf\<lparr>rf_window := advance (snapshot_map obs) (rf_window rf)\<rparr> \<and>
        d' = d\<lparr>ple_ranking :=
          sort_key (ple_key (rf_min_samples rf) (rf_margin rf) (incumbent_of (ple_ranking d))
            (window_of (snapshot_map obs) baseline)) (ple_ranking d)\<rparr>)"
  by (auto simp: ple_refresh_def Let_def split: option.splits)

lemma ll_refresh_Some:
  "ll_refresh obs (rf, d) = Some (rf', d') \<longleftrightarrow>
     (\<exists>baseline. oldest (rf_window rf) = Some baseline \<and> span (rf_window rf) \<noteq> None \<and>
        wanted_span (rf_window rf) \<noteq> None \<and>
        rf' = rf\<lparr>rf_window := advance (snapshot_map obs) (rf_window rf)\<rparr> \<and>
        d' = d\<lparr>ll_ranking :=
          sort_key (ll_key (rf_min_samples rf) (rf_margin rf) (rf_penalty rf) (incumbent_of (ll_ranking d))
            (window_of (snapshot_map obs) baseline)) (ll_ranking d)\<rparr>)"
  by (auto simp: ll_refresh_def Let_def split: option.splits)

text \<open>The window a refresh scores an upstream by.\<close>

definition scored_window :: "metrics_observer \<Rightarrow> 'r ranking_refresher_scheme \<Rightarrow> upstream_id \<Rightarrow> stats_diff option" where
  "scored_window obs rf i = Option.bind (oldest (rf_window rf)) (\<lambda>b. window_of (snapshot_map obs) b i)"

lemma ple_refresh_ranking:
  assumes "ple_refresh obs (rf, d) = Some (rf', d')" "rf_margin rf = PROMOTION_MARGIN"
  obtains b where "scored_window obs rf = window_of (snapshot_map obs) b"
    and "ple_ranking d' = sort_key (ple_key (rf_min_samples rf) PROMOTION_MARGIN
      (incumbent_of (ple_ranking d)) (window_of (snapshot_map obs) b)) (ple_ranking d)"
proof -
  from assms obtain b where "oldest (rf_window rf) = Some b"
    and "ple_ranking d' = sort_key (ple_key (rf_min_samples rf) PROMOTION_MARGIN
      (incumbent_of (ple_ranking d)) (window_of (snapshot_map obs) b)) (ple_ranking d)"
    by (auto simp: ple_refresh_Some)
  then show thesis by (intro that [of b]) (simp_all add: scored_window_def fun_eq_iff)
qed

lemma ll_refresh_ranking:
  assumes "ll_refresh obs (rf, d) = Some (rf', d')" "rf_margin rf = PROMOTION_MARGIN"
  obtains b where "scored_window obs rf = window_of (snapshot_map obs) b"
    and "ll_ranking d' = sort_key (ll_key (rf_min_samples rf) PROMOTION_MARGIN (rf_penalty rf)
      (incumbent_of (ll_ranking d)) (window_of (snapshot_map obs) b)) (ll_ranking d)"
proof -
  from assms obtain b where "oldest (rf_window rf) = Some b"
    and "ll_ranking d' = sort_key (ll_key (rf_min_samples rf) PROMOTION_MARGIN (rf_penalty rf)
      (incumbent_of (ll_ranking d)) (window_of (snapshot_map obs) b)) (ll_ranking d)"
    by (auto simp: ll_refresh_Some)
  then show thesis by (intro that [of b]) (simp_all add: scored_window_def fun_eq_iff)
qed

text \<open>The least errors score of an upstream at a refresh, before the margin.\<close>

definition ple_score :: "metrics_observer \<Rightarrow> ranking_refresher \<Rightarrow> upstream \<Rightarrow> f64 option" where
  "ple_score obs rf u = Option.bind (scored_window obs rf (uid u)) (ple_raw (rf_min_samples rf))"

definition ll_score :: "metrics_observer \<Rightarrow> latency_refresher \<Rightarrow> upstream \<Rightarrow> duration option" where
  "ll_score obs rf u =
     Option.bind (scored_window obs rf (uid u)) (ll_raw (rf_min_samples rf) (rf_penalty rf))"

text \<open>
  C24: Least errors changes its leader only for a clearly better one: an upstream that takes the lead
  had enough answered calls in the window, and, if the incumbent had enough too, an error rate below
  four fifths of the incumbent's (up to the rounding of the doubles).
\<close>

theorem ple_leader_margin:
  assumes "ple_refresh obs (rf, d) = Some (rf', d')" "rf_margin rf = PROMOTION_MARGIN"
    and "ple_ranking d = u # rest" "h = hd (ple_ranking d')" "uid h \<noteq> uid u"
  shows "\<exists>r. ple_score obs rf h = Some r \<and>
    (\<forall>r0. ple_score obs rf u = Some r0 \<longrightarrow> r < r0 * (4 / 5 * (1 + 1 / 2 ^ 50)))"
proof -
  from ple_refresh_ranking [OF assms(1,2)] obtain b
    where w: "scored_window obs rf = window_of (snapshot_map obs) b"
      and r: "ple_ranking d' = sort_key (ple_key (rf_min_samples rf) PROMOTION_MARGIN
        (incumbent_of (ple_ranking d)) (window_of (snapshot_map obs) b)) (ple_ranking d)" .
  have nonneg: "0 \<le> r0" if "ple_score obs rf u = Some r0" for r0
    using that error_rate_nonneg
    by (auto simp: ple_score_def ple_raw_def bind_eq_Some_conv split: if_splits)
  have "h = hd (sort_key (ple_key (rf_min_samples rf) PROMOTION_MARGIN
      (incumbent_of (ple_ranking d)) (window_of (snapshot_map obs) b)) (ple_ranking d))"
    using assms(4) r by simp
  from ple_rank.new_leader [OF assms(3) this assms(5)] obtain k
    where "ple_score obs rf h = Some k"
      and "\<And>r0. ple_score obs rf u = Some r0 \<Longrightarrow> k < f64_mul r0 keep"
    by (auto simp: ple_score_def w)
  with ple_discount nonneg show ?thesis by (meson order_less_le_trans)
qed

text \<open>
  C25: Least latency likewise: an upstream that takes the lead had enough calls in the window, and, if
  the incumbent had enough too (and a score below three days), a score of at most four fifths of the
  incumbent's, exactly: the rounding of the doubles never lets a worse one through.
\<close>

theorem ll_leader_margin:
  assumes "ll_refresh obs (rf, d) = Some (rf', d')" "rf_margin rf = PROMOTION_MARGIN"
    and "ll_ranking d = u # rest" "h = hd (ll_ranking d')" "uid h \<noteq> uid u"
  shows "\<exists>s. ll_score obs rf h = Some s \<and>
    (\<forall>s0. ll_score obs rf u = Some s0 \<longrightarrow> s0 \<le> 2 ^ 48 \<longrightarrow> 5 * s \<le> 4 * s0)"
proof -
  from ll_refresh_ranking [OF assms(1,2)] obtain b
    where w: "scored_window obs rf = window_of (snapshot_map obs) b"
      and r: "ll_ranking d' = sort_key (ll_key (rf_min_samples rf) PROMOTION_MARGIN (rf_penalty rf)
        (incumbent_of (ll_ranking d)) (window_of (snapshot_map obs) b)) (ll_ranking d)" .
  have "h = hd (sort_key (ll_key (rf_min_samples rf) PROMOTION_MARGIN (rf_penalty rf)
      (incumbent_of (ll_ranking d)) (window_of (snapshot_map obs) b)) (ll_ranking d))"
    using assms(4) r by simp
  from ll_rank.new_leader [OF assms(3) this assms(5)] obtain k
    where "ll_score obs rf h = Some k"
      and "\<And>s0. ll_score obs rf u = Some s0 \<Longrightarrow> k < mul_f64 s0 keep"
    by (auto simp: ll_score_def w)
  then show ?thesis using mul_keep_four_fifths by (intro exI [of _ k]) fastforce
qed


text \<open>
  C40: Upstreams with too few calls in the window go last, in the order they had: after a refresh of
  either decider none of them precedes a scored one and their relative order is unchanged.
\<close>

theorem unscored_go_last:
  assumes "ple_refresh obs (rf, d) = Some (rf', d')" "rf_margin rf = PROMOTION_MARGIN"
    and "ll_refresh obs (lf, e) = Some (lf', e')" "rf_margin lf = PROMOTION_MARGIN"
  shows "(\<forall>i j. i < j \<longrightarrow> j < length (ple_ranking d) \<longrightarrow>
      ple_score obs rf (ple_ranking d' ! i) = None \<longrightarrow> ple_score obs rf (ple_ranking d' ! j) = None) \<and>
    filter (\<lambda>u. ple_score obs rf u = None) (ple_ranking d') =
      filter (\<lambda>u. ple_score obs rf u = None) (ple_ranking d) \<and>
    (\<forall>i j. i < j \<longrightarrow> j < length (ll_ranking e) \<longrightarrow>
      ll_score obs lf (ll_ranking e' ! i) = None \<longrightarrow> ll_score obs lf (ll_ranking e' ! j) = None) \<and>
    filter (\<lambda>u. ll_score obs lf u = None) (ll_ranking e') =
      filter (\<lambda>u. ll_score obs lf u = None) (ll_ranking e)"
proof -
  from ple_refresh_ranking [OF assms(1,2)] obtain b
    where b: "scored_window obs rf = window_of (snapshot_map obs) b"
      and d': "ple_ranking d' = sort_key (ple_key (rf_min_samples rf) PROMOTION_MARGIN
        (incumbent_of (ple_ranking d)) (window_of (snapshot_map obs) b)) (ple_ranking d)" .
  from ll_refresh_ranking [OF assms(3,4)] obtain c
    where c: "scored_window obs lf = window_of (snapshot_map obs) c"
      and e': "ll_ranking e' = sort_key (ll_key (rf_min_samples lf) PROMOTION_MARGIN (rf_penalty lf)
        (incumbent_of (ll_ranking e)) (window_of (snapshot_map obs) c)) (ll_ranking e)" .
  show ?thesis
    unfolding ple_score_def ll_score_def b c d' e' ple_rank.unscored_stable ll_rank.unscored_stable
    using ple_rank.unscored_last [of _ _ "ple_ranking d" "window_of (snapshot_map obs) b"]
      ll_rank.unscored_last [of _ _ "ll_ranking e" "window_of (snapshot_map obs) c"]
    by simp
qed

subsection \<open>Running\<close>

lemma span_fits:
  assumes "window_ok w" "tick w * ticks w \<le> MAX_DURATION"
  shows "span w \<noteq> None" "wanted_span w \<noteq> None"
proof -
  have "tick w * (k mod 2 ^ 32) \<le> MAX_DURATION" if "k \<le> ticks w" for k
  proof -
    have "k mod 2 ^ 32 \<le> ticks w" using that mod_less_eq_dividend [of k "2 ^ 32"] by linarith
    then have "tick w * (k mod 2 ^ 32) \<le> tick w * ticks w" by (intro mult_left_mono) simp_all
    with assms(2) show ?thesis by linarith
  qed
  from this [of "ticks_held w"] this [of "ticks w"] assms(1)
  show "span w \<noteq> None" "wanted_span w \<noteq> None"
    by (simp_all add: span_def wanted_span_def duration_times_def Let_def window_ok_def)
qed

text \<open>A refresher that can run: a used window whose span fits a \<open>Duration\<close>.\<close>

definition can_run :: "'r ranking_refresher_scheme \<Rightarrow> bool" where
  "can_run rf \<longleftrightarrow> window_ok (rf_window rf) \<and> tick (rf_window rf) * ticks (rf_window rf) \<le> MAX_DURATION"

lemma can_run_advance: "can_run rf \<Longrightarrow> can_run (rf\<lparr>rf_window := advance c (rf_window rf)\<rparr>)"
  by (simp add: can_run_def advance_ok)

lemma ple_refresh_runs:
  assumes "can_run rf"
  shows "\<exists>rf' d'. ple_refresh obs (rf, d) = Some (rf', d') \<and> can_run rf' \<and>
    mset (ple_ranking d') = mset (ple_ranking d)"
proof -
  from assms oldest_ok obtain b where b: "oldest (rf_window rf) = Some b" by (auto simp: can_run_def)
  then show ?thesis
    using assms span_fits [of "rf_window rf"] can_run_advance [OF assms]
    by (auto simp: ple_refresh_Some can_run_def)
qed

lemma ll_refresh_runs:
  assumes "can_run rf"
  shows "\<exists>rf' d'. ll_refresh obs (rf, d) = Some (rf', d') \<and> can_run rf' \<and>
    mset (ll_ranking d') = mset (ll_ranking d) \<and> ll_requests d' = ll_requests d"
proof -
  from assms oldest_ok obtain b where b: "oldest (rf_window rf) = Some b" by (auto simp: can_run_def)
  then show ?thesis
    using assms span_fits [of "rf_window rf"] can_run_advance [OF assms]
    by (auto simp: ll_refresh_Some can_run_def)
qed

lemma ple_loop_runs:
  "can_run rf \<Longrightarrow> \<exists>rf' d'. run_loop ple_refresh seen (rf, d) = Some (rf', d') \<and> can_run rf' \<and>
    mset (ple_ranking d') = mset (ple_ranking d)"
proof (induction seen arbitrary: rf d)
  case (Cons obs seen)
  from ple_refresh_runs [OF Cons.prems] obtain rf1 d1
    where 1: "ple_refresh obs (rf, d) = Some (rf1, d1)" "can_run rf1"
      "mset (ple_ranking d1) = mset (ple_ranking d)" by blast
  with Cons.IH [OF 1(2), of d1] show ?case by auto
qed simp

lemma ll_loop_runs:
  "can_run rf \<Longrightarrow> \<exists>rf' d'. run_loop ll_refresh seen (rf, d) = Some (rf', d') \<and> can_run rf' \<and>
    mset (ll_ranking d') = mset (ll_ranking d) \<and> ll_requests d' = ll_requests d"
proof (induction seen arbitrary: rf d)
  case (Cons obs seen)
  from ll_refresh_runs [OF Cons.prems] obtain rf1 d1
    where 1: "ll_refresh obs (rf, d) = Some (rf1, d1)" "can_run rf1"
      "mset (ll_ranking d1) = mset (ll_ranking d)" "ll_requests d1 = ll_requests d" by blast
  with Cons.IH [OF 1(2), of d1] show ?case by auto
qed simp

lemma ple_new_can_run:
  "ple_new ups obs refresh win = Inr (rf, d) \<Longrightarrow>
   (case refresh of Some r \<Rightarrow> r | None \<Rightarrow> REFRESH_DEFAULT) *
     (case win of Some w \<Rightarrow> w | None \<Rightarrow> WINDOW_DEFAULT) \<le> MAX_DURATION \<Longrightarrow>
   can_run rf \<and> ple_ranking d = ups \<and> ups \<noteq> []"
  by (auto simp: ple_new_def Let_def can_run_def window_new_ok window_new_def window_ok_def
      ticks_held_def split: if_splits option.splits)

lemma ll_new_can_run:
  "ll_new ups obs penalty refresh win ms = Inr (rf, d) \<Longrightarrow>
   (case refresh of Some r \<Rightarrow> r | None \<Rightarrow> REFRESH_DEFAULT) *
     (case win of Some w \<Rightarrow> w | None \<Rightarrow> WINDOW_DEFAULT) \<le> MAX_DURATION \<Longrightarrow>
   can_run rf \<and> ll_ranking d = ups \<and> ups \<noteq> [] \<and> ll_requests d = 0"
  by (auto simp: ll_new_def Let_def can_run_def window_new_ok window_new_def window_ok_def
      ticks_held_def split: if_splits option.splits)

text \<open>
  A refresher never loses an upstream and never panics: from a decider that was built, with a
  window that fits a \<open>Duration\<close>, any number of refreshes with whatever the observer shows ends with a
  ranking that is a permutation of the configured upstreams (and, for least latency, with the
  request counter untouched).
\<close>

theorem refreshers_keep_the_pool:
  assumes "ple_new ups obs refresh win = Inr (rf, d)" "ll_new ups obs penalty refresh win ms = Inr (lf, e)"
    and "(case refresh of Some r \<Rightarrow> r | None \<Rightarrow> REFRESH_DEFAULT) *
      (case win of Some w \<Rightarrow> w | None \<Rightarrow> WINDOW_DEFAULT) \<le> MAX_DURATION"
  shows "(\<exists>rf' d'. run_loop ple_refresh seen (rf, d) = Some (rf', d') \<and>
      mset (ple_ranking d') = mset ups) \<and>
    (\<exists>lf' e'. run_loop ll_refresh seen (lf, e) = Some (lf', e') \<and>
      mset (ll_ranking e') = mset ups \<and> ll_requests e' = 0)"
  using ple_loop_runs [of rf seen d] ll_loop_runs [of lf seen e]
    ple_new_can_run [OF assms(1,3)] ll_new_can_run [OF assms(2,3)]
  by metis


subsection \<open>What a window counts\<close>









subsection \<open>Concrete refreshes\<close>

text \<open>
  Twenty answered calls each since the window opened: every call to \<open>a\<close> failed, every call to \<open>b\<close> was
  answered; \<open>c\<close> was not called.
\<close>

definition demo_observer :: metrics_observer where
  "demo_observer = (new_observer [])\<lparr>stats :=
     [(UpstreamId ''a'', default_snapshot\<lparr>error_status := 20\<rparr>),
      (UpstreamId ''b'', default_snapshot\<lparr>success := 20\<rparr>), (UpstreamId ''c'', default_snapshot)]\<rparr>"

definition demo_window :: window where
  "demo_window = \<lparr>baselines = [[(UpstreamId ''a'', default_snapshot), (UpstreamId ''b'', default_snapshot),
     (UpstreamId ''c'', default_snapshot)]], ticks = 2, tick = 15\<rparr>"

definition demo_ranking_refresher :: ranking_refresher where
  "demo_ranking_refresher =
     \<lparr>rf_window = demo_window, rf_interval = 15, rf_min_samples = 20, rf_margin = PROMOTION_MARGIN\<rparr>"

definition demo_latency_refresher :: latency_refresher where
  "demo_latency_refresher =
     \<lparr>rf_window = demo_window, rf_interval = 15, rf_min_samples = 20, rf_margin = PROMOTION_MARGIN,
      rf_penalty = 3000000000\<rparr>"

lemma demo_windows:
  "oldest demo_window = Some (hd (baselines demo_window))" "span demo_window \<noteq> None"
  "wanted_span demo_window \<noteq> None"
  by (simp_all add: demo_window_def oldest_def span_def wanted_span_def duration_times_def Let_def
      ticks_held_def MAX_DURATION_def)

definition demo_win :: "upstream_id \<Rightarrow> stats_diff option" where
  "demo_win = window_of (snapshot_map demo_observer) (hd (baselines demo_window))"

lemma rnd_1 [simp]: "rnd 1 = 1"
  using rnd_of_nat [of 1] by simp

lemma rnd_20 [simp]: "rnd 20 = 20"
  using rnd_of_nat [of 20] by simp

lemma demo_scores:
  "Option.bind (demo_win (UpstreamId ''a'')) (ple_raw 20) = Some 1"
  "Option.bind (demo_win (UpstreamId ''b'')) (ple_raw 20) = Some 0"
  "Option.bind (demo_win (UpstreamId ''c'')) (ple_raw 20) = None"
  "Option.bind (demo_win (UpstreamId ''a'')) (ll_raw 20 3000000000) = Some 0"
  "Option.bind (demo_win (UpstreamId ''b'')) (ll_raw 20 3000000000) = Some 0"
  "Option.bind (demo_win (UpstreamId ''c'')) (ll_raw 20 3000000000) = None"
  by (simp_all add: demo_win_def window_of_def snapshot_map_def demo_observer_def demo_window_def
      stats_snapshot_def snapshot_diff_def default_snapshot_def ple_raw_def ll_raw_def Let_def
      diff_answered_def diff_error_def diff_success_def diff_calls_def sat_sub_def error_rate_def
      f64_div_def f64_of_u64_def latency_score_def sat_mul_def sat_add_def from_micros_def)

lemma keep_positive: "0 < f64_mul 1 keep"
proof -
  have k: "0 \<le> keep" "1 / 2 \<le> keep" using keep_bounds(1) by (auto intro: order_trans [rotated])
  have "keep * (1 - 1 / 2 ^ 53) \<le> f64_mul 1 keep" using rnd_ge [OF k(1)] by (simp add: f64_mul_def)
  moreover have "0 < keep * (1 - 1 / 2 ^ 53)" using k(2) by simp
  ultimately show ?thesis by linarith
qed

definition demo_least_errors :: prefer_least_errors where
  "demo_least_errors = \<lparr>ple_ranking = map demo_upstream [''a'', ''b'']\<rparr>"

lemma demo_ple_refresh:
  "ple_refresh demo_observer (demo_ranking_refresher, demo_least_errors) =
     Some (demo_ranking_refresher\<lparr>rf_window := advance (snapshot_map demo_observer) demo_window\<rparr>,
       \<lparr>ple_ranking = map demo_upstream [''b'', ''a'']\<rparr>)"
proof -
  have u: "uid (demo_upstream l) = UpstreamId l" for l by (simp add: demo_upstream_def)
  let ?key = "ple_key 20 PROMOTION_MARGIN (Some (UpstreamId ''a'')) demo_win"
  have k: "?key (demo_upstream ''a'') = scored (f64_mul 1 keep)" "?key (demo_upstream ''b'') = scored 0"
    by (simp_all add: ple_key_margin margin_key_def u demo_scores keep_def)
  then have "\<not> ?key (demo_upstream ''a'') \<le> ?key (demo_upstream ''b'')"
    using keep_positive by (simp add: scored_def less_eq_sort_key_def)
  then have "sort_key ?key (map demo_upstream [''a'', ''b'']) = map demo_upstream [''b'', ''a'']" by simp
  then show ?thesis
    using demo_windows
    by (auto simp: ple_refresh_Some demo_ranking_refresher_def demo_least_errors_def incumbent_of_def u
        demo_win_def)
qed

definition demo_latency :: least_latency where
  "demo_latency = \<lparr>ll_ranking = map demo_upstream [''c'', ''b''], ll_requests = 0\<rparr>"

lemma demo_ll_refresh:
  "ll_refresh demo_observer (demo_latency_refresher, demo_latency) =
     Some (demo_latency_refresher\<lparr>rf_window := advance (snapshot_map demo_observer) demo_window\<rparr>,
       \<lparr>ll_ranking = map demo_upstream [''b'', ''c''], ll_requests = 0\<rparr>)"
proof -
  have u: "uid (demo_upstream l) = UpstreamId l" for l by (simp add: demo_upstream_def)
  let ?key = "ll_key 20 PROMOTION_MARGIN 3000000000 (Some (UpstreamId ''c'')) demo_win"
  have k: "?key (demo_upstream ''c'') = unscored" "?key (demo_upstream ''b'') = scored 0"
    by (simp_all add: ll_key_margin margin_key_def u demo_scores)
  then have "\<not> ?key (demo_upstream ''c'') \<le> ?key (demo_upstream ''b'')"
    by (simp add: scored_def unscored_def less_eq_sort_key_def)
  then have "sort_key ?key (map demo_upstream [''c'', ''b'']) = map demo_upstream [''b'', ''c'']" by simp
  then show ?thesis
    using demo_windows
    by (auto simp: ll_refresh_Some demo_latency_refresher_def demo_latency_def incumbent_of_def u
        demo_win_def)
qed

lemma demo_scored:
  "ple_score demo_observer demo_ranking_refresher (demo_upstream l) = Option.bind (demo_win (UpstreamId l)) (ple_raw 20)"
  "ll_score demo_observer demo_latency_refresher (demo_upstream l) =
     Option.bind (demo_win (UpstreamId l)) (ll_raw 20 3000000000)"
  using demo_windows
  by (simp_all add: ple_score_def ll_score_def scored_window_def demo_ranking_refresher_def
      demo_latency_refresher_def demo_win_def demo_upstream_def)

lemma demo_margins:
  "rf_margin demo_ranking_refresher = PROMOTION_MARGIN" "rf_margin demo_latency_refresher = PROMOTION_MARGIN"
  by (simp_all add: demo_ranking_refresher_def demo_latency_refresher_def)

theorem ple_leader_margin_witness:
  "\<exists>r. ple_score demo_observer demo_ranking_refresher (demo_upstream ''b'') = Some r \<and>
     r < 1 * (4 / 5 * (1 + 1 / 2 ^ 50))"
proof -
  have r: "ple_ranking demo_least_errors = demo_upstream ''a'' # [demo_upstream ''b'']"
    by (simp add: demo_least_errors_def)
  have h: "demo_upstream ''b'' = hd (ple_ranking \<lparr>ple_ranking = map demo_upstream [''b'', ''a'']\<rparr>)" by simp
  have ne: "uid (demo_upstream ''b'') \<noteq> uid (demo_upstream ''a'')" by (simp add: demo_upstream_def)
  have "ple_score demo_observer demo_ranking_refresher (demo_upstream ''a'') = Some 1"
    by (simp add: demo_scored demo_scores)
  with ple_leader_margin [OF demo_ple_refresh demo_margins(1) r h ne] show ?thesis by blast
qed

theorem ll_leader_margin_witness:
  "\<exists>s. ll_score demo_observer demo_latency_refresher (demo_upstream ''b'') = Some s"
  using ll_leader_margin [OF demo_ll_refresh demo_margins(2), of "demo_upstream ''c''" "[demo_upstream ''b'']"
      "demo_upstream ''b''"]
  by (auto simp: demo_latency_def demo_upstream_def)

theorem unscored_go_last_witness:
  "filter (\<lambda>u. ll_score demo_observer demo_latency_refresher u = None) (map demo_upstream [''b'', ''c'']) =
   filter (\<lambda>u. ll_score demo_observer demo_latency_refresher u = None) (ll_ranking demo_latency)"
  using unscored_go_last [OF demo_ple_refresh demo_margins(1) demo_ll_refresh demo_margins(2)]
  by (elim conjE) simp

theorem refreshers_keep_the_pool_witness:
  "\<exists>rf d rf' d'. ple_new [demo_upstream ''a''] demo_observer None None = Inr (rf, d) \<and>
     run_loop ple_refresh [demo_observer, demo_observer] (rf, d) = Some (rf', d') \<and>
     mset (ple_ranking d') = mset [demo_upstream ''a'']"
proof -
  have s: "snapshot_of demo_observer (uid (demo_upstream ''a'')) \<noteq> None"
    by (simp add: demo_observer_def snapshot_of_def demo_upstream_def)
  obtain rf d where p: "ple_new [demo_upstream ''a''] demo_observer None None = Inr (rf, d)"
    using s by (simp add: ple_new_def Let_def WINDOW_DEFAULT_def)
  obtain lf e where l: "ll_new [demo_upstream ''a''] demo_observer 1 None None None = Inr (lf, e)"
    using s by (simp add: ll_new_def Let_def WINDOW_DEFAULT_def)
  have "REFRESH_DEFAULT * WINDOW_DEFAULT \<le> MAX_DURATION"
    by (simp add: REFRESH_DEFAULT_def WINDOW_DEFAULT_def MAX_DURATION_def)
  with refreshers_keep_the_pool [OF p l, of "[demo_observer, demo_observer]"] p show ?thesis
    by fastforce
qed


end
