(* ===== verification/Config.thy ===== *)
theory Config
  imports Settings
begin

text \<open>
  \<open>src/config.rs\<close> after the file has been read: the deprecated key, the expansion of \<open>${NAME}\<close>
  placeholders from the environment, and the validation. Reading and merging the sources (the crate
  \<open>config\<close>) and parsing an origin (the crate \<open>http\<close>) are third-party: the deserialised settings, the
  environment lookup and the two parsers are arguments.
\<close>

datatype settings_error =
  UnsetEnvVar bytes
| ResidualPlaceholder bytes
| EmptyUpstreamList
| EmptyLabelAt nat
| EmptyUrlOf bytes
| DuplicateLabel bytes
| DuplicateUrl bytes bytes
| ZeroDefaultHedgeAfter
| ZeroUpstreamHedgeAfter bytes
| InvalidCorsOrigin bytes bytes
| DuplicateCorsOrigin bytes
| WildcardCorsOriginMixed

subsection \<open>Deprecated keys\<close>

definition apply_legacy_keys :: "settings \<Rightarrow> settings" where
  "apply_legacy_keys s =
     (case legacy_rpc_timeout_in_secs s of
        None \<Rightarrow> s
      | Some t \<Rightarrow>
          s\<lparr>application := (application s)
              \<lparr>proxy := (proxy (application s))\<lparr>rpc_timeout_in_secs := t\<rparr>\<rparr>\<rparr>)"

subsection \<open>Expanding placeholders\<close>

type_synonym environment = "bytes \<Rightarrow> bytes option"

text \<open>The loop of \<open>expand_str\<close>, with what it has pushed so far.\<close>

function expand_loop :: "environment \<Rightarrow> bytes \<Rightarrow> bytes \<Rightarrow> (settings_error, bytes) result" where
  "expand_loop get out rest =
     (case find_sub ''${'' rest of
        None \<Rightarrow> Inr (out @ rest)
      | Some start \<Rightarrow>
          let before = take start rest; marker = drop start rest; body = drop 2 marker
          in (case find_sub ''}'' body of
                None \<Rightarrow> Inr (out @ rest)
              | Some stop \<Rightarrow>
                  let out' = out @ before; name = take stop body; rest' = drop (stop + 1) body
                  in if blank name then expand_loop get (out' @ take (stop + 3) marker) rest'
                     else (case get name of
                             Some v \<Rightarrow>
                               if v \<noteq> [] then expand_loop get (out' @ v) rest'
                               else Inl (UnsetEnvVar name)
                           | None \<Rightarrow> Inl (UnsetEnvVar name))))"
  by pat_completeness auto
termination
proof (relation "measure (\<lambda>(get, out, rest). length rest)", goal_cases)
  case (2 get out rest start before marker body stop out' name rest')
  then show ?case using find_sub_Some [of "''${''" rest start] by auto
next
  case (3 get out rest start before marker body stop out' name rest' v)
  then show ?case using find_sub_Some [of "''${''" rest start] by auto
qed simp

declare expand_loop.simps [simp del]

definition expand_str :: "environment \<Rightarrow> bytes \<Rightarrow> (settings_error, bytes) result" where
  "expand_str get raw = expand_loop get [] raw"

definition expand_upstream ::
  "environment \<Rightarrow> upstream_settings \<Rightarrow> (settings_error, upstream_settings) result" where
  "expand_upstream get u =
     and_then (expand_str get (us_label u)) (\<lambda>l.
     and_then (expand_str get (us_url u)) (\<lambda>a. Inr (u\<lparr>us_label := l, us_url := a\<rparr>)))"

definition expand_env :: "environment \<Rightarrow> settings \<Rightarrow> (settings_error, settings) result" where
  "expand_env get s =
     and_then (expand_str get (host (application s))) (\<lambda>h.
     and_then (collect_results (map (expand_upstream get) (upstreams s))) (\<lambda>us.
     and_then (collect_results (map (expand_str get) (allowed_origins (cors (application s))))) (\<lambda>os.
       Inr (s\<lparr>application := (application s)\<lparr>host := h, cors := \<lparr>allowed_origins = os\<rparr>\<rparr>,
              upstreams := us\<rparr>))))"

subsection \<open>Validating origins\<close>

text \<open>What \<open>axum::http\<close> says of an origin: whether it is a header value, and its parts as a URI.\<close>

record authority =
  au_host :: bytes
  au_port :: "16 word option"

record uri =
  uri_scheme :: "bytes option"
  uri_authority :: "authority option"

record http_parsers =
  header_value :: "bytes \<Rightarrow> bool"
  parse_uri :: "bytes \<Rightarrow> uri option"

definition to_ascii_lowercase :: "bytes \<Rightarrow> bytes" where
  "to_ascii_lowercase s =
     map (\<lambda>c. if 65 \<le> (of_char c :: nat) \<and> (of_char c :: nat) \<le> 90 then char_of ((of_char c :: nat) + 32) else c) s"

definition not_an_origin :: bytes where "not_an_origin = ''must be scheme://host[:port]''"

definition canonical_origin :: "bytes \<Rightarrow> authority \<Rightarrow> bytes" where
  "canonical_origin scheme a =
     (case au_port a of
        Some p \<Rightarrow> scheme @ ''://'' @ au_host a @ '':'' @ dec (unat p)
      | None \<Rightarrow> scheme @ ''://'' @ au_host a)"

definition validate_origin :: "http_parsers \<Rightarrow> bytes \<Rightarrow> (bytes, unit) result" where
  "validate_origin hp origin =
     (if trim origin \<noteq> origin then Inl ''has surrounding whitespace''
      else if \<not> header_value hp origin then Inl ''is not a valid header value''
      else (case parse_uri hp origin of
              None \<Rightarrow> Inl not_an_origin
            | Some u \<Rightarrow>
                (case uri_scheme u of
                   None \<Rightarrow> Inl not_an_origin
                 | Some scheme \<Rightarrow>
                     if scheme \<noteq> ''http'' \<and> scheme \<noteq> ''https'' then Inl ''must use http or https''
                     else (case uri_authority u of
                             None \<Rightarrow> Inl not_an_origin
                           | Some a \<Rightarrow>
                               if au_host a = [] then Inl not_an_origin
                               else if origin \<noteq> [] \<and> last origin = CHR ''/'' then Inl ''must not end with a slash''
                               else if origin \<noteq> to_ascii_lowercase origin then Inl ''must be lowercase''
                               else if (scheme = ''https'' \<and> au_port a = Some 443) \<or>
                                       (scheme = ''http'' \<and> au_port a = Some 80)
                                    then Inl ''must omit the default port''
                               else if origin \<noteq> canonical_origin scheme a
                                    then Inl ''must be exactly scheme://host[:port]''
                               else Inr ()))))"

definition WILDCARD_ORIGIN :: bytes where "WILDCARD_ORIGIN = ''*''"

text \<open>The loops over the origins and over the upstreams, with the sets they have filled so far.\<close>

fun validate_origins :: "http_parsers \<Rightarrow> bytes set \<Rightarrow> bytes list \<Rightarrow> (settings_error, unit) result" where
  "validate_origins hp seen [] = Inr ()"
| "validate_origins hp seen (origin # os) =
     and_then (map_err (InvalidCorsOrigin origin) (validate_origin hp origin)) (\<lambda>_.
       if origin \<in> seen then Inl (DuplicateCorsOrigin origin)
       else validate_origins hp (insert origin seen) os)"

definition validate_cors :: "http_parsers \<Rightarrow> cors_settings \<Rightarrow> (settings_error, unit) result" where
  "validate_cors hp c =
     (let origins = allowed_origins c
      in if WILDCARD_ORIGIN \<in> set origins then
           (if length origins = 1 then Inr () else Inl WildcardCorsOriginMixed)
         else validate_origins hp {} origins)"

subsection \<open>Validating the settings\<close>

fun validate_upstreams ::
  "nat \<Rightarrow> bytes set \<Rightarrow> (bytes \<rightharpoonup> bytes) \<Rightarrow> upstream_settings list \<Rightarrow> (settings_error, unit) result" where
  "validate_upstreams index labels urls [] = Inr ()"
| "validate_upstreams index labels urls (rpc # rpcs) =
     (if blank (us_label rpc) then Inl (EmptyLabelAt index)
      else if blank (us_url rpc) then Inl (EmptyUrlOf (us_label rpc))
      else if contains ''${'' (us_label rpc) \<or> contains ''${'' (us_url rpc)
        then Inl (ResidualPlaceholder (us_label rpc))
      else if us_label rpc \<in> labels then Inl (DuplicateLabel (us_label rpc))
      else (case urls (us_url rpc) of
              Some first \<Rightarrow> Inl (DuplicateUrl first (us_label rpc))
            | None \<Rightarrow>
                if hedge_after_in_millis rpc = Some 0 then Inl (ZeroUpstreamHedgeAfter (us_label rpc))
                else validate_upstreams (index + 1) (insert (us_label rpc) labels)
                       (urls(us_url rpc \<mapsto> us_label rpc)) rpcs))"

definition validate_settings :: "http_parsers \<Rightarrow> settings \<Rightarrow> (settings_error, unit) result" where
  "validate_settings hp s =
     (if upstreams s = [] then Inl EmptyUpstreamList
      else if after_in_millis (ps_hedge (proxy (application s))) = 0 then Inl ZeroDefaultHedgeAfter
      else and_then (validate_cors hp (cors (application s))) (\<lambda>_.
             validate_upstreams 0 {} (\<lambda>_. None) (upstreams s)))"

text \<open>\<open>settings_from\<close> once the sources have been deserialised.\<close>

definition settings_from ::
  "http_parsers \<Rightarrow> environment \<Rightarrow> settings \<Rightarrow> (settings_error, settings) result" where
  "settings_from hp get parsed =
     and_then (expand_env get (apply_legacy_keys parsed)) (\<lambda>s.
       and_then (validate_settings hp s) (\<lambda>_. Inr s))"

subsection \<open>What expansion does\<close>

lemma expand_loop_acc:
  "expand_loop get out rest = and_then (expand_loop get [] rest) (\<lambda>r. Inr (out @ r))"
proof (induction "length rest" arbitrary: out rest rule: less_induct)
  case less
  show ?case
  proof (cases "find_sub ''${'' rest")
    case None
    then show ?thesis by (simp add: expand_loop.simps)
  next
    case (Some start)
    let ?marker = "drop start rest" and ?body = "drop 2 (drop start rest)"
    show ?thesis
    proof (cases "find_sub ''}'' ?body")
      case None
      with Some show ?thesis by (simp add: expand_loop.simps Let_def)
    next
      case stop: (Some stop)
      let ?rest' = "drop (stop + 1) ?body"
      have "length ?rest' < length rest" using find_sub_Some [OF Some] by auto
      note IH = less [OF this]
      have *: "expand_loop get (out @ x) ?rest' =
          and_then (expand_loop get ([] @ x) ?rest') (\<lambda>r. Inr (out @ r))" for x
        using IH [of "out @ x"] IH [of "[] @ x"]
        by (cases "expand_loop get [] ?rest'") simp_all
      show ?thesis
        unfolding expand_loop.simps [of get out rest] expand_loop.simps [of get "[]" rest] Let_def
          Some stop option.case append.assoc *
        by (simp split: option.split)
    qed
  qed
qed

lemma find_sub_at:
  "find_sub n s = Some i \<longleftrightarrow> i \<le> length s \<and> starts_with n (drop i s) \<and> (\<forall>j < i. \<not> starts_with n (drop j s))"
proof (induction n s arbitrary: i rule: find_sub.induct)
  case (1 n)
  then show ?case by (cases n) auto
next
  case (2 n c cs)
  show ?case
  proof (cases i)
    case 0
    then show ?thesis by auto
  next
    case (Suc k)
    with 2 show ?thesis by (auto simp: less_Suc_eq_0_disj)
  qed
qed

lemma find_marker:
  assumes "\<not> contains ''${'' before"
  shows "find_sub ''${'' (before @ ''${'' @ x) = Some (length before)"
proof -
  have "\<not> starts_with ''${'' (drop j (before @ ''${'' @ x))" if j: "j < length before" for j
  proof
    assume s: "starts_with ''${'' (drop j (before @ ''${'' @ x))"
    obtain c cs where d: "drop j before = c # cs" using j by (metis Cons_nth_drop_Suc)
    show False
    proof (cases cs)
      case Nil
      with s d j show False by (simp add: starts_with_iff)
    next
      case (Cons c' cs')
      with s d j have "drop j before = ''${'' @ cs'" by (auto simp: starts_with_iff)
      then have "before = take j before @ ''${'' @ cs'" by (metis append_take_drop_id)
      with assms show False unfolding contains_iff by blast
    qed
  qed
  then show ?thesis by (simp add: find_sub_at)
qed

lemma find_char:
  "find_sub [c] s = (if c \<in> set s then Some (length (takeWhile (\<lambda>x. x \<noteq> c) s)) else None)"
  by (induction s) auto

text \<open>The value of a placeholder.\<close>

definition placeholder_value :: "environment \<Rightarrow> bytes \<Rightarrow> (settings_error, bytes) result" where
  "placeholder_value get name =
     (if blank name then Inr (''${'' @ name @ ''}'')
      else (case get name of
              Some v \<Rightarrow> if v = [] then Inl (UnsetEnvVar name) else Inr v
            | None \<Rightarrow> Inl (UnsetEnvVar name)))"

lemma expand_placeholder:
  assumes "\<not> contains ''${'' before" "CHR ''}'' \<notin> set name"
  shows "expand_str get (before @ ''${'' @ name @ ''}'' @ rest) =
    and_then (placeholder_value get name) (\<lambda>v. and_then (expand_str get rest) (\<lambda>r. Inr (before @ v @ r)))"
proof -
  have f: "find_sub ''}'' (name @ ''}'' @ rest) = Some (length name)"
  proof -
    have "takeWhile (\<lambda>x. x \<noteq> CHR ''}'') name = name" using assms(2) by (auto simp: takeWhile_eq_all_conv)
    then show ?thesis by (simp add: find_char takeWhile_tail)
  qed
  let ?s = "before @ ''${'' @ name @ ''}'' @ rest"
  have m: "find_sub ''${'' ?s = Some (length before)"
    using find_marker [OF assms(1)] .
  have cut: "take (length before) ?s = before" "drop (length before) ?s = ''${'' @ name @ ''}'' @ rest"
    "drop 2 (''${'' @ name @ ''}'' @ rest) = name @ ''}'' @ rest"
    "take (length name) (name @ ''}'' @ rest) = name" "drop (length name + 1) (name @ ''}'' @ rest) = rest"
    "take (length name + 3) (''${'' @ name @ ''}'' @ rest) = ''${'' @ name @ ''}''"
    by (simp_all add: numeral_3_eq_3)
  have "expand_str get ?s =
      (if blank name then expand_loop get (before @ ''${'' @ name @ ''}'') rest
       else (case get name of
               Some v \<Rightarrow> if v \<noteq> [] then expand_loop get (before @ v) rest else Inl (UnsetEnvVar name)
             | None \<Rightarrow> Inl (UnsetEnvVar name)))"
    unfolding expand_str_def expand_loop.simps [of get "[]" ?s] m option.case Let_def cut f
    by (simp only: append_Nil)
  then show ?thesis
    by (simp add: placeholder_value_def expand_loop_acc [of get "before @ x" for x]
        expand_loop_acc [of get "before @ ''${'' @ name @ ''}''"] expand_str_def append_assoc
        split: option.split del: append.simps)
qed

text \<open>
  C36: Expansion replaces each placeholder by the variable's value, once, from left to right: text
  without a placeholder is unchanged; the first closed placeholder becomes its value (an unset or
  empty variable is an error naming it, a blank name is left as it stands) and the text after it is
  expanded in the same way, the value itself never again; a marker that is not closed ends the
  expansion and stays.
\<close>

theorem expand_str_correct:
  assumes "\<not> contains ''${'' before" "CHR ''}'' \<notin> set name"
  shows "expand_str get before = Inr before \<and>
    expand_str get (before @ ''${'' @ name) = Inr (before @ ''${'' @ name) \<and>
    expand_str get (before @ ''${'' @ name @ ''}'' @ rest) =
      and_then (placeholder_value get name) (\<lambda>v. and_then (expand_str get rest) (\<lambda>r. Inr (before @ v @ r)))"
proof (intro conjI expand_placeholder [OF assms])
  show "expand_str get before = Inr before"
    using assms(1) by (simp add: expand_str_def expand_loop.simps contains_def)
  show "expand_str get (before @ ''${'' @ name) = Inr (before @ ''${'' @ name)"
    using find_marker [OF assms(1), of name] assms(2)
    by (simp add: expand_str_def expand_loop.simps find_char Let_def)
qed

theorem expand_str_correct_witness:
  "expand_str (\<lambda>n. if n = ''KEY'' then Some ''${K}'' else None) ''https://x/${KEY}/eth'' = Inr ''https://x/${K}/eth''"
proof -
  let ?get = "\<lambda>n. if n = ''KEY'' then Some ''${K}'' else None"
  have b: "\<not> contains ''${'' ''https://x/''" by (simp add: contains_def)
  have p: "placeholder_value ?get ''KEY'' = Inr ''${K}''"
    by (simp add: placeholder_value_def blank_def trim_def ws_scalars_def trim_with.simps)
  have "expand_str ?get ''/eth'' = Inr ''/eth''"
    by (simp add: expand_str_def expand_loop.simps)
  with p expand_str_correct [OF b, of "''KEY''" ?get "''/eth''"] show ?thesis by simp
qed

subsection \<open>What validation accepts\<close>

lemma validate_origins_Inr:
  "validate_origins hp seen os = Inr () \<longleftrightarrow>
     (\<forall>origin \<in> set os. validate_origin hp origin = Inr ()) \<and> distinct os \<and> set os \<inter> seen = {}"
  by (induction hp seen os rule: validate_origins.induct) (auto split: if_splits)

lemma validate_upstreams_Inr:
  "validate_upstreams i labels urls us = Inr () \<longleftrightarrow>
     (\<forall>u \<in> set us. \<not> blank (us_label u) \<and> \<not> blank (us_url u) \<and> \<not> contains ''${'' (us_label u) \<and>
        \<not> contains ''${'' (us_url u) \<and> hedge_after_in_millis u \<noteq> Some 0) \<and>
     distinct (map us_label us) \<and> distinct (map us_url us) \<and>
     us_label ` set us \<inter> labels = {} \<and> us_url ` set us \<inter> dom urls = {}"
proof (induction i labels urls us rule: validate_upstreams.induct)
  case (2 i labels urls rpc rpcs)
  show ?case
  proof (cases "blank (us_label rpc) \<or> blank (us_url rpc) \<or> contains ''${'' (us_label rpc) \<or>
      contains ''${'' (us_url rpc) \<or> us_label rpc \<in> labels \<or> urls (us_url rpc) \<noteq> None \<or>
      hedge_after_in_millis rpc = Some 0")
    case True
    then show ?thesis by (auto split: option.split)
  next
    case False
    then have "validate_upstreams i labels urls (rpc # rpcs) =
        validate_upstreams (i + 1) (insert (us_label rpc) labels) (urls(us_url rpc \<mapsto> us_label rpc)) rpcs"
      by simp
    moreover have "validate_upstreams (i + 1) (insert (us_label rpc) labels)
        (urls(us_url rpc \<mapsto> us_label rpc)) rpcs = Inr () \<longleftrightarrow>
      (\<forall>u \<in> set rpcs. \<not> blank (us_label u) \<and> \<not> blank (us_url u) \<and> \<not> contains ''${'' (us_label u) \<and>
        \<not> contains ''${'' (us_url u) \<and> hedge_after_in_millis u \<noteq> Some 0) \<and>
      distinct (map us_label rpcs) \<and> distinct (map us_url rpcs) \<and>
      us_label ` set rpcs \<inter> insert (us_label rpc) labels = {} \<and>
      us_url ` set rpcs \<inter> dom (urls(us_url rpc \<mapsto> us_label rpc)) = {}"
      using False by (intro 2) auto
    ultimately show ?thesis using False by (auto simp: domIff)
  qed
qed simp

text \<open>
  A CORS origin as a browser sends it: the scheme http or https, a host, and a port unless it is the
  scheme's default, in lower case and with nothing around or after.
\<close>

definition browser_origin :: "http_parsers \<Rightarrow> bytes \<Rightarrow> bool" where
  "browser_origin hp origin \<longleftrightarrow>
     (\<exists>scheme h p. parse_uri hp origin =
          Some \<lparr>uri_scheme = Some scheme, uri_authority = Some \<lparr>au_host = h, au_port = p\<rparr>\<rparr> \<and>
        (scheme = ''http'' \<or> scheme = ''https'') \<and> h \<noteq> [] \<and>
        p \<noteq> Some (if scheme = ''http'' then 80 else 443) \<and>
        origin = scheme @ ''://'' @ h @ (case p of None \<Rightarrow> [] | Some q \<Rightarrow> '':'' @ dec (unat q))) \<and>
     header_value hp origin \<and> trim origin = origin \<and> to_ascii_lowercase origin = origin \<and>
     last origin \<noteq> CHR ''/''"

lemma validate_origin_Inr: "validate_origin hp origin = Inr () \<longleftrightarrow> browser_origin hp origin"
proof (cases "parse_uri hp origin")
  case None
  then show ?thesis by (auto simp: validate_origin_def browser_origin_def)
next
  case u: (Some u)
  show ?thesis
  proof (cases "uri_scheme u")
    case None
    with u show ?thesis by (auto simp: validate_origin_def browser_origin_def)
  next
    case scheme: (Some scheme)
    show ?thesis
    proof (cases "uri_authority u")
      case None
      with u scheme show ?thesis by (auto simp: validate_origin_def browser_origin_def)
    next
      case auth: (Some a)
      have ueq: "u = \<lparr>uri_scheme = Some scheme, uri_authority = Some \<lparr>au_host = au_host a, au_port = au_port a\<rparr>\<rparr>"
        using scheme auth by simp
      have "validate_origin hp origin = Inr () \<longleftrightarrow>
          trim origin = origin \<and> header_value hp origin \<and> (scheme = ''http'' \<or> scheme = ''https'') \<and>
          au_host a \<noteq> [] \<and> (origin = [] \<or> last origin \<noteq> CHR ''/'') \<and> to_ascii_lowercase origin = origin \<and>
          au_port a \<noteq> Some (if scheme = ''http'' then 80 else 443) \<and> origin = canonical_origin scheme a"
        using u scheme auth by (auto simp: validate_origin_def)
      moreover have "canonical_origin scheme a =
          scheme @ ''://'' @ au_host a @ (case au_port a of None \<Rightarrow> [] | Some q \<Rightarrow> '':'' @ dec (unat q))"
        by (simp add: canonical_origin_def split: option.split)
      ultimately show ?thesis using u ueq by (auto simp: browser_origin_def)
    qed
  qed
qed

text \<open>
  C35: The settings are accepted exactly when there is an upstream, the default hedge delay is not 0,
  the CORS list is the wildcard alone or a list of distinct origins, each of them written as a browser
  sends it, and the upstreams have distinct, non-blank labels and urls without a placeholder left in
  them and no hedge delay of 0.
\<close>

theorem validate_settings_correct:
  "validate_settings hp s = Inr () \<longleftrightarrow>
     upstreams s \<noteq> [] \<and> after_in_millis (ps_hedge (proxy (application s))) \<noteq> 0 \<and>
     (allowed_origins (cors (application s)) = [''*''] \<or>
      (''*'' \<notin> set (allowed_origins (cors (application s))) \<and>
       (\<forall>origin \<in> set (allowed_origins (cors (application s))). browser_origin hp origin) \<and>
       distinct (allowed_origins (cors (application s))))) \<and>
     (\<forall>u \<in> set (upstreams s). \<not> blank (us_label u) \<and> \<not> blank (us_url u) \<and>
        \<not> contains ''${'' (us_label u) \<and> \<not> contains ''${'' (us_url u) \<and> hedge_after_in_millis u \<noteq> Some 0) \<and>
     distinct (map us_label (upstreams s)) \<and> distinct (map us_url (upstreams s))"
proof -
  have one: "x \<in> set xs \<and> length xs = 1 \<longleftrightarrow> xs = [x]" for x :: bytes and xs
    by (cases xs) auto
  show ?thesis
    using one [of WILDCARD_ORIGIN "allowed_origins (cors (application s))"]
    by (auto simp: validate_settings_def validate_cors_def Let_def validate_upstreams_Inr
        validate_origins_Inr validate_origin_Inr WILDCARD_ORIGIN_def)
qed

subsection \<open>Concrete settings\<close>

definition demo_settings :: settings where
  "demo_settings =
     \<lparr>application = \<lparr>port = 8080, host = ''127.0.0.1'',
        proxy = \<lparr>ps_max_attempt = 3, retry_after_in_secs = 1, rpc_timeout_in_secs = 3,
          ps_max_response_bytes = 1000, ps_hedge = \<lparr>hedge_enabled = True, after_in_millis = 250\<rparr>,
          ps_dedup = \<lparr>dedup_enabled = True\<rparr>\<rparr>,
        cors = \<lparr>allowed_origins = [''*'']\<rparr>\<rparr>,
      upstreams = [\<lparr>us_label = ''a'', us_url = ''http://a'', hedge_after_in_millis = None\<rparr>,
        \<lparr>us_label = ''b'', us_url = ''http://b'', hedge_after_in_millis = Some 5\<rparr>],
      legacy_rpc_timeout_in_secs = None, decider = LeastLatency\<rparr>"

text \<open>Settings with one origin instead, read by a parser that knows two.\<close>

definition demo_parsers :: http_parsers where
  "demo_parsers =
     \<lparr>header_value = (\<lambda>_. True),
      parse_uri = (\<lambda>o'. if o' = ''https://a:8443''
        then Some \<lparr>uri_scheme = Some ''https'', uri_authority = Some \<lparr>au_host = ''a'', au_port = Some 8443\<rparr>\<rparr>
        else if o' = ''https://a:443''
        then Some \<lparr>uri_scheme = Some ''https'', uri_authority = Some \<lparr>au_host = ''a'', au_port = Some 443\<rparr>\<rparr>
        else None)\<rparr>"

definition with_one_origin :: "bytes \<Rightarrow> settings" where
  "with_one_origin o' =
     demo_settings\<lparr>application := (application demo_settings)\<lparr>cors := \<lparr>allowed_origins = [o']\<rparr>\<rparr>\<rparr>"

theorem validate_settings_correct_witness:
  "validate_settings demo_parsers (with_one_origin ''https://a:8443'') = Inr () \<and>
   validate_settings demo_parsers (with_one_origin ''https://a:443'') \<noteq> Inr ()"
  unfolding validate_settings_correct
  by (simp add: with_one_origin_def demo_settings_def demo_parsers_def browser_origin_def contains_def blank_def
      trim_def ws_scalars_def trim_with.simps to_ascii_lowercase_def dec.simps [of 8443] dec.simps [of 844]
      dec.simps [of 84] dec.simps [of 8] char_of_def bit_0)

end
