(* ===== verification/Prometheus.thy ===== *)
theory Prometheus
  imports Observer
begin

text \<open>
  \<open>src/observer/prometheus.rs\<close>: the collector that renders the observer's counters. The protobuf
  types of the \<open>prometheus\<close> crate are plain data here; its registry and text encoder are third-party
  and not modelled. \<open>Desc::new\<close> only validates the constant names, so a descriptor is its name, help
  text and label names.
\<close>

subsection \<open>Metric data\<close>

record label_pair =
  lp_name :: bytes
  lp_value :: bytes

record bucket =
  upper_bound :: f64
  cumulative_count :: u64

record histogram =
  sample_count :: u64
  sample_sum :: f64
  bucket_list :: "bucket list"

datatype metric_value = Counter f64 | Histogram histogram

record metric =
  m_label :: "label_pair list"
  m_value :: metric_value

datatype metric_type = COUNTER | HISTOGRAM

record metric_family =
  fam_name :: bytes
  fam_help :: bytes
  fam_type :: metric_type
  fam_metrics :: "metric list"

record desc =
  fq_name :: bytes
  desc_help :: bytes
  variable_labels :: "bytes list"

subsection \<open>Names\<close>

definition ATTEMPTS_NAME :: bytes where "ATTEMPTS_NAME = ''rpc_attempts_total''"
definition ATTEMPTS_HELP :: bytes where "ATTEMPTS_HELP = ''Total upstream call attempts by outcome''"
definition ATTEMPTS_DURATION_NAME :: bytes where
  "ATTEMPTS_DURATION_NAME = ''rpc_attempt_duration_seconds''"
definition ATTEMPTS_DURATION_HELP :: bytes where
  "ATTEMPTS_DURATION_HELP = ''Rpc attempt duration in seconds''"
definition HEDGES_NAME :: bytes where "HEDGES_NAME = ''rpc_hedges_total''"
definition HEDGES_HELP :: bytes where
  "HEDGES_HELP = ''Hedge calls started because this upstream passed its hedge_after, by the upstream hedged to''"
definition HEDGE_WINS_NAME :: bytes where "HEDGE_WINS_NAME = ''rpc_hedge_wins_total''"
definition HEDGE_WINS_HELP :: bytes where
  "HEDGE_WINS_HELP = ''Hedge calls that overtook this upstream and answered first, by the upstream hedged to''"
definition FAILOVERS_NAME :: bytes where "FAILOVERS_NAME = ''rpc_failovers_total''"
definition FAILOVERS_HELP :: bytes where
  "FAILOVERS_HELP = ''Times the chain moved past this upstream after a retryable failure''"
definition COALESCED_NAME :: bytes where "COALESCED_NAME = ''rpc_requests_coalesced_total''"
definition COALESCED_HELP :: bytes where "COALESCED_HELP = ''Requests answered by another request's flight''"
definition REQUESTS_NAME :: bytes where "REQUESTS_NAME = ''rpc_requests_total''"
definition REQUESTS_HELP :: bytes where
  "REQUESTS_HELP = ''Requests that ran their own upstream chain, by method and outcome''"
definition REQUEST_ATTEMPTS_NAME :: bytes where "REQUEST_ATTEMPTS_NAME = ''rpc_request_attempts''"
definition REQUEST_ATTEMPTS_HELP :: bytes where
  "REQUEST_ATTEMPTS_HELP = ''Upstream attempts per request, hedges included; above 1 means failover or a hedge''"
definition REQUEST_DURATION_NAME :: bytes where "REQUEST_DURATION_NAME = ''rpc_request_duration_seconds''"
definition REQUEST_DURATION_HELP :: bytes where
  "REQUEST_DURATION_HELP = ''Time from receiving a request to its answer, failovers and hedges included, by method''"

definition MICROS_PER_SECOND :: f64 where "MICROS_PER_SECOND = 1000000"

subsection \<open>Descriptors\<close>

definition new_desc :: "bytes \<Rightarrow> bytes \<Rightarrow> bytes list \<Rightarrow> desc" where
  "new_desc name help labels = \<lparr>fq_name = name, desc_help = help, variable_labels = labels\<rparr>"

definition pair_desc :: "bytes \<Rightarrow> bytes \<Rightarrow> desc" where
  "pair_desc name help = new_desc name help [''upstream'', ''to'']"

definition collector_desc :: "desc list" where
  "collector_desc =
     [new_desc ATTEMPTS_NAME ATTEMPTS_HELP [''outcome'', ''upstream''],
      new_desc ATTEMPTS_DURATION_NAME ATTEMPTS_DURATION_HELP [''upstream''],
      pair_desc HEDGES_NAME HEDGES_HELP,
      pair_desc HEDGE_WINS_NAME HEDGE_WINS_HELP,
      new_desc FAILOVERS_NAME FAILOVERS_HELP [''upstream''],
      new_desc COALESCED_NAME COALESCED_HELP [],
      new_desc REQUESTS_NAME REQUESTS_HELP [''method'', ''outcome''],
      new_desc REQUEST_ATTEMPTS_NAME REQUEST_ATTEMPTS_HELP [''method''],
      new_desc REQUEST_DURATION_NAME REQUEST_DURATION_HELP [''method'']]"

subsection \<open>Metrics\<close>

definition family :: "bytes \<Rightarrow> bytes \<Rightarrow> metric_type \<Rightarrow> metric list \<Rightarrow> metric_family" where
  "family name help kind metrics =
     \<lparr>fam_name = name, fam_help = help, fam_type = kind, fam_metrics = metrics\<rparr>"

definition outcomes :: "snapshot \<Rightarrow> (bytes \<times> u64) list" where
  "outcomes s =
     [(''success'', success s), (''unreachable'', unreachable s), (''read_failed'', read_failed s),
      (''error_status'', error_status s), (''rpc_error'', rpc_error s),
      (''rpc_caller_fault'', rpc_caller_fault s), (''abandoned'', abandoned s)]"

definition label :: "bytes \<Rightarrow> bytes \<Rightarrow> label_pair" where
  "label name value = \<lparr>lp_name = name, lp_value = value\<rparr>"

fun cumulative_from :: "u64 \<Rightarrow> u64 list \<Rightarrow> u64 list" where
  "cumulative_from running [] = []"
| "cumulative_from running (c # cs) = (running + c) # cumulative_from (running + c) cs"

definition cumulative :: "u64 list \<Rightarrow> u64 list" where
  "cumulative = cumulative_from 0"

definition attempts :: "snapshot \<Rightarrow> u64" where
  "attempts s = sum_list (map snd (outcomes s))"

definition duration_histogram_metric :: "label_pair \<Rightarrow> u64 list \<Rightarrow> u64 \<Rightarrow> u64 \<Rightarrow> metric" where
  "duration_histogram_metric lp bs n micros =
     \<lparr>m_label = [lp],
      m_value = Histogram
        \<lparr>sample_count = n, sample_sum = f64_div (f64_of_u64 micros) MICROS_PER_SECOND,
         bucket_list = map (\<lambda>(bound, c).
           \<lparr>upper_bound = f64_div (f64_of_u64 bound) MICROS_PER_SECOND, cumulative_count = c\<rparr>)
           (zip BUCKET_BOUNDS_MICROS (cumulative bs))\<rparr>\<rparr>"

definition histogram_metric :: "bytes \<Rightarrow> snapshot \<Rightarrow> metric" where
  "histogram_metric upstream s =
     duration_histogram_metric (label ''upstream'' upstream) (buckets s) (attempts s)
       (duration_micros_total s)"

definition attempts_histogram_metric :: "bytes \<Rightarrow> request_snapshot \<Rightarrow> metric" where
  "attempts_histogram_metric method r =
     \<lparr>m_label = [label ''method'' method],
      m_value = Histogram
        \<lparr>sample_count = answered r + failed r, sample_sum = f64_of_u64 (attempts_total r),
         bucket_list = map (\<lambda>(bound, c). \<lparr>upper_bound = f64_of_u64 bound, cumulative_count = c\<rparr>)
           (zip ATTEMPT_BOUNDS (cumulative (attempt_buckets r)))\<rparr>\<rparr>"

definition pair_counter_metric :: "bytes \<Rightarrow> bytes \<Rightarrow> u64 \<Rightarrow> metric" where
  "pair_counter_metric upstream to value =
     \<lparr>m_label = [label ''upstream'' upstream, label ''to'' to], m_value = Counter (f64_of_u64 value)\<rparr>"

definition request_counter_metric :: "bytes \<Rightarrow> bytes \<Rightarrow> u64 \<Rightarrow> metric" where
  "request_counter_metric method outcome value =
     \<lparr>m_label = [label ''method'' method, label ''outcome'' outcome],
      m_value = Counter (f64_of_u64 value)\<rparr>"

definition upstream_counter_metric :: "bytes \<Rightarrow> u64 \<Rightarrow> metric" where
  "upstream_counter_metric upstream value =
     \<lparr>m_label = [label ''upstream'' upstream], m_value = Counter (f64_of_u64 value)\<rparr>"

definition unlabelled_counter_metric :: "u64 \<Rightarrow> metric" where
  "unlabelled_counter_metric value = \<lparr>m_label = [], m_value = Counter (f64_of_u64 value)\<rparr>"

definition counter_metric :: "bytes \<Rightarrow> bytes \<Rightarrow> u64 \<Rightarrow> metric" where
  "counter_metric upstream outcome value =
     \<lparr>m_label = [label ''outcome'' outcome, label ''upstream'' upstream],
      m_value = Counter (f64_of_u64 value)\<rparr>"

subsection \<open>Collecting\<close>

definition per_pair :: "metrics_observer \<Rightarrow> (hedge_snapshot \<Rightarrow> u64) \<Rightarrow> metric list" where
  "per_pair obs value =
     map (\<lambda>((overtaken, to), h). pair_counter_metric (as_str overtaken) (as_str to) (value h))
       (hedge_snapshots obs)"

definition active_requests :: "metrics_observer \<Rightarrow> (bytes \<times> request_snapshot) list" where
  "active_requests obs = filter (\<lambda>(_, r). 0 < answered r + failed r) (request_snapshots obs)"

definition collect :: "metrics_observer \<Rightarrow> metric_family list" where
  "collect obs =
     (let snaps = snapshots obs;
          reqs = active_requests obs
      in if snaps = [] then []
         else
           [family ATTEMPTS_NAME ATTEMPTS_HELP COUNTER
              (concat (map (\<lambda>(u, s).
                map (\<lambda>(outcome, value). counter_metric (as_str u) outcome value) (outcomes s)) snaps)),
            family ATTEMPTS_DURATION_NAME ATTEMPTS_DURATION_HELP HISTOGRAM
              (map (\<lambda>(u, s). histogram_metric (as_str u) s) snaps),
            family HEDGES_NAME HEDGES_HELP COUNTER (per_pair obs started),
            family HEDGE_WINS_NAME HEDGE_WINS_HELP COUNTER (per_pair obs won),
            family FAILOVERS_NAME FAILOVERS_HELP COUNTER
              (map (\<lambda>(u, n). upstream_counter_metric (as_str u) n) (failover_counts obs)),
            family COALESCED_NAME COALESCED_HELP COUNTER [unlabelled_counter_metric (coalesced obs)],
            family REQUESTS_NAME REQUESTS_HELP COUNTER
              (concat (map (\<lambda>(m, r).
                [request_counter_metric m ''success'' (answered r),
                 request_counter_metric m ''failed'' (failed r)]) reqs)),
            family REQUEST_ATTEMPTS_NAME REQUEST_ATTEMPTS_HELP HISTOGRAM
              (map (\<lambda>(m, r). attempts_histogram_metric m r) reqs),
            family REQUEST_DURATION_NAME REQUEST_DURATION_HELP HISTOGRAM
              (map (\<lambda>(m, r). duration_histogram_metric (label ''method'' m) (duration_buckets r)
                 (answered r + failed r) (rq_duration_micros_total r)) reqs)])"

subsection \<open>Cumulative counts\<close>

lemma length_cumulative_from [simp]: "length (cumulative_from r cs) = length cs"
  by (induction r cs rule: cumulative_from.induct) simp_all

lemma cumulative_from_nth:
  "i < length cs \<Longrightarrow> cumulative_from r cs ! i = r + sum_list (take (Suc i) cs)"
proof (induction r cs arbitrary: i rule: cumulative_from.induct)
  case (2 running c cs)
  then show ?case by (cases i) (auto simp: algebra_simps)
qed simp

lemma cumulative_nth: "i < length cs \<Longrightarrow> cumulative cs ! i = sum_list (take (Suc i) cs)"
  by (simp add: cumulative_def cumulative_from_nth)

lemma tally_split:
  "(\<And>x. x \<in> set xs \<Longrightarrow> (p x \<longleftrightarrow> q x \<or> r x) \<and> \<not> (q x \<and> r x)) \<Longrightarrow> tally p xs = tally q xs + tally r xs"
  by (induction xs) (auto simp: tally_def)

lemma tally_True: "(\<And>x. x \<in> set xs \<Longrightarrow> p x) \<Longrightarrow> tally p xs = of_nat (length xs)"
  by (simp add: tally_def)

lemma in_slot_Suc:
  assumes "sorted_wrt (<) bounds" "Suc i < length bounds"
  shows "in_slot bounds (Suc i) m \<longleftrightarrow> bounds ! i < m \<and> m \<le> bounds ! Suc i"
proof -
  have "bounds ! j \<le> bounds ! i" if "j < Suc i" for j
    using sorted_wrt_nth_less [OF assms(1), of j i] that assms(2) by (cases "j = i") auto
  then show ?thesis by (auto simp: in_slot_def intro: order.strict_trans1)
qed

lemma sum_slots:
  assumes "sorted_wrt (<) bounds" "i < length bounds"
  shows "sum_list (map (\<lambda>j. tally (\<lambda>a. in_slot bounds j (f a)) h) [0..<Suc i]) =
    tally (\<lambda>a. f a \<le> bounds ! i) h"
  using assms(2)
proof (induction i)
  case 0
  then show ?case by (simp add: in_slot_def)
next
  case (Suc i)
  have lt: "bounds ! i < bounds ! Suc i"
    using sorted_wrt_nth_less [OF assms(1), of i "Suc i"] Suc.prems by simp
  have "tally (\<lambda>a. f a \<le> bounds ! Suc i) h =
      tally (\<lambda>a. f a \<le> bounds ! i) h + tally (\<lambda>a. in_slot bounds (Suc i) (f a)) h"
    using lt by (intro tally_split) (auto simp: in_slot_Suc [OF assms(1) Suc.prems])
  with Suc show ?case by simp
qed

lemma cumulative_slots:
  assumes "sorted_wrt (<) bounds" "length bounds = n" "i < n"
  shows "cumulative (map (\<lambda>j. tally (\<lambda>a. in_slot bounds j (f a)) h) [0..<n]) ! i =
    tally (\<lambda>a. f a \<le> bounds ! i) h"
proof -
  have "take (Suc i) [0..<n] = [0..<Suc i]"
    using assms(3) by (simp add: take_upt)
  then show ?thesis
    using sum_slots [OF assms(1), of i f h] assms(2,3) by (simp add: cumulative_nth take_map)
qed

lemma attempts_history: "attempts (history_snapshot h) = of_nat (length h)"
proof (induction h rule: rev_induct)
  case Nil
  then show ?case by (simp add: attempts_def outcomes_def history_snapshot_def)
next
  case (snoc a h)
  show ?case
  proof (cases a)
    case (Ended r)
    with snoc show ?thesis
      by (cases "rec_outcome r" rule: count_outcome.cases [of "(o', s)" for o' s, simplified])
        (auto simp: attempts_def outcomes_def history_snapshot_def)
  next
    case (Dropped d)
    with snoc show ?thesis by (simp add: attempts_def outcomes_def history_snapshot_def)
  qed
qed

text \<open>
  C31: The latency histogram of an upstream is right: after any history, its sample count is the
  number of attempts on that upstream, and the bucket of each bound counts exactly the attempts that
  ran at most that many microseconds (modulo the \<open>u64\<close> wrap-around), so the buckets are cumulative
  and the implicit last bucket carries every attempt.
\<close>

theorem attempt_histogram_correct:
  assumes "u \<in> set ids" "i < 10"
  shows "\<exists>s hist. snapshot_of (run_events evs (new_observer ids)) u = Some s \<and>
     m_value (histogram_metric (as_str u) s) = Histogram hist \<and>
     sample_count hist = of_nat (length (attempts_on u evs)) \<and>
     length (bucket_list hist) = 10 \<and>
     upper_bound (bucket_list hist ! i) = f64_div (f64_of_u64 (BUCKET_BOUNDS_MICROS ! i)) 1000000 \<and>
     cumulative_count (bucket_list hist ! i) =
       tally (\<lambda>a. ran_micros a \<le> BUCKET_BOUNDS_MICROS ! i) (attempts_on u evs)"
proof -
  let ?h = "attempts_on u evs"
  have s: "snapshot_of (run_events evs (new_observer ids)) u = Some (history_snapshot ?h)"
    using assms(1) by (simp add: snapshot_of_exact)
  have c: "cumulative (buckets (history_snapshot ?h)) ! i =
      tally (\<lambda>a. ran_micros a \<le> BUCKET_BOUNDS_MICROS ! i) ?h"
    using cumulative_slots [OF bucket_bounds_increase length_bucket_bounds assms(2), of ran_micros ?h]
    by (simp add: history_snapshot_def del: upt_Suc upt_rec_numeral)
  have len: "length (cumulative (buckets (history_snapshot ?h))) = 10"
    by (simp add: cumulative_def history_snapshot_def)
  show ?thesis
    using s c len assms(2)
    by (simp add: histogram_metric_def duration_histogram_metric_def attempts_history
        MICROS_PER_SECOND_def)
qed

subsection \<open>The families and their descriptors\<close>

definition label_names :: "metric \<Rightarrow> bytes list" where
  "label_names m = map lp_name (m_label m)"

fun type_of_value :: "metric_value \<Rightarrow> metric_type" where
  "type_of_value (Counter _) = COUNTER"
| "type_of_value (Histogram _) = HISTOGRAM"

text \<open>What an advertised descriptor promises of a family.\<close>

definition described :: "desc \<Rightarrow> metric_family \<Rightarrow> bool" where
  "described d f \<longleftrightarrow> fam_name f = fq_name d \<and> fam_help f = desc_help d \<and>
     list_all (\<lambda>m. label_names m = variable_labels d \<and> type_of_value (m_value m) = fam_type f)
       (fam_metrics f)"

lemmas metric_defs =
  counter_metric_def histogram_metric_def duration_histogram_metric_def attempts_histogram_metric_def
  pair_counter_metric_def request_counter_metric_def upstream_counter_metric_def
  unlabelled_counter_metric_def label_def

text \<open>
  The collector emits exactly the families it advertises, in the advertised order: whenever it
  emits anything, each family has the name and help text of its descriptor, and each of its metrics
  carries exactly the advertised labels and a value of the family's type. It emits nothing only when
  it tracks no upstream.
\<close>

theorem collect_as_described:
  "(collect obs = [] \<longleftrightarrow> stats obs = []) \<and>
   (stats obs \<noteq> [] \<longrightarrow> list_all2 described collector_desc (collect obs))"
proof -
  have e: "snapshots obs = [] \<longleftrightarrow> stats obs = []"
    by (metis snapshots_def rekey_def length_0_conv length_map length_sort)
  then show ?thesis
    by (simp add: collect_def Let_def collector_desc_def new_desc_def pair_desc_def family_def
        described_def label_names_def list_all_iff per_pair_def outcomes_def metric_defs
        split_beta)
qed

subsection \<open>A concrete observer\<close>

theorem attempt_histogram_correct_witness:
  "\<exists>s hist. snapshot_of (run_events [Abandoned (UpstreamId ''a'') 7000000] (new_observer [UpstreamId ''a'']))
       (UpstreamId ''a'') = Some s \<and>
     m_value (histogram_metric ''a'' s) = Histogram hist \<and>
     sample_count hist =
       of_nat (length (attempts_on (UpstreamId ''a'') [Abandoned (UpstreamId ''a'') 7000000])) \<and>
     length (bucket_list hist) = 10 \<and>
     upper_bound (bucket_list hist ! 1) = f64_div (f64_of_u64 (BUCKET_BOUNDS_MICROS ! 1)) 1000000 \<and>
     cumulative_count (bucket_list hist ! 1) =
       tally (\<lambda>a. ran_micros a \<le> BUCKET_BOUNDS_MICROS ! 1)
         (attempts_on (UpstreamId ''a'') [Abandoned (UpstreamId ''a'') 7000000])"
  using attempt_histogram_correct [of "UpstreamId ''a''" "[UpstreamId ''a'']" 1
      "[Abandoned (UpstreamId ''a'') 7000000]"]
  by simp

theorem collect_as_described_witness:
  "list_all2 described collector_desc (collect (new_observer [UpstreamId ''a'', UpstreamId ''b'']))"
  using collect_as_described [of "new_observer [UpstreamId ''a'', UpstreamId ''b'']"]
  by (simp add: new_observer_def Let_def)

end
