(* ===== verification/App.thy ===== *)
theory App
  imports Service Refresher Config Prometheus
begin

text \<open>
  \<open>src/app.rs\<close> and \<open>src/http/cors.rs\<close>: how the parts are wired out of the settings. The decider behind
  \<open>Arc<dyn Decider>\<close> is a datatype with one constructor per implementation, each with its refresher
  where it has one. Binding the socket and building the HTTP client are the outside world: what they
  return is an argument.
\<close>

subsection \<open>The configured decider\<close>

datatype dyn_decider =
  DynRoundRobin round_robin
| DynLeastErrors ranking_refresher prefer_least_errors
| DynLeastLatency latency_refresher least_latency

fun dyn_decide :: "dyn_decider \<Rightarrow> nat \<Rightarrow> upstream list \<times> dyn_decider" where
  "dyn_decide (DynRoundRobin d) n = (case rr_decide d n of (c, d') \<Rightarrow> (c, DynRoundRobin d'))"
| "dyn_decide (DynLeastErrors rf d) n = (case ple_decide d n of (c, d') \<Rightarrow> (c, DynLeastErrors rf d'))"
| "dyn_decide (DynLeastLatency rf d) n = (case ll_decide d n of (c, d') \<Rightarrow> (c, DynLeastLatency rf d'))"

fun dyn_upstream_len :: "dyn_decider \<Rightarrow> nat" where
  "dyn_upstream_len (DynRoundRobin d) = rr_upstream_len d"
| "dyn_upstream_len (DynLeastErrors rf d) = ple_upstream_len d"
| "dyn_upstream_len (DynLeastLatency rf d) = ll_upstream_len d"

fun dyn_pool :: "dyn_decider \<Rightarrow> upstream list" where
  "dyn_pool (DynRoundRobin d) = rr_upstreams d"
| "dyn_pool (DynLeastErrors rf d) = ple_ranking d"
| "dyn_pool (DynLeastLatency rf d) = ll_ranking d"

definition build_decider ::
  "decider_kind \<Rightarrow> upstream list \<Rightarrow> metrics_observer \<Rightarrow> duration \<Rightarrow> (decider_error, dyn_decider) result" where
  "build_decider kind ups obs rpc_timeout =
     (case kind of
        RoundRobin \<Rightarrow> and_then (rr_new ups) (\<lambda>d. Inr (DynRoundRobin d))
      | PreferLeastErrors \<Rightarrow> and_then (ple_new ups obs None None) (\<lambda>(rf, d). Inr (DynLeastErrors rf d))
      | LeastLatency \<Rightarrow>
          and_then (ll_new ups obs rpc_timeout None None None) (\<lambda>(rf, d). Inr (DynLeastLatency rf d)))"

subsection \<open>CORS\<close>

datatype allow_origin = AnyOrigin | OriginList "bytes list"

record cors_layer =
  allow_origin :: allow_origin
  allow_methods :: "bytes list"
  allow_headers :: "bytes list"
  max_age :: duration

definition cors_layer_of :: "http_parsers \<Rightarrow> cors_settings \<Rightarrow> (bytes, cors_layer option) result" where
  "cors_layer_of hp c =
     (let origins = allowed_origins c;
          with_origin = (\<lambda>a. Some \<lparr>allow_origin = a, allow_methods = [''POST''],
            allow_headers = [''content-type''], max_age = 3600 * 1000000000\<rparr>)
      in if origins = [] then Inr None
         else if WILDCARD_ORIGIN \<in> set origins then Inr (with_origin AnyOrigin)
         else and_then (collect_results (map (\<lambda>o'. if header_value hp o' then Inr o' else Inl o') origins))
                (\<lambda>os. Inr (with_origin (OriginList os))))"

subsection \<open>The application\<close>

datatype app_error =
  HttpClientFailed
| UpstreamsFailed build_all_error
| DeciderFailed decider_error
| PipelineFailed pipeline_error
| CorsFailed bytes
| BindFailed bytes

record application_state =
  app_port :: "16 word"
  app_pipeline :: "dyn_decider pipeline"
  app_observer :: metrics_observer
  app_cors :: "cors_layer option"

text \<open>
  \<open>bind\<close> gives the port of the bound listener, or fails with the binding or with reading its address.
  \<open>Collector::new\<close> and \<open>Registry::register\<close> have no failure here: the names they check are constants,
  valid and registered once.
\<close>

definition app_new ::
  "http_parsers \<Rightarrow> (bytes \<Rightarrow> 16 word option) \<Rightarrow> application_settings \<Rightarrow> metrics_observer \<Rightarrow> dyn_decider \<Rightarrow>
     (app_error, application_state) result" where
  "app_new hp bind s obs d =
     (let ps = proxy s
      in and_then
        (map_err PipelineFailed
          (pipeline_new d (Some (ps_max_attempt ps)) (Some (from_secs (retry_after_in_secs ps)))
            (Some (if hedge_enabled (ps_hedge ps) then Hedged else Sequential))
            (Some (dedup_enabled (ps_dedup ps)))))
        (\<lambda>pl. and_then (map_err CorsFailed (cors_layer_of hp (cors s))) (\<lambda>c.
          let addr = host s @ '':'' @ dec (unat (port s))
          in (case bind addr of
                None \<Rightarrow> Inl (BindFailed addr)
              | Some p \<Rightarrow> Inr \<lparr>app_port = p, app_pipeline = pl, app_observer = obs, app_cors = c\<rparr>))))"

text \<open>\<open>builds\<close>: the HTTP client can be built with what it is given.\<close>

definition app_build ::
  "http_parsers \<Rightarrow> (bytes \<Rightarrow> 16 word option) \<Rightarrow> (http_client_config \<Rightarrow> bool) \<Rightarrow> settings \<Rightarrow> (app_error, application_state) result" where
  "app_build hp bind builds s =
     (if \<not> builds (build_http_client (proxy (application s))) then Inl HttpClientFailed
      else and_then (map_err UpstreamsFailed (build_all (upstreams s) (proxy (application s)))) (\<lambda>ups.
        let obs = new_observer (map uid ups)
        in and_then
             (map_err DeciderFailed
               (build_decider (decider s) ups obs (from_secs (rpc_timeout_in_secs (proxy (application s))))))
             (\<lambda>d. app_new hp bind (application s) obs d)))"

subsection \<open>Any configured decider keeps the contract\<close>

interpretation dyn: decider_contract dyn_decide dyn_upstream_len dyn_pool "\<lambda>d. dyn_pool d \<noteq> []"
proof unfold_locales
  fix d n
  assume ne: "dyn_pool d \<noteq> []"
  show "\<exists>ys. mset ys = mset (dyn_pool d) \<and> fst (dyn_decide d n) = take n ys"
    using ne rr.arrangement [of _ n] ple.arrangement [of _ n] ll.arrangement [of _ n]
    by (cases d) (simp_all add: split_beta)
next
  fix d n
  show pool: "dyn_pool (snd (dyn_decide d n)) = dyn_pool d"
    using rr.keeps_pool [of _ n] ple.keeps_pool [of _ n] ll.keeps_pool [of _ n]
    by (cases d) (simp_all add: split_beta)
  show "dyn_pool d \<noteq> [] \<Longrightarrow> dyn_pool (snd (dyn_decide d n)) \<noteq> []"
    by (simp add: pool)
  show "dyn_upstream_len d = length (dyn_pool d)"
    by (cases d) (simp_all add: rr.len_pool ple.len_pool ll.len_pool)
qed

text \<open>
  The upstreams a request tries: with any of the three deciders, whatever its ranking and
  counter, every attempt a run reports is on an upstream of the configured pool, no upstream gets
  two, there are no more of them than \<open>max_attempt\<close> nor than the pool has, the request is reported
  once, with the number of upstreams tried within the same bounds, and the pool is what it was.
\<close>

theorem tried_are_configured:
  assumes "core_start dyn_decide sj net body received_at evs p w = Some (reply, p', w')"
    and "dyn_pool (pl_decider p) \<noteq> []" "distinct (map uid (dyn_pool (pl_decider p)))"
    and "0 < max_attempt (pl_core p)"
  shows "\<exists>calls ok n d. log w' = log w @ calls @ [Request (method_label sj body) ok n d] \<and>
    distinct (attempt_uids calls) \<and>
    set (attempt_uids calls) \<subseteq> uid ` set (dyn_pool (pl_decider p)) \<and>
    length (attempt_uids calls) \<le> n \<and>
    n \<le> min (length (dyn_pool (pl_decider p))) (max_attempt (pl_core p)) \<and>
    \<not> list_ex is_request calls \<and> dyn_pool (pl_decider p') = dyn_pool (pl_decider p)"
proof -
  let ?n = "max_attempt (pl_core p)"
  define chain where "chain = fst (dyn_decide (pl_decider p) ?n)"
  from assms(1) have run: "run_request sj net (pl_core p) chain body received_at evs w = Some (reply, w')"
    and p': "pl_decider p' = snd (dyn_decide (pl_decider p) ?n)"
    by (auto simp: core_start_def chain_def split_beta)
  have d: "distinct (map uid chain)" unfolding chain_def by (rule dyn.chain_distinct [OF assms(2,3)])
  have sub: "set chain \<subseteq> set (dyn_pool (pl_decider p))" unfolding chain_def by (rule dyn.chain_subset [OF assms(2)])
  have len: "length chain = min ?n (length (dyn_pool (pl_decider p)))"
    unfolding chain_def using dyn.chain_length [OF assms(2)] by (simp add: dyn.len_pool)
  obtain fin :: finished and calls where log: "log w' = log w @ calls @
      [Request (method_label sj body) (fin_ok (fin_result fin)) (length (fin_tried fin)) (now w' - received_at)]"
    and c: "\<not> list_ex is_request calls" "fin_tried fin = map uid (take (length (fin_tried fin)) chain)"
      "length (fin_tried fin) \<le> min (length chain) ?n" "length (attempt_uids calls) \<le> length (fin_tried fin)"
      "set (attempt_uids calls) \<subseteq> set (fin_tried fin)" "distinct (attempt_uids calls)"
    using run_facts [OF run assms(4)] d by blast
  have "set (fin_tried fin) \<subseteq> set (map uid chain)" using c(2) by (metis set_take_subset take_map)
  with c(5) have "set (attempt_uids calls) \<subseteq> uid ` set chain" by auto
  also have "\<dots> \<subseteq> uid ` set (dyn_pool (pl_decider p))" using sub by (rule image_mono)
  finally have sub': "set (attempt_uids calls) \<subseteq> uid ` set (dyn_pool (pl_decider p))" .
  then show ?thesis
    using log c len
    by (intro exI [of _ calls] exI [of _ "fin_ok (fin_result fin)"] exI [of _ "length (fin_tried fin)"]
        exI [of _ "now w' - received_at"]) (simp add: p' dyn.keeps_pool)
qed

subsection \<open>Validated settings start\<close>

lemma new_upstream_ok:
  "\<not> blank l \<Longrightarrow> \<not> blank a \<Longrightarrow> t \<noteq> 0 \<Longrightarrow> h \<noteq> 0 \<Longrightarrow> m \<noteq> 0 \<Longrightarrow>
   \<exists>u. new_upstream l a (Some t) (Some h) (Some m) = Inr u \<and> uid u = UpstreamId l"
  by (simp add: new_upstream_def Let_def)

lemma build_all_ok:
  assumes "\<forall>u \<in> set us. \<exists>x. build_one ps u = Inr x \<and> uid x = UpstreamId (us_label u)"
  shows "\<exists>ups. build_all us ps = Inr ups \<and> map uid ups = map (UpstreamId \<circ> us_label) us"
  using assms
proof (induction us)
  case (Cons u us)
  then obtain x ups where "build_one ps u = Inr x" "uid x = UpstreamId (us_label u)"
    "build_all us ps = Inr ups" "map uid ups = map (UpstreamId \<circ> us_label) us" by auto
  then show ?case by (simp add: build_all_def)
qed (simp add: build_all_def)

lemma no_unknown_upstream:
  "unknown_upstream (new_observer ids) ups = None \<longleftrightarrow> uid ` set ups \<subseteq> set ids"
  using snapshot_of_exact [of "[]" ids]
  by (induction ups) auto

lemma build_decider_ok:
  assumes "ups \<noteq> []" "uid ` set ups \<subseteq> set ids"
  shows "\<exists>d. build_decider kind ups (new_observer ids) t = Inr d \<and> dyn_pool d = ups"
proof -
  have "unknown_upstream (new_observer ids) ups = None" using assms(2) by (simp add: no_unknown_upstream)
  with assms(1) show ?thesis
    by (cases kind) (simp_all add: build_decider_def rr_new_def ple_new_def ll_new_def Let_def WINDOW_DEFAULT_def)
qed

lemma cors_layer_ok:
  assumes "validate_cors hp c = Inr ()"
  shows "\<exists>l. cors_layer_of hp c = Inr l \<and> (l = None \<longleftrightarrow> allowed_origins c = [])"
proof (cases "WILDCARD_ORIGIN \<in> set (allowed_origins c) \<or> allowed_origins c = []")
  case True
  then show ?thesis by (auto simp: cors_layer_of_def Let_def)
next
  case False
  with assms have "\<forall>x \<in> set (allowed_origins c). validate_origin hp x = Inr ()"
    by (simp add: validate_cors_def Let_def validate_origins_Inr)
  then have "\<forall>x \<in> set (allowed_origins c). header_value hp x"
    by (auto simp: validate_origin_def split: if_splits)
  then have "collect_results (map (\<lambda>o'. if header_value hp o' then Inr o' else Inl o') (allowed_origins c)) =
      Inr (allowed_origins c)"
    by (auto simp: collect_results_Inr)
  with False show ?thesis by (simp add: cors_layer_of_def Let_def)
qed

text \<open>
  C38: Validated settings start: settings that pass validation, with a timeout, a response cap and an
  attempt limit that are not 0, always build an application once the client and the socket are
  there; its pool is the configured upstreams in order, each under its own label, its observer
  counts exactly them, its pipeline has the configured limits and dispatch, and CORS is on exactly
  when an origin is configured.
\<close>

theorem validated_settings_start:
  assumes "validate_settings hp s = Inr ()" "bind (host (application s) @ '':'' @ dec (unat (port (application s)))) = Some q"
    and "rpc_timeout_in_secs (proxy (application s)) \<noteq> 0" "ps_max_response_bytes (proxy (application s)) \<noteq> 0"
    and "ps_max_attempt (proxy (application s)) \<noteq> 0" "builds (build_http_client (proxy (application s)))"
  shows "\<exists>a. app_build hp bind builds s = Inr a \<and> app_port a = q \<and>
    map uid (dyn_pool (pl_decider (app_pipeline a))) = map (UpstreamId \<circ> us_label) (upstreams s) \<and>
    distinct (map uid (dyn_pool (pl_decider (app_pipeline a)))) \<and>
    dyn_pool (pl_decider (app_pipeline a)) \<noteq> [] \<and>
    set (map fst (stats (app_observer a))) = UpstreamId ` us_label ` set (upstreams s) \<and>
    pl_core (app_pipeline a) =
      \<lparr>max_attempt = unat (ps_max_attempt (proxy (application s))),
       retry_after = from_secs (retry_after_in_secs (proxy (application s))),
       core_dispatch = (if hedge_enabled (ps_hedge (proxy (application s))) then Hedged else Sequential)\<rparr> \<and>
    (app_cors a = None \<longleftrightarrow> allowed_origins (cors (application s)) = [])"
proof -
  let ?ps = "proxy (application s)"
  have cors: "validate_cors hp (cors (application s)) = Inr ()" and ne: "upstreams s \<noteq> []"
    and h: "after_in_millis (ps_hedge ?ps) \<noteq> 0"
    and us: "validate_upstreams 0 {} (\<lambda>_. None) (upstreams s) = Inr ()"
    using assms(1) by (auto simp: validate_settings_def split: if_splits)
  have "\<exists>x. build_one ?ps u = Inr x \<and> uid x = UpstreamId (us_label u)" if "u \<in> set (upstreams s)" for u
  proof -
    from us that have "\<not> blank (us_label u)" "\<not> blank (us_url u)" "hedge_after_in_millis u \<noteq> Some 0"
      by (auto simp: validate_upstreams_Inr)
    with h assms(3,4) show ?thesis
      unfolding build_one_def by (auto intro: new_upstream_ok split: option.split)
  qed
  with build_all_ok obtain ups where ups: "build_all (upstreams s) ?ps = Inr ups"
    "map uid ups = map (UpstreamId \<circ> us_label) (upstreams s)" by blast
  have ups_ne: "ups \<noteq> []" using ups(2) ne by auto
  have "distinct (map us_label (upstreams s))" using us by (simp add: validate_upstreams_Inr)
  then have dist: "distinct (map uid ups)"
    unfolding ups(2) by (simp add: distinct_map comp_inj_on_iff [symmetric] inj_on_def)
  obtain d where d: "build_decider (decider s) ups (new_observer (map uid ups)) (from_secs (rpc_timeout_in_secs ?ps)) = Inr d"
    "dyn_pool d = ups" using build_decider_ok [OF ups_ne, of "map uid ups"] by auto
  obtain l where l: "cors_layer_of hp (cors (application s)) = Inr l"
    "l = None \<longleftrightarrow> allowed_origins (cors (application s)) = []" using cors_layer_ok [OF cors] by blast
  have keys: "set (map fst (stats (new_observer (map uid ups)))) = UpstreamId ` us_label ` set (upstreams s)"
    unfolding new_observer_keys ups(2) by (simp add: image_comp)
  show ?thesis
    using ups d l dist keys ups_ne assms(2,5,6)
    by (simp add: app_build_def app_new_def pipeline_new_def Let_def)
qed

subsection \<open>A concrete application\<close>

theorem validated_settings_start_witness:
  "\<exists>a. app_build \<lparr>header_value = (\<lambda>_. True), parse_uri = (\<lambda>_. None)\<rparr> (\<lambda>_. Some 8080)
      (\<lambda>c. connect_timeout c = 3000000000) demo_settings = Inr a \<and>
    app_port a = 8080 \<and>
    map uid (dyn_pool (pl_decider (app_pipeline a))) = [UpstreamId ''a'', UpstreamId ''b'']"
proof -
  have v: "validate_settings \<lparr>header_value = (\<lambda>_. True), parse_uri = (\<lambda>_. None)\<rparr> demo_settings = Inr ()"
    by (simp add: validate_settings_def demo_settings_def validate_cors_def WILDCARD_ORIGIN_def contains_def
        blank_def trim_def ws_scalars_def trim_with.simps)
  have l: "map (UpstreamId \<circ> us_label) (upstreams demo_settings) = [UpstreamId ''a'', UpstreamId ''b'']"
    by (simp add: demo_settings_def)
  have b: "(\<lambda>_. Some 8080) (host (application demo_settings) @ '':'' @ dec (unat (port (application demo_settings)))) =
      Some (8080 :: 16 word)" by simp
  have nz: "rpc_timeout_in_secs (proxy (application demo_settings)) \<noteq> 0"
    "ps_max_response_bytes (proxy (application demo_settings)) \<noteq> 0"
    "ps_max_attempt (proxy (application demo_settings)) \<noteq> 0"
    by (simp_all add: demo_settings_def)
  have c: "(\<lambda>c. connect_timeout c = 3000000000) (build_http_client (proxy (application demo_settings)))"
    by (simp add: demo_settings_def build_http_client_def from_secs_def)
  show ?thesis
    using validated_settings_start [where bind = "\<lambda>_. Some 8080" and builds = "\<lambda>c. connect_timeout c = 3000000000",
        OF v b nz c] unfolding l by (elim exE conjE) (intro exI conjI)
qed

definition demo_pipeline :: "dyn_decider pipeline" where
  "demo_pipeline =
     \<lparr>pl_core = demo_core,
      pl_decider = DynRoundRobin \<lparr>rr_upstreams = map demo_upstream [''c'', ''a'', ''b''], rr_next = 1\<rparr>,
      pl_flights = None\<rparr>"

lemma demo_start:
  "core_start dyn_decide demo_serde demo_network ''{}'' 0 [] demo_pipeline \<lparr>now = 0, log = []\<rparr> =
     Some (demo_reply, demo_pipeline\<lparr>pl_decider :=
       DynRoundRobin \<lparr>rr_upstreams = map demo_upstream [''c'', ''a'', ''b''], rr_next = 2\<rparr>\<rparr>, demo_end)"
proof -
  have c: "fst (dyn_decide (pl_decider demo_pipeline) 2) = take 2 (map demo_upstream [''a'', ''b'', ''c''])"
    and d: "snd (dyn_decide (pl_decider demo_pipeline) 2) =
      DynRoundRobin \<lparr>rr_upstreams = map demo_upstream [''c'', ''a'', ''b''], rr_next = 2\<rparr>"
    by (simp_all add: demo_pipeline_def rr_decide_def Let_def)
  have m: "max_attempt demo_core = 2" "core_dispatch demo_core = Sequential" by (simp_all add: demo_core_def)
  have "walk demo_serde demo_network demo_core (take 2 ch) b w = walk demo_serde demo_network demo_core ch b w"
    for ch b w
    by (simp add: walk_eq walk_visits_def m)
  then have "run_request demo_serde demo_network demo_core (take 2 ch) b 0 [] w =
      run_request demo_serde demo_network demo_core ch b 0 [] w" for ch b w
    by (simp add: run_request_def Let_def m)
  with demo_request have "run_request demo_serde demo_network demo_core
      (fst (dyn_decide (pl_decider demo_pipeline) 2)) ''{}'' 0 [] \<lparr>now = 0, log = []\<rparr> = Some (demo_reply, demo_end)"
    by (simp only: c)
  moreover have "pl_core demo_pipeline = demo_core" by (simp add: demo_pipeline_def)
  ultimately show ?thesis by (simp add: core_start_def split_beta m d)
qed

theorem tried_are_configured_witness:
  "\<exists>calls ok n d. log demo_end = calls @ [Request (method_label demo_serde ''{}'') ok n d] \<and>
    distinct (attempt_uids calls) \<and> n \<le> 2"
proof -
  have p: "dyn_pool (pl_decider demo_pipeline) \<noteq> []" "distinct (map uid (dyn_pool (pl_decider demo_pipeline)))"
    "0 < max_attempt (pl_core demo_pipeline)" "max_attempt (pl_core demo_pipeline) = 2"
    by (simp_all add: demo_pipeline_def demo_core_def demo_upstream_def)
  from tried_are_configured [OF demo_start p(1-3)] p(4) show ?thesis by (auto simp del: distinct_map)
qed

end
