(* ===== verification/Deciding.thy ===== *)
theory Deciding
  imports App
begin

text \<open>
  Decisions of concurrent handlers, below the level of one \<open>decide\<close>
  (\<open>src/decider/least_latency/mod.rs\<close> and its siblings). \<open>LeastLatency::decide\<close> loads the ranking from
  an \<open>ArcSwap\<close>, then draws a number from an \<open>AtomicU64\<close>, and computes its chain of the two; between the
  two accesses other handlers decide and the refresher may store another ranking, so a decision may
  pair a ranking with a number of a later time. The theory interleaves the two accesses of any number
  of handlers with refreshes and shows what of a sequential decider is left: the decisions, in the
  order of their numbers, are those a sequential decider takes on rankings that were in force.
  \<open>RoundRobin\<close> has the number only and \<open>PreferLeastErrors\<close> the ranking only: the other access does
  nothing there.
\<close>

subsection \<open>The accesses\<close>

text \<open>The refresher's tick: round robin has none, and a refresher that panicked is gone.\<close>

fun dyn_refresh :: "metrics_observer \<Rightarrow> dyn_decider \<Rightarrow> dyn_decider option" where
  "dyn_refresh obs (DynRoundRobin d) = None"
| "dyn_refresh obs (DynLeastErrors rf d) =
     map_option (\<lambda>(rf', d'). DynLeastErrors rf' d') (ple_refresh obs (rf, d))"
| "dyn_refresh obs (DynLeastLatency rf d) =
     map_option (\<lambda>(rf', d'). DynLeastLatency rf' d') (ll_refresh obs (rf, d))"

fun dyn_can_run :: "dyn_decider \<Rightarrow> bool" where
  "dyn_can_run (DynRoundRobin d) = True"
| "dyn_can_run (DynLeastErrors rf d) = can_run rf"
| "dyn_can_run (DynLeastLatency rf d) = can_run rf"

text \<open>
  What \<open>decide\<close> computes from a ranking loaded earlier and the number it draws now is
  \<open>fst (dyn_decide (with_ranking r d) n)\<close>; what it leaves behind is \<open>snd (dyn_decide d n)\<close>.
\<close>

fun with_ranking :: "upstream list \<Rightarrow> dyn_decider \<Rightarrow> dyn_decider" where
  "with_ranking r (DynRoundRobin d) = DynRoundRobin d"
| "with_ranking r (DynLeastErrors rf d) = DynLeastErrors rf (d\<lparr>ple_ranking := r\<rparr>)"
| "with_ranking r (DynLeastLatency rf d) = DynLeastLatency rf (d\<lparr>ll_ranking := r\<rparr>)"

text \<open>The rankings a handler may hold: the same upstreams, in any order.\<close>

definition may_load :: "upstream list \<Rightarrow> dyn_decider \<Rightarrow> bool" where
  "may_load r d \<longleftrightarrow> mset r = mset (dyn_pool d)"

subsection \<open>Handlers that decide at once\<close>

datatype caller = Entered nat | Loaded nat "upstream list" | Chose "upstream list"

record decision =
  dn_caller :: nat
  dn_max :: nat
  dn_loaded :: "upstream list"
  dn_chain :: "upstream list"

text \<open>\<open>decisions\<close>, in the order the numbers were drawn, and \<open>in_force\<close> are kept for the lemmas to speak of.\<close>

record deciding =
  dg_decider :: dyn_decider
  dg_callers :: "caller list"
  decisions :: "decision list"
  in_force :: "upstream list list"

datatype decide_event = Enters nat | LoadsRanking nat | DrawsNumber nat | Reranks metrics_observer

fun deciding_step :: "decide_event \<Rightarrow> deciding \<Rightarrow> deciding option" where
  "deciding_step (Enters n) s = Some (s\<lparr>dg_callers := dg_callers s @ [Entered n]\<rparr>)"
| "deciding_step (LoadsRanking i) s =
     (if i < length (dg_callers s) then
        case dg_callers s ! i of
          Entered n \<Rightarrow> Some (s\<lparr>dg_callers := (dg_callers s)[i := Loaded n (dyn_pool (dg_decider s))]\<rparr>)
        | _ \<Rightarrow> None
      else None)"
| "deciding_step (DrawsNumber i) s =
     (if i < length (dg_callers s) then
        case dg_callers s ! i of
          Loaded n r \<Rightarrow>
            let chain = fst (dyn_decide (with_ranking r (dg_decider s)) n)
            in Some (s\<lparr>dg_decider := snd (dyn_decide (dg_decider s) n),
                       dg_callers := (dg_callers s)[i := Chose chain],
                       decisions := decisions s @ [\<lparr>dn_caller = i, dn_max = n, dn_loaded = r, dn_chain = chain\<rparr>]\<rparr>)
        | _ \<Rightarrow> None
      else None)"
| "deciding_step (Reranks seen) s =
     map_option (\<lambda>d. s\<lparr>dg_decider := d, in_force := in_force s @ [dyn_pool d]\<rparr>) (dyn_refresh seen (dg_decider s))"

definition deciding_start :: "dyn_decider \<Rightarrow> deciding" where
  "deciding_start d = \<lparr>dg_decider = d, dg_callers = [], decisions = [], in_force = [dyn_pool d]\<rparr>"

inductive deciding_reach :: "dyn_decider \<Rightarrow> deciding \<Rightarrow> bool" for d where
  deciding_begin: "deciding_reach d (deciding_start d)"
| deciding_next: "deciding_reach d s \<Longrightarrow> deciding_step ev s = Some s' \<Longrightarrow> deciding_reach d s'"

fun deciding_exec :: "decide_event list \<Rightarrow> deciding \<Rightarrow> deciding option" where
  "deciding_exec [] s = Some s"
| "deciding_exec (ev # evs) s = Option.bind (deciding_step ev s) (deciding_exec evs)"

lemma deciding_exec_reach:
  "deciding_exec evs s = Some s' \<Longrightarrow> deciding_reach d s \<Longrightarrow> deciding_reach d s'"
  by (induction evs arbitrary: s) (auto simp: bind_eq_Some_conv intro: deciding_next simp del: deciding_step.simps)

text \<open>The decider after decisions, one after another, of at most so many upstreams each.\<close>

definition decided :: "nat list \<Rightarrow> dyn_decider \<Rightarrow> dyn_decider" where
  "decided ns d = fold (\<lambda>n d. snd (dyn_decide d n)) ns d"

subsection \<open>A refresh, and what a decision depends on\<close>

lemma dyn_refresh_runs:
  "dyn_can_run d \<Longrightarrow> dyn_refresh obs d = Some d' \<Longrightarrow> dyn_can_run d' \<and> mset (dyn_pool d') = mset (dyn_pool d)"
proof (cases d)
  case (DynLeastErrors rf e)
  then show "dyn_can_run d \<Longrightarrow> dyn_refresh obs d = Some d' \<Longrightarrow> ?thesis"
    using ple_refresh_runs [of rf obs e] by auto
next
  case (DynLeastLatency rf e)
  then show "dyn_can_run d \<Longrightarrow> dyn_refresh obs d = Some d' \<Longrightarrow> ?thesis"
    using ll_refresh_runs [of rf obs e] by auto
qed simp

lemma dyn_refresh_none:
  "dyn_can_run d \<Longrightarrow> dyn_refresh obs d = None \<longleftrightarrow> (\<exists>r. d = DynRoundRobin r)"
proof (cases d)
  case (DynLeastErrors rf e)
  then show "dyn_can_run d \<Longrightarrow> ?thesis" using ple_refresh_runs [of rf obs e] by auto
next
  case (DynLeastLatency rf e)
  then show "dyn_can_run d \<Longrightarrow> ?thesis" using ll_refresh_runs [of rf obs e] by auto
qed simp

lemma dyn_decide_can_run [simp]: "dyn_can_run (snd (dyn_decide d n)) = dyn_can_run d"
  by (cases d) (simp_all add: split_beta)

text \<open>Two deciders with the same turn decide alike on the same ranking.\<close>

fun same_turn :: "dyn_decider \<Rightarrow> dyn_decider \<Rightarrow> bool" where
  "same_turn (DynRoundRobin a) (DynRoundRobin b) \<longleftrightarrow> a = b"
| "same_turn (DynLeastErrors rf a) (DynLeastErrors rf' b) \<longleftrightarrow> True"
| "same_turn (DynLeastLatency rf a) (DynLeastLatency rf' b) \<longleftrightarrow> ll_requests a = ll_requests b"
| "same_turn _ _ \<longleftrightarrow> False"

lemma same_turn_refl [simp]: "same_turn d d"
  by (cases d) simp_all

lemma same_turn_decides:
  "same_turn d e \<Longrightarrow> fst (dyn_decide (with_ranking r d) n) = fst (dyn_decide (with_ranking r e) n)"
  by (induction d e rule: same_turn.induct) (simp_all add: split_beta ple_decide_def ll_decide_def Let_def)

lemma same_turn_next: "same_turn d e \<Longrightarrow> same_turn (snd (dyn_decide d n)) (snd (dyn_decide e n))"
  by (induction d e rule: same_turn.induct) (simp_all add: split_beta ll_decide_next)

lemma same_turn_refresh:
  assumes "same_turn d e" "dyn_can_run d" "dyn_refresh obs d = Some d'"
  shows "same_turn d' e"
  using assms
proof (induction d e rule: same_turn.induct)
  case (3 rf a rf' b)
  then show ?case using ll_refresh_runs [of rf obs a] by auto
qed auto

lemma with_ranking_pool: "mset r = mset (dyn_pool d) \<Longrightarrow> mset (dyn_pool (with_ranking r d)) = mset (dyn_pool d)"
  by (cases d) simp_all

lemma with_own_ranking [simp]: "with_ranking (dyn_pool d) d = d"
  by (cases d) simp_all

lemma decided_pool [simp]: "dyn_pool (decided ns d) = dyn_pool d"
  by (induction ns arbitrary: d) (simp_all add: decided_def dyn.keeps_pool)

lemma decided_snoc [simp]: "decided (ns @ [n]) d = snd (dyn_decide (decided ns d) n)"
  by (simp add: decided_def)

lemma decided_Nil [simp]: "decided [] d = d"
  by (simp add: decided_def)

text \<open>A chain on a ranking of the pool is the beginning of an arrangement of the pool.\<close>

lemma stale_arrangement:
  assumes "may_load r d" "dyn_pool d \<noteq> []"
  shows "\<exists>ys. mset ys = mset (dyn_pool d) \<and> fst (dyn_decide (with_ranking r d) n) = take n ys"
proof -
  have p: "mset (dyn_pool (with_ranking r d)) = mset (dyn_pool d)"
    using assms(1) unfolding may_load_def by (rule with_ranking_pool)
  then have "dyn_pool (with_ranking r d) \<noteq> []" using assms(2) by (metis mset_zero_iff)
  from dyn.arrangement [OF this, of n] p show ?thesis by metis
qed

subsection \<open>What any interleaving keeps\<close>

definition decision_ok :: "dyn_decider \<Rightarrow> nat list \<Rightarrow> decision \<Rightarrow> bool" where
  "decision_ok d ns dn \<longleftrightarrow>
     dn_chain dn = fst (dyn_decide (with_ranking (dn_loaded dn) (decided ns d)) (dn_max dn))"

definition decisions_ok :: "dyn_decider \<Rightarrow> decision list \<Rightarrow> bool" where
  "decisions_ok d ds \<longleftrightarrow> (\<forall>k < length ds. decision_ok d (map dn_max (take k ds)) (ds ! k))"

definition callers_ok :: "caller list \<Rightarrow> decision list \<Rightarrow> bool" where
  "callers_ok cs ds \<longleftrightarrow>
     distinct (map dn_caller ds) \<and>
     (\<forall>dn \<in> set ds. dn_caller dn < length cs \<and> cs ! dn_caller dn = Chose (dn_chain dn))"

definition rankings_ok :: "dyn_decider \<Rightarrow> deciding \<Rightarrow> bool" where
  "rankings_ok d s \<longleftrightarrow>
     dyn_pool (dg_decider s) \<in> set (in_force s) \<and>
     (\<forall>r \<in> set (in_force s). mset r = mset (dyn_pool d)) \<and>
     (\<forall>n r. Loaded n r \<in> set (dg_callers s) \<longrightarrow> r \<in> set (in_force s)) \<and>
     (\<forall>dn \<in> set (decisions s). dn_loaded dn \<in> set (in_force s))"

definition deciding_ok :: "dyn_decider \<Rightarrow> deciding \<Rightarrow> bool" where
  "deciding_ok d s \<longleftrightarrow>
     dyn_can_run (dg_decider s) \<and>
     same_turn (dg_decider s) (decided (map dn_max (decisions s)) d) \<and>
     rankings_ok d s \<and> decisions_ok d (decisions s) \<and> callers_ok (dg_callers s) (decisions s)"

lemma decisions_ok_snoc:
  "decisions_ok d (ds @ [dn]) \<longleftrightarrow> decisions_ok d ds \<and> decision_ok d (map dn_max ds) dn"
  by (auto simp: decisions_ok_def nth_append less_Suc_eq)

lemma callers_ok_enter: "callers_ok cs ds \<Longrightarrow> callers_ok (cs @ [c]) ds"
  by (auto simp: callers_ok_def nth_append)

lemma callers_ok_busy: "callers_ok cs ds \<Longrightarrow> (\<And>ch. cs ! i \<noteq> Chose ch) \<Longrightarrow> i \<notin> dn_caller ` set ds"
  by (force simp: callers_ok_def)

lemma callers_ok_update:
  assumes "callers_ok cs ds" "\<And>ch. cs ! i \<noteq> Chose ch"
  shows "callers_ok (cs[i := c]) ds"
proof -
  have "i \<noteq> dn_caller dn" if "dn \<in> set ds" for dn using callers_ok_busy [OF assms] that by blast
  with assms(1) show ?thesis by (simp add: callers_ok_def)
qed

lemma callers_ok_choose:
  assumes "callers_ok cs ds" "i < length cs" "\<And>ch. cs ! i \<noteq> Chose ch" "dn_caller dn = i"
  shows "callers_ok (cs[i := Chose (dn_chain dn)]) (ds @ [dn])"
  using callers_ok_update [OF assms(1,3), of "Chose (dn_chain dn)"] callers_ok_busy [OF assms(1,3)] assms(2,4)
  by (auto simp: callers_ok_def)

lemma deciding_step_ok:
  assumes ok: "deciding_ok d s" and step: "deciding_step ev s = Some s'"
  shows "deciding_ok d s'"
proof (cases ev)
  case (Enters n)
  with ok step show ?thesis by (auto simp: deciding_ok_def rankings_ok_def callers_ok_enter)
next
  case (LoadsRanking i)
  with step obtain n where i: "i < length (dg_callers s)" "dg_callers s ! i = Entered n"
    and s': "s' = s\<lparr>dg_callers := (dg_callers s)[i := Loaded n (dyn_pool (dg_decider s))]\<rparr>"
    by (auto split: if_splits caller.splits)
  have "callers_ok (dg_callers s') (decisions s')"
    using ok i by (auto simp: s' deciding_ok_def intro!: callers_ok_update)
  moreover have "rankings_ok d s'"
    using ok by (auto simp: s' deciding_ok_def rankings_ok_def dest!: set_update_subset_insert [THEN subsetD])
  ultimately show ?thesis using ok by (simp add: s' deciding_ok_def)
next
  case (DrawsNumber i)
  then obtain n r where i: "i < length (dg_callers s)" "dg_callers s ! i = Loaded n r"
    using step by (auto split: if_splits caller.splits)
  let ?dn = "\<lparr>dn_caller = i, dn_max = n, dn_loaded = r,
    dn_chain = fst (dyn_decide (with_ranking r (dg_decider s)) n)\<rparr>"
  from DrawsNumber step i have s': "s' = s\<lparr>dg_decider := snd (dyn_decide (dg_decider s) n),
      dg_callers := (dg_callers s)[i := Chose (dn_chain ?dn)], decisions := decisions s @ [?dn]\<rparr>"
    by (simp add: Let_def)
  from ok have turn: "same_turn (dg_decider s) (decided (map dn_max (decisions s)) d)" by (simp add: deciding_ok_def)
  have "callers_ok (dg_callers s') (decisions s')"
    using ok i callers_ok_choose [of "dg_callers s" "decisions s" i ?dn] by (simp add: s' deciding_ok_def)
  moreover have "Loaded n r \<in> set (dg_callers s)" using i nth_mem by metis
  then have "rankings_ok d s'"
    using ok by (auto simp: s' deciding_ok_def rankings_ok_def dyn.keeps_pool
        dest!: set_update_subset_insert [THEN subsetD])
  moreover have "decision_ok d (map dn_max (decisions s)) ?dn"
    by (simp add: decision_ok_def same_turn_decides [OF turn])
  ultimately show ?thesis
    using ok by (simp add: s' deciding_ok_def decisions_ok_snoc same_turn_next)
next
  case (Reranks seen)
  with step obtain e where e: "dyn_refresh seen (dg_decider s) = Some e"
    and s': "s' = s\<lparr>dg_decider := e, in_force := in_force s @ [dyn_pool e]\<rparr>" by auto
  from ok have run: "dyn_can_run (dg_decider s)" by (simp add: deciding_ok_def)
  note r = dyn_refresh_runs [OF run e]
  from ok have "mset (dyn_pool (dg_decider s)) = mset (dyn_pool d)" by (auto simp: deciding_ok_def rankings_ok_def)
  with ok r have "rankings_ok d s'" by (auto simp: s' deciding_ok_def rankings_ok_def)
  with ok r same_turn_refresh [OF _ run e] show ?thesis by (simp add: s' deciding_ok_def)
qed

lemma deciding_reach_ok:
  assumes "deciding_reach d s" "dyn_can_run d"
  shows "deciding_ok d s"
  using assms(1)
proof induction
  case deciding_begin
  from assms(2) show ?case
    by (simp add: deciding_ok_def deciding_start_def rankings_ok_def decisions_ok_def callers_ok_def)
next
  case (deciding_next s ev s')
  then show ?case by (blast intro: deciding_step_ok)
qed

text \<open>
  C22: Concurrent decisions are sequential decisions on rankings that were in force: in whatever way the
  accesses of concurrent handlers interleave with each other and with refreshes, the handler that draws
  the \<open>k\<close>-th number gets the chain a sequential decider gives after \<open>k\<close> decisions, on a ranking that was
  in force and holds each upstream of the pool once; each handler draws one number and returns that chain;
  and as long as no refresh has stored a ranking, the chains are those of the sequential decider.
\<close>

theorem interleaved_decides:
  assumes "deciding_reach d s" "dyn_can_run d" "k < length (decisions s)"
  shows "dn_loaded (decisions s ! k) \<in> set (in_force s) \<and>
    mset (dn_loaded (decisions s ! k)) = mset (dyn_pool d) \<and>
    dn_chain (decisions s ! k) =
      fst (dyn_decide (with_ranking (dn_loaded (decisions s ! k)) (decided (map dn_max (take k (decisions s))) d))
             (dn_max (decisions s ! k))) \<and>
    distinct (map dn_caller (decisions s)) \<and>
    dg_callers s ! dn_caller (decisions s ! k) = Chose (dn_chain (decisions s ! k)) \<and>
    (in_force s = [dyn_pool d] \<longrightarrow>
       dn_chain (decisions s ! k) =
         fst (dyn_decide (decided (map dn_max (take k (decisions s))) d) (dn_max (decisions s ! k))))"
proof -
  note ok = deciding_reach_ok [OF assms(1,2)]
  have l: "dn_loaded (decisions s ! k) \<in> set (in_force s)"
    using ok assms(3) by (simp add: deciding_ok_def rankings_ok_def)
  have c: "dn_chain (decisions s ! k) =
      fst (dyn_decide (with_ranking (dn_loaded (decisions s ! k)) (decided (map dn_max (take k (decisions s))) d))
             (dn_max (decisions s ! k)))"
    using ok assms(3) by (simp add: deciding_ok_def decisions_ok_def decision_ok_def)
  have "with_ranking (dyn_pool d) (decided ns d) = decided ns d" for ns
    using with_own_ranking [of "decided ns d"] by simp
  then have "in_force s = [dyn_pool d] \<Longrightarrow> dn_chain (decisions s ! k) =
      fst (dyn_decide (decided (map dn_max (take k (decisions s))) d) (dn_max (decisions s ! k)))"
    using c l by simp
  with l c ok assms(3) show ?thesis by (simp add: deciding_ok_def rankings_ok_def callers_ok_def)
qed
subsection \<open>How often a challenger is probed\<close>

lemma decided_latency:
  "decided ns (DynLeastLatency rf e) = DynLeastLatency rf (e\<lparr>ll_requests := ll_requests e + of_nat (length ns)\<rparr>)"
proof (induction ns rule: rev_induct)
  case (snoc n ns)
  then show ?case by (simp add: ll_decide_def Let_def split_beta ac_simps)
qed simp

lemma slice_as_map: "m + l \<le> length xs \<Longrightarrow> take l (drop m xs) = map (\<lambda>i. xs ! (m + i)) [0..<l]"
  by (rule nth_equalityI) simp_all

text \<open>
  C27: Probing does not depend on the schedule: of any \<open>20 * c\<close> consecutive decisions of concurrent
  handlers, where \<open>c\<close> is the number of upstreams behind a leader, exactly one is led by the \<open>j\<close>-th
  challenger of the ranking it was made on, for each \<open>j\<close>, however the accesses of the handlers interleave
  and however often a refresh stores another ranking meanwhile (the counter not wrapping).
\<close>

theorem interleaved_probes:
  assumes "deciding_reach (DynLeastLatency rf e) s" "can_run rf" "distinct (ll_ranking e)"
    and "0 < j" "j < length (ll_ranking e)" "list_all (\<lambda>dn. 0 < dn_max dn) (decisions s)"
    and "m + 20 * (length (ll_ranking e) - 1) \<le> length (decisions s)"
    and "unat (ll_requests e) + length (decisions s) < 2 ^ 64"
  shows "length (filter (\<lambda>dn. hd (dn_chain dn) = dn_loaded dn ! j)
    (take (20 * (length (ll_ranking e) - 1)) (drop m (decisions s)))) = 1"
proof -
  let ?n = "length (ll_ranking e)" and ?c = "unat (ll_requests e)"
  have ok: "deciding_ok (DynLeastLatency rf e) s" using deciding_reach_ok [OF assms(1)] assms(2) by simp
  have led: "hd (dn_chain dn) = dn_loaded dn ! j \<longleftrightarrow> leader_index ?n (?c + k) = j"
    if k: "k < length (decisions s)" and dn: "dn = decisions s ! k" for k dn
  proof -
    have mem: "dn \<in> set (decisions s)" using k dn by simp
    then have ms: "mset (dn_loaded dn) = mset (ll_ranking e)"
      using ok by (simp add: deciding_ok_def rankings_ok_def)
    then have n: "length (dn_loaded dn) = ?n" "distinct (dn_loaded dn)"
      using mset_eq_length mset_eq_imp_distinct_iff assms(3) by blast+
    have cap: "0 < dn_max dn" using mem assms(6) by (simp add: list_all_iff)
    have u: "unat (ll_requests e + of_nat k) = ?c + k"
      using assms(8) k by (simp add: unat_word_ariths unat_of_nat)
    have "decision_ok (DynLeastLatency rf e) (map dn_max (take k (decisions s))) dn"
      using ok k dn by (simp add: deciding_ok_def decisions_ok_def)
    then have "dn_chain dn = fst (ll_decide (e\<lparr>ll_requests := ll_requests e + of_nat k,
        ll_ranking := dn_loaded dn\<rparr>) (dn_max dn))"
      using k by (simp add: decision_ok_def decided_latency split_beta)
    moreover have "dn_loaded dn \<noteq> []" using n(1) assms(5) by auto
    ultimately have "hd (dn_chain dn) = dn_loaded dn ! leader_index ?n (?c + k)"
      using ll_decide_head [of "e\<lparr>ll_requests := ll_requests e + of_nat k, ll_ranking := dn_loaded dn\<rparr>" "dn_max dn"] cap
      by (simp add: n(1) u)
    moreover have "leader_index ?n (?c + k) < ?n" using assms(5) by (intro leader_index_less) linarith
    ultimately show ?thesis using n assms(5) by (simp add: nth_eq_iff_index_eq)
  qed
  have "length (filter (\<lambda>dn. hd (dn_chain dn) = dn_loaded dn ! j) (take (20 * (?n - 1)) (drop m (decisions s)))) =
      length (filter (\<lambda>i. hd (dn_chain (decisions s ! (m + i))) = dn_loaded (decisions s ! (m + i)) ! j)
        [0..<20 * (?n - 1)])"
    unfolding slice_as_map [OF assms(7)] by (simp add: filter_map comp_def)
  also have "\<dots> = length (filter (\<lambda>i. leader_index ?n (?c + m + i) = j) [0..<20 * (?n - 1)])"
    using assms(7) led by (intro arg_cong [where f = length] filter_cong) (simp_all add: add.assoc)
  also have "\<dots> = 1" by (rule leader_once [OF assms(4,5)])
  finally show ?thesis .
qed

subsection \<open>Concrete handlers\<close>

text \<open>
  The first handler loads the ranking, a refresh stores another, the second handler loads that and draws
  the first number, with which it probes; then the first draws the second, on the older ranking.
\<close>

abbreviation demo_ranked_decider :: dyn_decider where
  "demo_ranked_decider \<equiv> DynLeastLatency demo_latency_refresher demo_latency"

definition demo_deciding :: "decide_event list" where
  "demo_deciding =
     [Enters 2, Enters 1, LoadsRanking 0, Reranks demo_observer, LoadsRanking 1, DrawsNumber 1, DrawsNumber 0]"

lemma demo_decider_runs: "can_run demo_latency_refresher"
  by (simp add: can_run_def demo_latency_refresher_def demo_window_def window_ok_def ticks_held_def
      duration_times_def MAX_DURATION_def)

theorem interleaved_decides_witness:
  "\<exists>s. deciding_exec demo_deciding (deciding_start demo_ranked_decider) = Some s \<and>
     map dn_caller (decisions s) = [1, 0] \<and>
     map dn_loaded (decisions s) = map (map demo_upstream) [[''b'', ''c''], [''c'', ''b'']] \<and>
     dn_chain (decisions s ! 1) = map demo_upstream [''c'', ''b'']"
proof -
  obtain s where s: "deciding_exec demo_deciding (deciding_start demo_ranked_decider) = Some s"
    and d: "map dn_caller (decisions s) = [1, 0]" "map dn_max (decisions s) = [1, 2]"
      "map dn_loaded (decisions s) = map (map demo_upstream) [[''b'', ''c''], [''c'', ''b'']]"
    using demo_ll_refresh by (simp add: demo_deciding_def deciding_start_def demo_latency_def split_beta Let_def)
  from deciding_exec_reach [OF s deciding_begin] have r: "deciding_reach demo_ranked_decider s" .
  from d(1) have n: "length (decisions s) = 2" by (metis length_map length_Cons list.size(3) numeral_2_eq_2)
  have "dn_max (decisions s ! 1) = 2" "map dn_max (take 1 (decisions s)) = [1]"
    "dn_loaded (decisions s ! 1) = map demo_upstream [''c'', ''b'']"
    using d(2,3) n by (auto simp: numeral_2_eq_2 length_Suc_conv)
  with interleaved_decides [OF r, of 1] n demo_decider_runs have
    "dn_chain (decisions s ! 1) = map demo_upstream [''c'', ''b'']"
    by (simp add: decided_latency split_beta ll_decide_def Let_def demo_latency_def PROBE_EVERY_def)
  with s d(1,3) show ?thesis by (intro exI [of _ s] conjI)
qed

lemma many_decisions:
  "\<exists>s. deciding_reach d s \<and> length (decisions s) = N \<and> list_all (\<lambda>dn. 0 < dn_max dn) (decisions s)"
proof (induction N)
  case 0
  show ?case by (rule exI [of _ "deciding_start d"]) (simp add: deciding_begin, simp add: deciding_start_def)
next
  case (Suc N)
  then obtain s where s: "deciding_reach d s" "length (decisions s) = N" "list_all (\<lambda>dn. 0 < dn_max dn) (decisions s)"
    by blast
  let ?i = "length (dg_callers s)"
  have "\<exists>s'. deciding_exec [Enters 1, LoadsRanking ?i, DrawsNumber ?i] s = Some s' \<and>
      length (decisions s') = Suc N \<and> list_all (\<lambda>dn. 0 < dn_max dn) (decisions s')"
    using s by (simp add: Let_def)
  then show ?case using deciding_exec_reach s(1) by blast
qed

theorem interleaved_probes_witness:
  "\<exists>s. deciding_reach demo_ranked_decider s \<and> length (decisions s) = 23 \<and>
     length (filter (\<lambda>dn. hd (dn_chain dn) = dn_loaded dn ! 1) (take 20 (drop 3 (decisions s)))) = 1"
proof -
  obtain s where s: "deciding_reach demo_ranked_decider s" "length (decisions s) = 23"
    "list_all (\<lambda>dn. 0 < dn_max dn) (decisions s)" using many_decisions by blast
  have l: "distinct (ll_ranking demo_latency)" "length (ll_ranking demo_latency) = 2" "ll_requests demo_latency = 0"
    by (simp_all add: demo_latency_def demo_upstream_def)
  from interleaved_probes [OF s(1) demo_decider_runs l(1), of 1 3] l s(2,3) show ?thesis
    by (intro exI [of _ s]) (simp add: s)
qed

end
