(* ===== verification/Atomics.thy ===== *)
theory Atomics
  imports Observer
begin

text \<open>
  The observer's handlers below the level of one call (\<open>src/observer/mod.rs\<close>). Each handler is a
  sequence of \<open>fetch_add\<close> on single counters, with no lock around it, so the handlers of concurrent
  requests interleave. The theory gives the sequence of every handler, shows that running it alone is
  the handler of the theory \<open>Observer\<close>, and that the order of the additions does not matter: any
  interleaving of any number of handlers leaves the observer as running them one after another does.
\<close>

subsection \<open>The counters\<close>

datatype stat_field =
  Success | UnreachableCount | ReadFailedCount | ErrorStatusCount | RpcErrorCount | CallerFaultCount
| AbandonedCount | RetryableFailures | Bucket nat | DurationMicros | RetryableMicros

datatype request_field =
  Answered | Failed | AttemptBucket nat | AttemptsTotal | RequestBucket nat | RequestMicros

datatype cell =
  StatCell upstream_id stat_field
| StartedCell upstream_id upstream_id
| WonCell upstream_id upstream_id
| CoalescedCell
| FailoverCell upstream_id
| RequestCell bytes request_field

text \<open>\<open>AtomicU64::fetch_add\<close>, which wraps, on a slot of an array: one out of range does not exist.\<close>

definition add_slot :: "nat \<Rightarrow> u64 \<Rightarrow> u64 list \<Rightarrow> u64 list" where
  "add_slot i a bs = (if i < length bs then bs[i := bs ! i + a] else bs)"

fun add_stat :: "stat_field \<Rightarrow> u64 \<Rightarrow> snapshot \<Rightarrow> snapshot" where
  "add_stat Success a s = s\<lparr>success := success s + a\<rparr>"
| "add_stat UnreachableCount a s = s\<lparr>unreachable := unreachable s + a\<rparr>"
| "add_stat ReadFailedCount a s = s\<lparr>read_failed := read_failed s + a\<rparr>"
| "add_stat ErrorStatusCount a s = s\<lparr>error_status := error_status s + a\<rparr>"
| "add_stat RpcErrorCount a s = s\<lparr>rpc_error := rpc_error s + a\<rparr>"
| "add_stat CallerFaultCount a s = s\<lparr>rpc_caller_fault := rpc_caller_fault s + a\<rparr>"
| "add_stat AbandonedCount a s = s\<lparr>abandoned := abandoned s + a\<rparr>"
| "add_stat RetryableFailures a s = s\<lparr>retryable_failures := retryable_failures s + a\<rparr>"
| "add_stat (Bucket i) a s = s\<lparr>buckets := add_slot i a (buckets s)\<rparr>"
| "add_stat DurationMicros a s = s\<lparr>duration_micros_total := duration_micros_total s + a\<rparr>"
| "add_stat RetryableMicros a s =
     s\<lparr>retryable_failures_micros_total := retryable_failures_micros_total s + a\<rparr>"

fun add_request :: "request_field \<Rightarrow> u64 \<Rightarrow> request_snapshot \<Rightarrow> request_snapshot" where
  "add_request Answered a s = s\<lparr>answered := answered s + a\<rparr>"
| "add_request Failed a s = s\<lparr>failed := failed s + a\<rparr>"
| "add_request (AttemptBucket i) a s = s\<lparr>attempt_buckets := add_slot i a (attempt_buckets s)\<rparr>"
| "add_request AttemptsTotal a s = s\<lparr>attempts_total := attempts_total s + a\<rparr>"
| "add_request (RequestBucket i) a s = s\<lparr>duration_buckets := add_slot i a (duration_buckets s)\<rparr>"
| "add_request RequestMicros a s = s\<lparr>rq_duration_micros_total := rq_duration_micros_total s + a\<rparr>"

fun fetch_add :: "cell \<times> u64 \<Rightarrow> metrics_observer \<Rightarrow> metrics_observer" where
  "fetch_add (StatCell u f, a) obs = obs\<lparr>stats := AList.map_entry u (add_stat f a) (stats obs)\<rparr>"
| "fetch_add (StartedCell o' t, a) obs =
     obs\<lparr>hedges := AList.map_entry (o', t) (\<lambda>h. h\<lparr>started := started h + a\<rparr>) (hedges obs)\<rparr>"
| "fetch_add (WonCell o' t, a) obs =
     obs\<lparr>hedges := AList.map_entry (o', t) (\<lambda>h. h\<lparr>won := won h + a\<rparr>) (hedges obs)\<rparr>"
| "fetch_add (CoalescedCell, a) obs = obs\<lparr>coalesced := coalesced obs + a\<rparr>"
| "fetch_add (FailoverCell u, a) obs = obs\<lparr>failovers := AList.map_entry u (\<lambda>c. c + a) (failovers obs)\<rparr>"
| "fetch_add (RequestCell m f, a) obs = obs\<lparr>requests := AList.map_entry m (add_request f a) (requests obs)\<rparr>"

subsection \<open>The handlers as sequences of additions\<close>

text \<open>\<open>record_duration\<close>: the total first, then the bucket, when there is one.\<close>

definition duration_ops :: "(stat_field \<Rightarrow> cell) \<Rightarrow> duration \<Rightarrow> (cell \<times> u64) list" where
  "duration_ops cell_of d =
     (let micros = micros_u64 d; idx = partition_point (\<lambda>b. b < micros) BUCKET_BOUNDS_MICROS
      in [(cell_of DurationMicros, micros), (cell_of (Bucket idx), 1)])"

fun outcome_field :: "(call_error, nat) result \<Rightarrow> stat_field" where
  "outcome_field (Inr _) = Success"
| "outcome_field (Inl (ErrorStatus _)) = ErrorStatusCount"
| "outcome_field (Inl (ReadFailed _ _)) = ReadFailedCount"
| "outcome_field (Inl (Unreachable _)) = UnreachableCount"
| "outcome_field (Inl (RpcError _ _ r _)) = (if r then RpcErrorCount else CallerFaultCount)"

text \<open>The label a request is counted under is looked up in the map, whose keys never change.\<close>

fun handler_ops :: "metrics_observer \<Rightarrow> obs_event \<Rightarrow> (cell \<times> u64) list" where
  "handler_ops obs (Record u r) =
     (StatCell u (outcome_field (rec_outcome r)), 1) #
     duration_ops (StatCell u) (rec_duration r) @
     (if retryable_outcome (rec_outcome r)
      then [(StatCell u RetryableFailures, 1), (StatCell u RetryableMicros, micros_u64 (rec_duration r))]
      else [])"
| "handler_ops obs (Abandoned u d) = (StatCell u AbandonedCount, 1) # duration_ops (StatCell u) d"
| "handler_ops obs (Hedge o' t) = [(StartedCell o' t, 1)]"
| "handler_ops obs (HedgeWin o' t) = [(WonCell o' t, 1)]"
| "handler_ops obs Coalesced = [(CoalescedCell, 1)]"
| "handler_ops obs (Failover u) = [(FailoverCell u, 1)]"
| "handler_ops obs (Request m ok n d) =
     (let cell_of = RequestCell (case map_of (requests obs) m of Some _ \<Rightarrow> m | None \<Rightarrow> OTHER_METHOD);
          k = (of_nat n :: u64); micros = micros_u64 d
      in [(cell_of (if ok then Answered else Failed), 1), (cell_of AttemptsTotal, k),
          (cell_of (AttemptBucket (partition_point (\<lambda>b. b < k) ATTEMPT_BOUNDS)), 1),
          (cell_of RequestMicros, micros),
          (cell_of (RequestBucket (partition_point (\<lambda>b. b < micros) BUCKET_BOUNDS_MICROS)), 1)])"

definition run_ops :: "(cell \<times> u64) list \<Rightarrow> metrics_observer \<Rightarrow> metrics_observer" where
  "run_ops ops obs = fold fetch_add ops obs"

subsection \<open>A handler on its own\<close>

lemma map_entry_same [simp]: "AList.map_entry k f (AList.map_entry k g al) = AList.map_entry k (f \<circ> g) al"
  by (induction al) auto

lemma bump_is_add: "bump_slot i bs = add_slot i 1 bs"
  by (simp add: bump_slot_def add_slot_def)

text \<open>The additions to one entry of a map, as one update of the entry.\<close>

lemma run_stat_ops:
  "run_ops (map (\<lambda>(f, a). (StatCell u f, a)) fs) obs =
     obs\<lparr>stats := AList.map_entry u (fold (\<lambda>(f, a). add_stat f a) fs) (stats obs)\<rparr>"
proof (induction fs arbitrary: obs)
  case Nil
  have "AList.map_entry u id al = al" for al :: "(upstream_id \<times> snapshot) list"
    by (induction al) auto
  then show ?case by (simp add: run_ops_def id_def)
next
  case (Cons x fs)
  then show ?case by (cases x) (simp add: run_ops_def comp_def)
qed

lemma run_request_ops:
  "run_ops (map (\<lambda>(f, a). (RequestCell m f, a)) fs) obs =
     obs\<lparr>requests := AList.map_entry m (fold (\<lambda>(f, a). add_request f a) fs) (requests obs)\<rparr>"
proof (induction fs arbitrary: obs)
  case Nil
  have "AList.map_entry m id al = al" for al :: "(bytes \<times> request_snapshot) list"
    by (induction al) auto
  then show ?case by (simp add: run_ops_def id_def)
next
  case (Cons x fs)
  then show ?case by (cases x) (simp add: run_ops_def comp_def)
qed

lemma handler_ops_run: "run_ops (handler_ops obs e) obs = apply_event e obs"
proof (cases e)
  case (Record u r)
  let ?d = "micros_u64 (rec_duration r)"
  let ?fs = "(outcome_field (rec_outcome r), 1) #
    [(DurationMicros, ?d), (Bucket (partition_point (\<lambda>b. b < ?d) BUCKET_BOUNDS_MICROS), 1)] @
    (if retryable_outcome (rec_outcome r) then [(RetryableFailures, 1), (RetryableMicros, ?d)] else [])"
  have c: "count_outcome (rec_outcome r) s = add_stat (outcome_field (rec_outcome r)) 1 s" for s
    by (cases "rec_outcome r" rule: outcome_field.cases) simp_all
  have "fold (\<lambda>(f, a). add_stat f a) ?fs = stat_record r"
    by (rule ext) (simp add: stat_record_def record_duration_def bump_is_add c Let_def)
  moreover have "handler_ops obs e = map (\<lambda>(f, a). (StatCell u f, a)) ?fs"
    using Record by (simp add: duration_ops_def Let_def)
  ultimately show ?thesis using Record by (simp only: run_stat_ops) (simp add: obs_record_def)
next
  case (Abandoned u d)
  let ?fs = "[(AbandonedCount, 1), (DurationMicros, micros_u64 d),
    (Bucket (partition_point (\<lambda>b. b < micros_u64 d) BUCKET_BOUNDS_MICROS), 1)]"
  have "fold (\<lambda>(f, a). add_stat f a) ?fs = stat_abandoned d"
    by (rule ext) (simp add: stat_abandoned_def record_duration_def bump_is_add Let_def)
  moreover have "handler_ops obs e = map (\<lambda>(f, a). (StatCell u f, a)) ?fs"
    using Abandoned by (simp add: duration_ops_def Let_def)
  ultimately show ?thesis using Abandoned by (simp only: run_stat_ops) (simp add: record_abandoned_def)
next
  case (Request m ok n d)
  let ?k = "of_nat n :: u64" and ?d = "micros_u64 d"
  let ?fs = "[(if ok then Answered else Failed, 1), (AttemptsTotal, ?k),
    (AttemptBucket (partition_point (\<lambda>b. b < ?k) ATTEMPT_BOUNDS), 1), (RequestMicros, ?d),
    (RequestBucket (partition_point (\<lambda>b. b < ?d) BUCKET_BOUNDS_MICROS), 1)]"
  let ?m = "case map_of (requests obs) m of Some _ \<Rightarrow> m | None \<Rightarrow> OTHER_METHOD"
  have "fold (\<lambda>(f, a). add_request f a) ?fs = stat_request ok n d"
    by (rule ext) (simp add: stat_request_def record_duration_def bump_is_add Let_def)
  moreover have "handler_ops obs e = map (\<lambda>(f, a). (RequestCell ?m f, a)) ?fs"
    using Request by (simp add: Let_def)
  ultimately show ?thesis using Request by (simp only: run_request_ops) (simp add: record_request_def)
qed (simp_all add: run_ops_def handler_defs)

subsection \<open>Any interleaving\<close>

lemma add_slot_commute: "add_slot i a (add_slot j b bs) = add_slot j b (add_slot i a bs)"
  by (cases "i = j") (simp_all add: add_slot_def list_update_swap ac_simps)

lemma add_stat_commute: "add_stat f a (add_stat g b s) = add_stat g b (add_stat f a s)"
  by (cases f; cases g) (simp_all add: add_slot_commute ac_simps)

lemma add_request_commute: "add_request f a (add_request g b s) = add_request g b (add_request f a s)"
  by (cases f; cases g) (simp_all add: add_slot_commute ac_simps)

lemma map_entry_commute:
  assumes "\<And>x. f (g x) = g (f x)"
  shows "AList.map_entry k f (AList.map_entry k' g al) = AList.map_entry k' g (AList.map_entry k f al)"
  using assms by (induction al) auto

lemma fetch_add_commute: "fetch_add x (fetch_add y obs) = fetch_add y (fetch_add x obs)"
proof -
  obtain c a c' b where "x = (c, a)" "y = (c', b)" by fastforce
  then show ?thesis
    by (cases c; cases c') (simp_all add: map_entry_commute add_stat_commute add_request_commute ac_simps)
qed

text \<open>The order of the additions does not matter.\<close>

lemma run_ops_perm: "mset xs = mset ys \<Longrightarrow> run_ops xs obs = run_ops ys obs"
  unfolding run_ops_def
  by (rule arg_cong [where f = "\<lambda>g. g obs"], rule fold_multiset_equiv) (simp_all add: fun_eq_iff fetch_add_commute)

lemma fetch_add_keys: "map fst (requests (fetch_add x obs)) = map fst (requests obs)"
  by (cases x; cases "fst x") simp_all

lemma handler_ops_keys:
  assumes "map fst (requests obs) = map fst (requests obs')"
  shows "handler_ops obs e = handler_ops obs' e"
proof -
  have "map_of (requests obs) m = None \<longleftrightarrow> map_of (requests obs') m = None" for m
    using assms by (metis list.set_map map_of_eq_None_iff)
  then have "(case map_of (requests obs) m of Some _ \<Rightarrow> m | None \<Rightarrow> OTHER_METHOD) =
      (case map_of (requests obs') m of Some _ \<Rightarrow> m | None \<Rightarrow> OTHER_METHOD)" for m
    by (metis option.case_eq_if)
  then show ?thesis by (cases e) (simp_all add: Let_def)
qed

lemma run_handlers_ops: "run_ops (concat (map (handler_ops obs) evs)) obs = run_events evs obs"
proof (induction evs rule: rev_induct)
  case (snoc e evs)
  have k: "handler_ops obs e = handler_ops (run_events evs obs) e"
    by (rule handler_ops_keys) (simp add: run_events_keys)
  from snoc have "run_ops (concat (map (handler_ops obs) (evs @ [e]))) obs =
      run_ops (handler_ops (run_events evs obs) e) (run_events evs obs)"
    by (simp add: run_ops_def k)
  then show ?case by (simp add: handler_ops_run)
qed (simp add: run_ops_def)

text \<open>
  C23: Concurrent handlers do not disturb each other: whatever calls of the handlers run at the same
  time and however their single additions interleave, the observer ends as if the calls had run one
  after another, in any order.
\<close>

theorem handlers_interleave:
  assumes "mset ops = mset (concat (map (handler_ops obs) calls))" "mset calls = mset calls'"
  shows "run_ops ops obs = run_events calls' obs"
proof -
  have "mset (concat (map (handler_ops obs) xs)) = (\<Sum>e\<in>#mset xs. mset (handler_ops obs e))" for xs
    by (induction xs) simp_all
  with assms have "mset ops = mset (concat (map (handler_ops obs) calls'))" by simp
  then show ?thesis by (simp only: run_ops_perm run_handlers_ops)
qed

theorem handlers_interleave_witness:
  "run_ops [(StatCell (UpstreamId ''a'') AbandonedCount, 1), (StatCell (UpstreamId ''b'') Success, 1),
       (StatCell (UpstreamId ''b'') DurationMicros, 7000), (StatCell (UpstreamId ''a'') DurationMicros, 3000),
       (StatCell (UpstreamId ''b'') (Bucket 1), 1), (StatCell (UpstreamId ''a'') (Bucket 0), 1)]
     (new_observer [UpstreamId ''a'', UpstreamId ''b'']) =
   run_events [Record (UpstreamId ''b'') \<lparr>rec_duration = 7000000, rec_outcome = Inr 200\<rparr>,
       Abandoned (UpstreamId ''a'') 3000000]
     (new_observer [UpstreamId ''a'', UpstreamId ''b''])"
  by (rule handlers_interleave [where calls = "[Abandoned (UpstreamId ''a'') 3000000,
        Record (UpstreamId ''b'') \<lparr>rec_duration = 7000000, rec_outcome = Inr 200\<rparr>]"])
    (simp_all add: duration_ops_def Let_def micros_u64_def partition_point_def BUCKET_BOUNDS_MICROS_def
      MICROS_PER_SEC_def DEFAULT_RPC_TIMEOUT_IN_SECS_def retryable_outcome_def)

end
