(* ===== verification/TornReads.thy ===== *)
theory TornReads
  imports Atomics
begin

text \<open>
  Reading an upstream's counters while handlers add to them. \<open>UpstreamStats::snapshot\<close>
  (\<open>src/observer/snapshot.rs\<close>) loads one atomic after the other, with no lock, so additions of
  concurrent handlers fall between two loads and the snapshot may show a moment that never was. The
  theory gives the loads in the order of the code, interleaved with additions in any way, and bounds
  what such a snapshot can show: each counter is one the upstream had while it was read.
\<close>

subsection \<open>Loads between additions\<close>

fun stat_value :: "stat_field \<Rightarrow> snapshot \<Rightarrow> u64" where
  "stat_value Success s = success s"
| "stat_value UnreachableCount s = unreachable s"
| "stat_value ReadFailedCount s = read_failed s"
| "stat_value ErrorStatusCount s = error_status s"
| "stat_value RpcErrorCount s = rpc_error s"
| "stat_value CallerFaultCount s = rpc_caller_fault s"
| "stat_value AbandonedCount s = abandoned s"
| "stat_value RetryableFailures s = retryable_failures s"
| "stat_value (Bucket i) s = (if i < length (buckets s) then buckets s ! i else 0)"
| "stat_value DurationMicros s = duration_micros_total s"
| "stat_value RetryableMicros s = retryable_failures_micros_total s"

text \<open>The loads of \<open>snapshot\<close>, and the snapshot made of what they gave.\<close>

definition snapshot_loads :: "stat_field list" where
  "snapshot_loads =
     [Success, UnreachableCount, ReadFailedCount, ErrorStatusCount, RpcErrorCount, CallerFaultCount,
      AbandonedCount, RetryableFailures] @
     map Bucket [0..<length BUCKET_BOUNDS_MICROS] @ [DurationMicros, RetryableMicros]"

definition value_in :: "(stat_field \<times> u64) list \<Rightarrow> stat_field \<Rightarrow> u64" where
  "value_in vs f = (case map_of vs f of Some v \<Rightarrow> v | None \<Rightarrow> 0)"

definition snapshot_of_loads :: "(stat_field \<times> u64) list \<Rightarrow> snapshot" where
  "snapshot_of_loads vs =
     \<lparr>success = value_in vs Success, unreachable = value_in vs UnreachableCount,
      read_failed = value_in vs ReadFailedCount, error_status = value_in vs ErrorStatusCount,
      rpc_error = value_in vs RpcErrorCount, rpc_caller_fault = value_in vs CallerFaultCount,
      abandoned = value_in vs AbandonedCount, retryable_failures = value_in vs RetryableFailures,
      buckets = map (\<lambda>i. value_in vs (Bucket i)) [0..<length BUCKET_BOUNDS_MICROS],
      duration_micros_total = value_in vs DurationMicros,
      retryable_failures_micros_total = value_in vs RetryableMicros\<rparr>"

datatype access = Load stat_field | FetchAdd stat_field u64

text \<open>The loaded values, oldest first, and the counters after the last access.\<close>

fun accesses :: "access list \<Rightarrow> snapshot \<Rightarrow> (stat_field \<times> u64) list \<times> snapshot" where
  "accesses [] s = ([], s)"
| "accesses (Load f # as) s = (case accesses as s of (vs, s') \<Rightarrow> ((f, stat_value f s) # vs, s'))"
| "accesses (FetchAdd f a # as) s = accesses as (add_stat f a s)"

fun load_of :: "access \<Rightarrow> stat_field list" where
  "load_of (Load f) = [f]"
| "load_of (FetchAdd f a) = []"

fun added :: "stat_field \<Rightarrow> access list \<Rightarrow> nat" where
  "added f [] = 0"
| "added f (FetchAdd g a # as) = (if f = g then unat a else 0) + added f as"
| "added f (Load g # as) = added f as"

subsection \<open>What a load can give\<close>

lemma stat_value_add:
  "stat_value f (add_stat g a s) =
     (if f = g \<and> (\<forall>i. f = Bucket i \<longrightarrow> i < length (buckets s)) then stat_value f s + a else stat_value f s)"
  by (cases f; cases g) (auto simp: add_slot_def nth_list_update)

lemma stat_value_grows:
  assumes "unat (stat_value f s) + (if f = g then unat a else 0) < 2 ^ 64"
  shows "unat (stat_value f s) \<le> unat (stat_value f (add_stat g a s))"
    "unat (stat_value f (add_stat g a s)) \<le> unat (stat_value f s) + (if f = g then unat a else 0)"
  using assms by (auto simp: stat_value_add unat_word_ariths split: if_splits)

lemma accesses_loads: "accesses as s = (vs, s') \<Longrightarrow> map fst vs = concat (map load_of as)"
  by (induction as s arbitrary: vs rule: accesses.induct) (auto split: prod.splits)

lemma accesses_between:
  assumes "accesses as s = (vs, s')" "\<And>f. unat (stat_value f s) + added f as < 2 ^ 64"
  shows "unat (stat_value f s) \<le> unat (stat_value f s') \<and>
    (\<forall>v. (f, v) \<in> set vs \<longrightarrow> unat (stat_value f s) \<le> unat v \<and> unat v \<le> unat (stat_value f s'))"
  using assms
proof (induction as s arbitrary: vs rule: accesses.induct)
  case (2 g as s)
  from 2(2) obtain ws where ws: "accesses as s = (ws, s')" "vs = (g, stat_value g s) # ws"
    by (auto split: prod.splits)
  from 2(1) [OF ws(1)] 2(3) have ih: "unat (stat_value f s) \<le> unat (stat_value f s')"
    "\<And>v. (f, v) \<in> set ws \<Longrightarrow> unat (stat_value f s) \<le> unat v \<and> unat v \<le> unat (stat_value f s')"
    by auto
  then show ?case by (auto simp: ws(2))
next
  case (3 g a as s)
  have nowrap: "unat (stat_value h s) + (if h = g then unat a else 0) + added h as < 2 ^ 64" for h
    using 3(3) [of h] by simp
  then have one: "unat (stat_value h s) + (if h = g then unat a else 0) < 2 ^ 64" for h
    using le_less_trans [OF le_add1] by blast
  note g = stat_value_grows [OF one]
  have "unat (stat_value h (add_stat g a s)) + added h as < 2 ^ 64" for h
    using g(2) [of h] nowrap [of h] by linarith
  with 3(1) [of vs] 3(2) have ih: "unat (stat_value f (add_stat g a s)) \<le> unat (stat_value f s')"
    "\<And>v. (f, v) \<in> set vs \<Longrightarrow> unat (stat_value f (add_stat g a s)) \<le> unat v \<and> unat v \<le> unat (stat_value f s')"
    by auto
  with g(1) [of f] show ?case by (meson order_trans)
qed simp

lemma value_loaded:
  assumes "f \<in> set (map fst vs)"
  shows "(f, value_in vs f) \<in> set vs"
proof -
  from assms obtain v where "map_of vs f = Some v" by (metis not_Some_eq list.set_map map_of_eq_None_iff)
  then show ?thesis by (simp add: value_in_def map_of_SomeD)
qed

lemma stat_value_of_loads:
  "f \<in> set snapshot_loads \<Longrightarrow> stat_value f (snapshot_of_loads vs) = value_in vs f"
  by (cases f) (auto simp: snapshot_loads_def snapshot_of_loads_def simp del: upt_Suc)

lemma unloaded: "f \<notin> set snapshot_loads \<Longrightarrow> \<exists>i. f = Bucket i \<and> length BUCKET_BOUNDS_MICROS \<le> i"
  by (cases f) (auto simp: snapshot_loads_def simp del: upt_Suc)

lemma accesses_alone: "accesses (map Load fs) s = (map (\<lambda>f. (f, stat_value f s)) fs, s)"
  by (induction fs) simp_all

lemma value_in_map: "f \<in> set fs \<Longrightarrow> value_in (map (\<lambda>f. (f, g f)) fs) f = g f"
  by (induction fs) (auto simp: value_in_def)

lemma in_loads:
  "Success \<in> set snapshot_loads" "UnreachableCount \<in> set snapshot_loads" "ReadFailedCount \<in> set snapshot_loads"
  "ErrorStatusCount \<in> set snapshot_loads" "RpcErrorCount \<in> set snapshot_loads"
  "CallerFaultCount \<in> set snapshot_loads" "AbandonedCount \<in> set snapshot_loads"
  "RetryableFailures \<in> set snapshot_loads" "DurationMicros \<in> set snapshot_loads"
  "RetryableMicros \<in> set snapshot_loads"
  "i < length BUCKET_BOUNDS_MICROS \<Longrightarrow> Bucket i \<in> set snapshot_loads"
  by (simp_all add: snapshot_loads_def del: upt_Suc)

lemma loads_alone:
  assumes "snapshot_shape s"
  shows "snapshot_of_loads (map (\<lambda>f. (f, stat_value f s)) snapshot_loads) = s"
proof -
  define vs where "vs = map (\<lambda>f. (f, stat_value f s)) snapshot_loads"
  have v: "value_in vs f = stat_value f s" if "f \<in> set snapshot_loads" for f
    unfolding vs_def by (rule value_in_map [OF that])
  have n: "length BUCKET_BOUNDS_MICROS = length (buckets s)" using assms by (simp add: snapshot_shape_def)
  have b: "value_in vs (Bucket i) = buckets s ! i" if "i < length (buckets s)" for i
    using v [OF in_loads(11) [of i]] that n by simp
  have "map (\<lambda>i. value_in vs (Bucket i)) [0..<length BUCKET_BOUNDS_MICROS] =
      map (\<lambda>i. buckets s ! i) [0..<length (buckets s)]"
    unfolding n using b by (intro map_cong) simp_all
  then have "map (\<lambda>i. value_in vs (Bucket i)) [0..<length BUCKET_BOUNDS_MICROS] = buckets s"
    by (simp only: map_nth)
  then show ?thesis unfolding vs_def [symmetric] snapshot_of_loads_def by (simp only: v in_loads stat_value.simps) simp
qed

text \<open>
  C29: A torn snapshot stays between: whatever additions of concurrent handlers fall between its loads,
  as long as no counter wraps meanwhile, each counter of a snapshot is at least what it was when the
  reading began and at most what it is when the reading ends; and with no addition in between it is
  the upstream's counters.
\<close>

theorem torn_snapshot_between:
  assumes "concat (map load_of as) = snapshot_loads" "accesses as s = (vs, s')" "snapshot_shape s"
    and "\<And>f. unat (stat_value f s) + added f as < 2 ^ 64"
  shows "unat (stat_value f s) \<le> unat (stat_value f (snapshot_of_loads vs)) \<and>
    unat (stat_value f (snapshot_of_loads vs)) \<le> unat (stat_value f s') \<and>
    (as = map Load snapshot_loads \<longrightarrow> snapshot_of_loads vs = stats_snapshot s)"
proof -
  have b: "unat (stat_value f s) \<le> unat (stat_value f (snapshot_of_loads vs)) \<and>
    unat (stat_value f (snapshot_of_loads vs)) \<le> unat (stat_value f s')"
  proof (cases "f \<in> set snapshot_loads")
    case True
    with accesses_loads [OF assms(2)] assms(1) have "(f, value_in vs f) \<in> set vs" by (simp add: value_loaded del: set_map)
    with accesses_between [OF assms(2,4)] stat_value_of_loads [OF True] show ?thesis by simp
  next
    case False
    from unloaded [OF this] assms(3) show ?thesis
      by (auto simp: snapshot_shape_def snapshot_of_loads_def simp del: upt_Suc)
  qed
  have "snapshot_of_loads vs = s" if "as = map Load snapshot_loads"
    using assms(2) loads_alone [OF assms(3)] by (auto simp: that accesses_alone)
  with b show ?thesis by (simp add: stats_snapshot_def)
qed
text \<open>
  A success is told between the loads of the successes and of the durations: the snapshot shows its
  duration and not the success.
\<close>

definition demo_accesses :: "access list" where
  "demo_accesses =
     [Load Success, FetchAdd Success 1, FetchAdd DurationMicros 5, FetchAdd (Bucket 0) 1] @
     map Load (tl snapshot_loads)"

lemma added_append: "added f (as @ bs) = added f as + added f bs"
  by (induction as rule: added.induct) simp_all

lemma added_loads [simp]: "added f (map Load fs) = 0"
  by (induction fs) simp_all

lemma demo_accesses_run:
  fixes after defines "after \<equiv> default_snapshot\<lparr>success := 1, duration_micros_total := 5, buckets := 1 # replicate 9 0\<rparr>"
  shows "accesses demo_accesses default_snapshot =
    ((Success, 0) # map (\<lambda>f. (f, stat_value f after)) (tl snapshot_loads), after)"
proof -
  have "add_slot 0 1 (replicate 10 0) = 1 # replicate 9 0" by (simp add: add_slot_def numeral_eq_Suc)
  then have "accesses demo_accesses default_snapshot =
    (case accesses (map Load (tl snapshot_loads)) after of (vs, s') \<Rightarrow> ((Success, 0) # vs, s'))"
    by (simp add: demo_accesses_def default_snapshot_def after_def)
  then show ?thesis by (simp add: accesses_alone)
qed

theorem torn_snapshot_between_witness:
  "let snap = snapshot_of_loads (fst (accesses demo_accesses default_snapshot))
   in success snap = 0 \<and> duration_micros_total snap = 5 \<and> unat (stat_value (Bucket 0) snap) \<le> 1"
proof -
  obtain vs s' where r: "accesses demo_accesses default_snapshot = (vs, s')" by fastforce
  have loads: "concat (map load_of demo_accesses) = snapshot_loads"
    by (simp add: demo_accesses_def snapshot_loads_def comp_def)
  have nowrap: "unat (stat_value f default_snapshot) + added f demo_accesses < 2 ^ 64" for f
    by (cases f) (simp_all add: demo_accesses_def added_append default_snapshot_def)
  have shape: "snapshot_shape default_snapshot"
    by (simp add: snapshot_shape_def default_snapshot_def BUCKET_BOUNDS_MICROS_def)
  note run = demo_accesses_run [unfolded r prod.inject]
  have "unat (stat_value (Bucket 0) (snapshot_of_loads vs)) \<le> unat (stat_value (Bucket 0) s')"
    using torn_snapshot_between [OF loads r shape nowrap] by blast
  moreover have "success (snapshot_of_loads vs) = 0"
    by (simp add: snapshot_of_loads_def value_in_def run)
  moreover have "value_in vs DurationMicros = 5"
  proof -
    have "DurationMicros \<in> set (tl snapshot_loads)" by (simp add: snapshot_loads_def)
    from value_in_map [OF this] show ?thesis by (simp add: run value_in_def)
  qed
  ultimately show ?thesis by (simp add: r run snapshot_of_loads_def)
qed

end
