(* ===== verification/System.thy ===== *)
theory System
  imports Dispatch ServiceSteps Deciding TornReads
begin

text \<open>
  The running application: the service of the theory \<open>Pipeline\<close> in which every flight and every request
  on its own is carried by a run of the theory \<open>Dispatch\<close>, on a chain the configured decider gave it
  (\<open>Core::start\<close>), telling one observer, which the decider's refresher reads at its ticks,
  torn or not (\<open>src/app.rs\<close>). Runs, refreshes, hang-ups and evictions interleave freely. A run makes its decision at
  its first poll and is dropped with its flight's last handle, or with its client.
\<close>

subsection \<open>The state\<close>

datatype owner = OfFlight nat | OfClient nat

record active =
  ac_body :: bytes
  ac_chain :: "upstream list"
  ac_received :: duration
  ac_run :: running

text \<open>
  What ended is remembered for the properties: whose run, on which chain, in which state and with
  which reply; so is everything the observer was told. The program does not read either.
\<close>

record ended_run =
  er_owner :: owner
  er_body :: bytes
  er_chain :: "upstream list"
  er_run :: running
  er_reply :: reply

record system =
  sys_core :: core
  sys_decider :: dyn_decider
  sys_observer :: metrics_observer
  sys_service :: service
  flight_runs :: "nat \<Rightarrow> active option"
  client_runs :: "nat \<Rightarrow> active option"
  ended_runs :: "ended_run list"
  told :: "obs_event list"

fun run_of :: "owner \<Rightarrow> system \<Rightarrow> active option" where
  "run_of (OfFlight h) s = flight_runs s h"
| "run_of (OfClient i) s = client_runs s i"

fun set_run :: "owner \<Rightarrow> active option \<Rightarrow> system \<Rightarrow> system" where
  "set_run (OfFlight h) a s = s\<lparr>flight_runs := (flight_runs s)(h := a)\<rparr>"
| "set_run (OfClient i) a s = s\<lparr>client_runs := (client_runs s)(i := a)\<rparr>"

definition tell :: "obs_event list \<Rightarrow> system \<Rightarrow> system" where
  "tell calls s = s\<lparr>sys_observer := run_events calls (sys_observer s), told := told s @ calls\<rparr>"

subsection \<open>The steps\<close>

text \<open>A flight's run begins while somebody polls the flight, a client's when it runs on its own.\<close>

fun may_begin :: "owner \<Rightarrow> service \<Rightarrow> bool" where
  "may_begin (OfFlight h) sv =
     (case shared sv of
        None \<Rightarrow> False
      | Some sf \<Rightarrow> h < length (flights sf) \<and> fl_phase (flights sf ! h) = Running \<and> 0 < fl_holders (flights sf ! h))"
| "may_begin (OfClient i) sv = (i < length (clients sv) \<and> req_stage (clients sv ! i) = Alone)"

fun body_of :: "owner \<Rightarrow> service \<Rightarrow> bytes" where
  "body_of (OfFlight h) sv = flight_bodies sv ! h"
| "body_of (OfClient i) sv = req_body (clients sv ! i)"

fun reply_event :: "owner \<Rightarrow> reply \<Rightarrow> service_event" where
  "reply_event (OfFlight h) reply = FlightEnds h reply"
| "reply_event (OfClient i) reply = AloneEnds i reply"

text \<open>Dropping the run of an owner, if it has one.\<close>

definition drop_run :: "owner \<Rightarrow> duration \<Rightarrow> system \<Rightarrow> system" where
  "drop_run ow t s =
     (case run_of ow s of None \<Rightarrow> s | Some a \<Rightarrow> tell (run_drop t (ac_run a)) (set_run ow None s))"

text \<open>Nobody holds the flight any more, and it has no output: its future is dropped.\<close>

definition flight_dead :: "nat \<Rightarrow> service \<Rightarrow> bool" where
  "flight_dead h sv =
     (case shared sv of
        None \<Rightarrow> False
      | Some sf \<Rightarrow> fl_phase (flights sf ! h) = Running \<and> fl_holders (flights sf ! h) = 0)"

text \<open>
  A client hung up: its own run is dropped, or the flight's when it held the last handle; \<open>sv\<close> is the
  service without it.
\<close>

definition hung_up :: "nat \<Rightarrow> duration \<Rightarrow> service \<Rightarrow> system \<Rightarrow> system" where
  "hung_up i t sv s =
     (case req_stage (clients (sys_service s) ! i) of
        Waiting h r \<Rightarrow>
          if flight_dead h sv then drop_run (OfFlight h) t (s\<lparr>sys_service := sv\<rparr>)
          else s\<lparr>sys_service := sv\<rparr>
      | _ \<Rightarrow> drop_run (OfClient i) t (s\<lparr>sys_service := sv\<rparr>))"

datatype system_event =
  Arrives request_uuid bytes
| RunBegins owner "upstream list" duration duration
| RunSteps owner run_event
| RunEnds owner
| TakesReply nat
| HangsUp nat duration
| GuardEvicts nat
| Refreshes metrics_observer

text \<open>
  A refresh reads the observer while handlers add to it, so what it sees of each configured upstream may be
  torn: \<open>Refreshes seen\<close> is a refresh by any counters of the observer's upstreams. The theory \<open>TornReads\<close>
  bounds them; what holds of the steps holds whatever they are. In the same way a run that begins may
  hold a ranking that a refresh has replaced since it loaded it: \<open>RunBegins ow loaded received_at t\<close>
  decides on any ranking of the pool (the theory \<open>Deciding\<close>).
\<close>

definition may_see :: "metrics_observer \<Rightarrow> metrics_observer \<Rightarrow> bool" where
  "may_see seen obs \<longleftrightarrow> map fst (stats seen) = map fst (stats obs)"

fun system_step :: "serde \<Rightarrow> system_event \<Rightarrow> system \<Rightarrow> system option" where
  "system_step sj (Arrives me body) s = Some (s\<lparr>sys_service := arrive sj me body (sys_service s)\<rparr>)"
| "system_step sj (RunBegins ow loaded received_at t) s =
     (if may_begin ow (sys_service s) \<and> run_of ow s = None \<and> may_load loaded (sys_decider s) then
        let body = body_of ow (sys_service s);
            chain = fst (dyn_decide (with_ranking loaded (sys_decider s)) (max_attempt (sys_core s)));
            d = snd (dyn_decide (sys_decider s) (max_attempt (sys_core s)))
        in Some (set_run ow
             (Some \<lparr>ac_body = body, ac_chain = chain, ac_received = received_at,
                    ac_run = run_begin (sys_core s) (method_label sj body) chain t\<rparr>)
             (s\<lparr>sys_decider := d\<rparr>))
      else None)"
| "system_step sj (RunSteps ow ev) s =
     (case run_of ow s of
        None \<Rightarrow> None
      | Some a \<Rightarrow>
          map_option
            (\<lambda>r. tell (drop (length (run_log (ac_run a))) (run_log r)) (set_run ow (Some (a\<lparr>ac_run := r\<rparr>)) s))
            (run_step sj (sys_core s) (ac_chain a) ev (ac_run a)))"
| "system_step sj (RunEnds ow) s =
     (case run_of ow s of
        None \<Rightarrow> None
      | Some a \<Rightarrow>
          (case run_ended sj (ac_chain a) (method_label sj (ac_body a)) (ac_received a) (ac_run a) of
             None \<Rightarrow> None
           | Some (reply, calls) \<Rightarrow>
               map_option
                 (\<lambda>sv. tell calls (set_run ow None
                    (s\<lparr>sys_service := sv,
                       ended_runs := ended_runs s @ [\<lparr>er_owner = ow, er_body = ac_body a,
                         er_chain = ac_chain a, er_run = ac_run a, er_reply = reply\<rparr>]\<rparr>)))
                 (service_step sj (reply_event ow reply) (sys_service s))))"
| "system_step sj (TakesReply i) s =
     map_option
       (\<lambda>sv. tell (drop (length (service_log (sys_service s))) (service_log sv)) (s\<lparr>sys_service := sv\<rparr>))
       (service_step sj (Takes i) (sys_service s))"
| "system_step sj (HangsUp i t) s =
     map_option (\<lambda>sv. hung_up i t sv s) (service_step sj (Leaves i) (sys_service s))"
| "system_step sj (GuardEvicts h) s =
     map_option (\<lambda>sv. s\<lparr>sys_service := sv\<rparr>) (service_step sj (GuardRuns h) (sys_service s))"
| "system_step sj (Refreshes seen) s =
     (if may_see seen (sys_observer s)
      then map_option (\<lambda>d. s\<lparr>sys_decider := d\<rparr>) (dyn_refresh seen (sys_decider s)) else None)"

text \<open>The application as \<open>app_new\<close> leaves it: nothing has arrived, nothing was told.\<close>

definition system_start :: "application_state \<Rightarrow> system" where
  "system_start a =
     \<lparr>sys_core = pl_core (app_pipeline a), sys_decider = pl_decider (app_pipeline a),
      sys_observer = app_observer a,
      sys_service = \<lparr>shared = pl_flights (app_pipeline a), flight_bodies = [], clients = [], service_log = []\<rparr>,
      flight_runs = (\<lambda>_. None), client_runs = (\<lambda>_. None), ended_runs = [], told = []\<rparr>"

inductive system_reach :: "serde \<Rightarrow> application_state \<Rightarrow> system \<Rightarrow> bool" for sj a where
  system_begin: "system_reach sj a (system_start a)"
| system_next: "system_reach sj a s \<Longrightarrow> system_step sj ev s = Some s' \<Longrightarrow> system_reach sj a s'"

subsection \<open>Frames\<close>

lemma set_run_frame [simp, frame_simps]:
  "sys_core (set_run ow a s) = sys_core s" "sys_decider (set_run ow a s) = sys_decider s"
  "sys_observer (set_run ow a s) = sys_observer s" "sys_service (set_run ow a s) = sys_service s"
  "ended_runs (set_run ow a s) = ended_runs s" "told (set_run ow a s) = told s"
  by (cases ow; simp)+

lemma run_of_set [simp]: "run_of ow (set_run ow' a s) = (if ow = ow' then a else run_of ow s)"
  by (cases ow; cases ow') auto

lemma tell_frame [simp, frame_simps]:
  "sys_core (tell calls s) = sys_core s" "sys_decider (tell calls s) = sys_decider s"
  "sys_service (tell calls s) = sys_service s" "ended_runs (tell calls s) = ended_runs s"
  "run_of ow (tell calls s) = run_of ow s" "told (tell calls s) = told s @ calls"
  "sys_observer (tell calls s) = run_events calls (sys_observer s)"
  by (cases ow; simp add: tell_def)+

lemma run_of_frame [simp]:
  "run_of ow (s\<lparr>sys_decider := d\<rparr>) = run_of ow s" "run_of ow (s\<lparr>sys_service := sv\<rparr>) = run_of ow s"
  "run_of ow (s\<lparr>ended_runs := es\<rparr>) = run_of ow s"
  by (cases ow; simp)+

lemma drop_run_frame [simp, frame_simps]:
  "sys_core (drop_run ow t s) = sys_core s" "sys_decider (drop_run ow t s) = sys_decider s"
  "sys_service (drop_run ow t s) = sys_service s" "ended_runs (drop_run ow t s) = ended_runs s"
  by (simp_all add: drop_run_def split: option.split)

lemma run_of_drop [simp]: "run_of ow' (drop_run ow t s) = (if ow' = ow then None else run_of ow' s)"
  by (simp add: drop_run_def split: option.split)

lemma hung_up_frame [simp, frame_simps]:
  "sys_core (hung_up i t sv s) = sys_core s" "sys_decider (hung_up i t sv s) = sys_decider s"
  "sys_service (hung_up i t sv s) = sv" "ended_runs (hung_up i t sv s) = ended_runs s"
  by (simp_all add: hung_up_def split: stage.split)

subsection \<open>Every step is a step of the service, or none\<close>

fun service_event_of :: "system_event \<Rightarrow> service_event option" where
  "service_event_of (Arrives me body) = Some (Arrive me body)"
| "service_event_of (TakesReply i) = Some (Takes i)"
| "service_event_of (HangsUp i t) = Some (Leaves i)"
| "service_event_of (GuardEvicts h) = Some (GuardRuns h)"
| "service_event_of _ = None"

lemma system_service_step:
  assumes "system_step sj ev s = Some s'"
  shows "case ev of
      RunEnds ow \<Rightarrow> \<exists>reply. service_step sj (reply_event ow reply) (sys_service s) = Some (sys_service s')
    | _ \<Rightarrow> (case service_event_of ev of
        None \<Rightarrow> sys_service s' = sys_service s
      | Some sev \<Rightarrow> service_step sj sev (sys_service s) = Some (sys_service s'))"
  using assms
  by (cases ev)
    (auto simp: Let_def split_beta split: if_splits option.splits prod.splits
      simp del: service_step.simps(2-6))

lemma system_service_reach:
  assumes "system_reach sj a s" "pl_flights (app_pipeline a) = None \<or> pl_flights (app_pipeline a) = Some singleflight_default"
  shows "service_reach sj (pl_flights (app_pipeline a) \<noteq> None) (sys_service s)"
  using assms(1)
proof (induction rule: system_reach.induct)
  case system_begin
  have "sys_service (system_start a) = service_start (pl_flights (app_pipeline a) \<noteq> None)"
    using assms(2) by (auto simp: system_start_def service_start_def)
  then show ?case by (simp only: service_begin)
next
  case (system_next s ev s')
  have "sys_service s' = sys_service s \<or> (\<exists>sev. service_step sj sev (sys_service s) = Some (sys_service s'))"
    using system_service_step [OF system_next.hyps(2)]
    by (cases ev) (auto simp del: service_step.simps intro: exI [of _ "Arrive x y" for x y])
  with system_next.IH show ?case by (metis service_next)
qed
text \<open>A schedule of steps.\<close>

fun system_exec :: "serde \<Rightarrow> system_event list \<Rightarrow> system \<Rightarrow> system option" where
  "system_exec sj [] s = Some s"
| "system_exec sj (ev # evs) s = Option.bind (system_step sj ev s) (system_exec sj evs)"

lemma system_exec_reach:
  "system_exec sj evs s = Some s' \<Longrightarrow> system_reach sj a s \<Longrightarrow> system_reach sj a s'"
  by (induction evs arbitrary: s) (auto simp: bind_eq_Some_conv simp del: system_step.simps intro: system_next)

lemma system_exec_append:
  "system_exec sj (xs @ ys) s = Option.bind (system_exec sj xs s) (system_exec sj ys)"
proof (induction xs arbitrary: s)
  case (Cons x xs)
  then show ?case by (cases "system_step sj x s") (simp_all del: system_step.simps)
qed simp

end
