(* ===== verification/Answers.thy ===== *)
theory Answers
  imports System
begin

text \<open>
  What the running application of the theory \<open>System\<close> promises in every state it can reach: the observer
  knows every upstream it is told about and its counters are those of what it was told, the pool never
  changes and the refresher never panics, and every answer a client got was earned by a run for its
  own question on configured upstreams.
\<close>

subsection \<open>The upstreams a run reports\<close>

fun event_uids :: "obs_event \<Rightarrow> upstream_id set" where
  "event_uids (Record u r) = {u}"
| "event_uids (Abandoned u d) = {u}"
| "event_uids (Hedge u v) = {u, v}"
| "event_uids (HedgeWin u v) = {u, v}"
| "event_uids (Failover u) = {u}"
| "event_uids _ = {}"

definition about :: "upstream_id set \<Rightarrow> obs_event list \<Rightarrow> bool" where
  "about us evs \<longleftrightarrow> (\<forall>e \<in> set evs. event_uids e \<subseteq> us)"

lemma about_simps [simp]:
  "about us []" "about us (e # evs) \<longleftrightarrow> event_uids e \<subseteq> us \<and> about us evs"
  "about us (xs @ ys) \<longleftrightarrow> about us xs \<and> about us ys"
  by (auto simp: about_def)

lemma about_mono: "about us evs \<Longrightarrow> us \<subseteq> vs \<Longrightarrow> about vs evs"
  by (auto simp: about_def)

lemma about_drop: "about us evs \<Longrightarrow> about us (drop n evs)"
  by (auto simp: about_def dest: in_set_dropD)

abbreviation uids_of :: "upstream list \<Rightarrow> upstream_id set" where
  "uids_of chain \<equiv> uid ` set chain"

lemma uid_nth: "i < length chain \<Longrightarrow> uid (chain ! i) \<in> uids_of chain"
  by simp

lemma try_finish_about: "try_finish sj u sent t a = (r, calls) \<Longrightarrow> att_upstream a \<in> us \<Longrightarrow> about us calls"
  by (elim try_finish_record) simp

lemma walk_head_about:
  "about (uids_of chain) (wk_log s) \<Longrightarrow> set (wk_tried s) \<subseteq> uids_of chain \<Longrightarrow>
   about (uids_of chain) (wk_log (walk_head c s))"
  by (auto simp: walk_head_def walk_call_def split: list.split dest!: last_in_set)

lemma walk_tried_chain: "walk_ok c chain s \<Longrightarrow> set (wk_tried s) \<subseteq> uids_of chain"
proof -
  assume "walk_ok c chain s"
  then obtain k where "wk_tried s = map uid (take k chain)" unfolding walk_ok_def Let_def by blast
  then have "set (wk_tried s) = uid ` set (take k chain)" by simp
  then show ?thesis using image_mono [OF set_take_subset] by (simp only:)
qed

lemma walk_calling:
  assumes "walk_ok c chain s" "wk_phase s = Calling u a"
  shows "att_upstream a \<in> uids_of chain"
proof -
  from assms have "att_upstream a = uid u" "attempt_uids (wk_log s) @ [uid u] = wk_tried s"
    by (auto simp only: walk_ok_def Let_def walk_phase.case)
  then have "att_upstream a \<in> set (wk_tried s)" by (metis in_set_conv_decomp)
  then show ?thesis using walk_tried_chain [OF assms(1)] by (rule rev_subsetD)
qed

lemma walk_step_about:
  assumes ok: "walk_ok c chain s" and step: "walk_step sj c ev s = Some s'"
    and log: "about (uids_of chain) (wk_log s)"
  shows "about (uids_of chain) (wk_log s')"
proof (cases ev)
  case (Woke t)
  with step log show ?thesis by (auto simp: walk_call_def split: walk_phase.splits if_splits)
next
  case (Returned sent t)
  with step obtain u a where ph: "wk_phase s = Calling u a" by (auto split: walk_phase.splits)
  obtain r calls where f: "try_finish sj u sent t a = (r, calls)" by fastforce
  have "about (uids_of chain) calls" by (rule try_finish_about [OF f walk_calling [OF ok ph]])
  with Returned step ph f log walk_tried_chain [OF ok] show ?thesis
    by (auto simp: Let_def split: if_splits sum.splits intro!: walk_head_about)
qed

lemma race_parts_about:
  "about us (race_log (return_raced r t s)) \<longleftrightarrow> about us (race_log s) \<and> about us (drop_lanes t (inflight s))"
  "about us (race_log s) \<Longrightarrow> about us (drop_lanes t (inflight s)) \<Longrightarrow> about us (race_log (loop_head chain cap t s))"
  by (auto simp: return_raced_def loop_head_def)

lemma launch_about:
  assumes "about (uids_of chain) (race_log s)" "i < length chain"
    and "\<And>u. why = Overtakes u \<or> why = FailsOver u \<Longrightarrow> u \<in> set chain"
  shows "about (uids_of chain) (race_log (launch chain i why t s))"
  using assms by (cases why) (auto simp: launch_def)

lemma lanes_about:
  assumes "\<forall>l \<in> set ls. \<forall>a. lane_attempt l = Some a \<longrightarrow> att_upstream a \<in> us"
  shows "about us (drop_lanes t ls)"
  using assms by (auto simp: about_def drop_lanes_def attempt_drop_def split: option.splits if_splits)

lemma lanes_launch:
  "drop_lanes t (inflight (launch chain i why t' s)) = drop_lanes t (inflight s)"
  by (simp add: drop_lanes_def launch_def)
definition race_about :: "upstream list \<Rightarrow> race \<Rightarrow> bool" where
  "race_about chain s \<longleftrightarrow> about (uids_of chain) (race_log s) \<and>
     (\<forall>l \<in> set (inflight s). \<forall>a. lane_attempt l = Some a \<longrightarrow> att_upstream a \<in> uids_of chain)"

lemma race_about_frame [simp]:
  "race_about chain (s\<lparr>launched := n\<rparr>) = race_about chain s"
  "race_about chain (s\<lparr>hedge_count := h\<rparr>) = race_about chain s"
  "race_about chain (s\<lparr>last_failure := f\<rparr>) = race_about chain s"
  "race_about chain (s\<lparr>race_now := t\<rparr>) = race_about chain s"
  "race_about chain (s\<lparr>since := t\<rparr>) = race_about chain s"
  by (simp_all add: race_about_def)

lemma race_about_return: "race_about chain s \<Longrightarrow> race_about chain (return_raced r t s)"
  by (auto simp: race_about_def return_raced_def intro: lanes_about)

lemma race_about_head: "race_about chain s \<Longrightarrow> race_about chain (loop_head chain cap t s)"
  by (simp add: loop_head_def race_about_return)

lemma race_about_launch:
  assumes "race_about chain s" "i < length chain" "\<And>u. why = Overtakes u \<or> why = FailsOver u \<Longrightarrow> u \<in> set chain"
  shows "race_about chain (launch chain i why t s)"
  using assms by (cases why) (auto simp: race_about_def launch_def)

lemma race_about_answer:
  assumes "race_about chain s" "lane_index l < length chain"
  shows "race_about chain (on_answer chain cap l r t s)"
  using assms
  by (auto simp: on_answer_def Let_def limit_chain split: sum.split
      intro!: race_about_return race_about_head race_about_launch)

lemma race_step_about:
  assumes ok: "race_ok chain cap s" and step: "race_step sj chain cap ev s = Some s'" and log: "race_about chain s"
  shows "race_about chain s'"
proof -
  have l: "lane_index l < length chain" "lane_attempt l = Some a \<Longrightarrow> att_upstream a \<in> uids_of chain"
    if "l \<in> set (inflight s)" for l a
  proof -
    from ok that have "base_inv chain cap s" by (auto simp: race_ok_def run_inv_def done_inv_def)
    with that have "lane_index l < launched s" "launched s \<le> length chain"
      by (auto simp: base_inv_def lane_ok_def race_limit_def)
    then show "lane_index l < length chain" by simp
    show "lane_attempt l = Some a \<Longrightarrow> att_upstream a \<in> uids_of chain" using log that by (auto simp: race_about_def)
  qed
  show ?thesis
  proof (cases ev)
    case (Polled k t)
    with step have k: "k < length (inflight s)"
      and s': "s' = s\<lparr>race_now := t, inflight := (inflight s)[k := (inflight s ! k)
        \<lparr>lane_attempt := Some (attempt_start (uid (chain ! lane_index (inflight s ! k))) t)\<rparr>]\<rparr>"
      by (auto simp: Let_def split: if_splits option.splits)
    from l(1) [of "inflight s ! k"] k log show ?thesis
      using set_update_subset_insert [of "inflight s" k]
      by (fastforce simp: s' race_about_def attempt_start_def)
  next
    case (Answered k sent t)
    with step obtain a r calls where k: "k < length (inflight s)" and a: "lane_attempt (inflight s ! k) = Some a"
      and f: "try_finish sj (chain ! lane_index (inflight s ! k)) sent t a = (r, calls)"
      and s': "s' = on_answer chain cap (inflight s ! k) r t (s\<lparr>race_now := t,
        inflight := remove_at k (inflight s), race_log := race_log s @ calls\<rparr>)"
      by (auto simp: Let_def split: if_splits option.splits prod.splits)
    have "inflight s ! k \<in> set (inflight s)" using k by simp
    with l a have i: "lane_index (inflight s ! k) < length chain" "att_upstream a \<in> uids_of chain" by blast+
    have "race_about chain (s\<lparr>race_now := t, inflight := remove_at k (inflight s), race_log := race_log s @ calls\<rparr>)"
      using log try_finish_about [OF f i(2)] remove_at_set [of k "inflight s"]
      unfolding race_about_def by simp blast
    then show ?thesis unfolding s' using i(1) by (rule race_about_answer)
  next
    case (Timer t)
    with step have n: "launched s < race_limit chain cap" and s': "s' = on_timer chain cap t (s\<lparr>race_now := t\<rparr>)"
      by (auto split: if_splits)
    from limit_chain [OF n] have "launched s < length chain" "launched s - 1 < length chain" by simp_all
    then show ?thesis using log
      by (auto simp: s' on_timer_def intro!: race_about_head race_about_launch)
  qed
qed

lemma race_start_about: "race_about chain (race_start chain cap t)"
  by (auto simp: race_start_def race_limit_def intro!: race_about_head race_about_launch)
    (auto simp: race_about_def race_init_def)

fun run_about :: "upstream list \<Rightarrow> running \<Rightarrow> bool" where
  "run_about chain (Walking s) \<longleftrightarrow> about (uids_of chain) (wk_log s)"
| "run_about chain (Racing s) \<longleftrightarrow> race_about chain s"
| "run_about chain (Sending s) \<longleftrightarrow> about (uids_of chain) (sd_log s)"

lemma run_begin_about: "run_about chain (run_begin c m chain t)"
  by (auto simp: run_begin_def walk_begin_def race_start_about send_begin_def
      intro!: walk_head_about split: dispatch.split bool.split list.split)

lemma send_step_about:
  assumes "send_ok chain s" "send_step sj sent t s = Some s'" "about (uids_of chain) (sd_log s)"
  shows "about (uids_of chain) (sd_log s')"
proof -
  from assms(2) obtain u a where ph: "sd_phase s = SendCalling u a"
    by (auto simp: send_step_def split: send_phase.splits)
  obtain r calls where f: "try_finish sj u sent t a = (r, calls)" by fastforce
  have "att_upstream a \<in> uids_of chain" using assms(1) ph by (cases chain) (auto simp: send_ok_def)
  from try_finish_about [OF f this] assms(2,3) ph f show ?thesis
    by (auto simp: send_step_def Let_def split: if_splits)
qed

lemma run_step_about:
  assumes "run_ok c chain s" "run_step sj c chain ev s = Some s'" "run_about chain s"
  shows "run_about chain s'"
  using assms
  by (cases "(sj, c, chain, ev, s)" rule: run_step.cases)
    (auto intro: walk_step_about race_step_about send_step_about)

text \<open>Whatever a run tells the observer is about its chain, its drop and its end included.\<close>

lemma run_reach_about: "run_reach sj c m chain s \<Longrightarrow> run_about chain s"
proof (induction rule: run_reach.induct)
  case (run_next s ev s')
  then show ?case using run_step_about [OF run_reach_ok [OF run_next.hyps(1)]] by blast
qed (rule run_begin_about)

lemma run_log_about: "run_about chain s \<Longrightarrow> about (uids_of chain) (run_log s)"
  by (cases s) (simp_all add: race_about_def)

lemma run_drop_about:
  assumes "run_reach sj c m chain s"
  shows "about (uids_of chain) (run_drop t s)"
proof (cases s)
  case (Walking r)
  with run_reach_ok [OF assms] have ok: "walk_ok c chain r" by simp
  show ?thesis
  proof (cases "wk_phase r")
    case (Calling u a)
    with walk_calling [OF ok] Walking show ?thesis by (simp add: walk_drop_def attempt_drop_def)
  qed (simp_all add: Walking walk_drop_def)
next
  case (Racing r)
  with run_reach_about [OF assms] show ?thesis by (auto simp: race_about_def intro: lanes_about)
next
  case (Sending r)
  with run_reach_ok [OF assms] show ?thesis
    by (cases chain) (auto simp: send_ok_def send_drop_def attempt_drop_def split: send_phase.splits)
qed
lemma run_win_about:
  assumes "run_reach sj c m chain s" "run_finished chain s = Some (fin, win)"
  shows "about (uids_of chain) win" "\<not> list_ex is_request win"
proof -
  have "about (uids_of chain) win \<and> \<not> list_ex is_request win"
  proof (cases s)
    case (Racing r)
    with assms(2) obtain x where x: "outcome r = Some x" "win = race_win_log chain x" by auto
    from run_reach_ok [OF assms(1)] Racing x(1) have "done_inv chain (max_attempt c) r"
      by (auto simp: race_ok_def run_inv_def)
    then have n: "launched r \<le> length chain"
      and "case raced_result x of Inr w \<Rightarrow> win_index w < launched r \<and> cause_ok chain (win_index w) (win_cause w)
        | Inl _ \<Rightarrow> True"
      using x(1) by (auto simp: done_inv_def race_limit_def split: sum.splits)
    then show ?thesis
      by (auto simp: x(2) race_win_log_def cause_ok_def split: sum.splits cause.splits)
  qed (use assms(2) in \<open>auto split: send_phase.splits\<close>)
  then show "about (uids_of chain) win" "\<not> list_ex is_request win" by blast+
qed

lemma run_ended_about:
  assumes "run_reach sj c m chain s" "run_ended sj chain m t s = Some (reply, calls)"
  shows "about (uids_of chain) calls" "length (filter is_request calls) = 1"
proof -
  from assms(2) obtain fin win where f: "run_finished chain s = Some (fin, win)"
    and calls: "calls = win @ [Request m (fin_ok (fin_result fin)) (length (fin_tried fin)) (run_now s - t)]"
    by (auto simp: run_ended_def)
  note w = run_win_about [OF assms(1) f]
  from w(1) show "about (uids_of chain) calls" by (simp add: calls)
  from w(2) have "filter is_request win = []" by (auto simp: list_ex_iff filter_empty_conv)
  then show "length (filter is_request calls) = 1" by (simp add: calls)
qed

subsection \<open>Applications that were built\<close>

definition pool_of :: "application_state \<Rightarrow> upstream list" where
  "pool_of a = dyn_pool (pl_decider (app_pipeline a))"

definition app_ok :: "application_state \<Rightarrow> bool" where
  "app_ok a \<longleftrightarrow>
     pool_of a \<noteq> [] \<and> distinct (map uid (pool_of a)) \<and> 0 < max_attempt (pl_core (app_pipeline a)) \<and>
     app_observer a = new_observer (map uid (pool_of a)) \<and> dyn_can_run (pl_decider (app_pipeline a)) \<and>
     (pl_flights (app_pipeline a) = None \<or> pl_flights (app_pipeline a) = Some singleflight_default)"

lemma default_window_fits: "REFRESH_DEFAULT * WINDOW_DEFAULT \<le> MAX_DURATION"
  by (simp add: REFRESH_DEFAULT_def WINDOW_DEFAULT_def MAX_DURATION_def)

lemma build_decider_runs:
  assumes "build_decider kind ups obs t = Inr d"
  shows "dyn_pool d = ups \<and> ups \<noteq> [] \<and> dyn_can_run d"
proof (cases kind)
  case RoundRobin
  with assms show ?thesis by (auto simp: build_decider_def rr_new_def split: if_splits)
next
  case PreferLeastErrors
  with assms obtain rf d' where "ple_new ups obs None None = Inr (rf, d')" "d = DynLeastErrors rf d'"
    by (auto simp: build_decider_def and_then_Inr)
  with ple_new_can_run [of ups obs None None rf d'] default_window_fits show ?thesis by simp
next
  case LeastLatency
  with assms obtain rf d' where "ll_new ups obs t None None None = Inr (rf, d')" "d = DynLeastLatency rf d'"
    by (auto simp: build_decider_def and_then_Inr)
  with ll_new_can_run [of ups obs t None None None rf d'] default_window_fits show ?thesis by simp
qed
lemma build_one_uid: "build_one ps u = Inr x \<Longrightarrow> uid x = UpstreamId (us_label u)"
  by (auto simp: build_one_def new_upstream_def Let_def split: if_splits)

lemma build_all_uids:
  assumes "build_all us ps = Inr ups"
  shows "map uid ups = map (UpstreamId \<circ> us_label) us"
proof -
  from assms have "map (build_one ps) us = map Inr ups" by (simp add: build_all_def collect_results_Inr)
  then show ?thesis
  proof (induction us arbitrary: ups)
    case (Cons u us)
    then obtain x xs where "ups = x # xs" "build_one ps u = Inr x" "map (build_one ps) us = map Inr xs"
      by (cases ups) auto
    with Cons.IH [of xs] build_one_uid show ?case by auto
  qed simp
qed

lemma pipeline_new_facts:
  assumes "pipeline_new d n p disp dedup = Inr pl"
  shows "pl_decider pl = d" "0 < max_attempt (pl_core pl)"
    "pl_flights pl = None \<or> pl_flights pl = Some singleflight_default"
  using assms by (auto simp: pipeline_new_def Let_def unat_gt_0 split: if_splits)

lemma app_build_ok:
  assumes "app_build hp bind hc st = Inr a" "validate_settings hp st = Inr ()"
  shows "app_ok a" "map uid (pool_of a) = map (UpstreamId \<circ> us_label) (upstreams st)"
proof -
  from assms(1) obtain ups d where ups: "build_all (upstreams st) (proxy (application st)) = Inr ups"
    and d: "build_decider (decider st) ups (new_observer (map uid ups))
      (from_secs (rpc_timeout_in_secs (proxy (application st)))) = Inr d"
    and a: "app_new hp bind (application st) (new_observer (map uid ups)) d = Inr a"
    by (auto simp: app_build_def Let_def split: if_splits)
  from a obtain n p disp dedup where pl: "pipeline_new d n p disp dedup = Inr (app_pipeline a)"
    and obs: "app_observer a = new_observer (map uid ups)"
    by (auto simp: app_new_def Let_def split: option.splits)
  note b = build_decider_runs [OF d] and f = pipeline_new_facts [OF pl]
  have us: "map uid ups = map (UpstreamId \<circ> us_label) (upstreams st)" by (rule build_all_uids [OF ups])
  have "validate_upstreams 0 {} (\<lambda>_. None) (upstreams st) = Inr ()"
    using assms(2) by (auto simp: validate_settings_def split: if_splits)
  then have "distinct (map us_label (upstreams st))" by (simp add: validate_upstreams_Inr)
  then have "distinct (map uid ups)" unfolding us by (simp add: distinct_map comp_inj_on_iff [symmetric] inj_on_def)
  with b f obs show "app_ok a" by (simp add: app_ok_def pool_of_def)
  from b f us show "map uid (pool_of a) = map (UpstreamId \<circ> us_label) (upstreams st)" by (simp add: pool_of_def)
qed

subsection \<open>The pool, the observer and the runs\<close>

definition run_good :: "serde \<Rightarrow> application_state \<Rightarrow> bytes \<Rightarrow> upstream list \<Rightarrow> running \<Rightarrow> bool" where
  "run_good sj a body chain r \<longleftrightarrow>
     run_reach sj (pl_core (app_pipeline a)) (method_label sj body) chain r \<and>
     (\<exists>ys. mset ys = mset (pool_of a) \<and> chain = take (max_attempt (pl_core (app_pipeline a))) ys)"

definition ended_good :: "serde \<Rightarrow> application_state \<Rightarrow> ended_run \<Rightarrow> bool" where
  "ended_good sj a e \<longleftrightarrow>
     run_good sj a (er_body e) (er_chain e) (er_run e) \<and>
     (\<exists>t calls. run_ended sj (er_chain e) (method_label sj (er_body e)) t (er_run e) = Some (er_reply e, calls))"

lemma run_good_chain:
  assumes "run_good sj a body chain r" "distinct (map uid (pool_of a))"
  shows "set chain \<subseteq> set (pool_of a)" "distinct (map uid chain)"
proof -
  from assms(1) obtain ys where ys: "mset ys = mset (pool_of a)"
    and chain: "chain = take (max_attempt (pl_core (app_pipeline a))) ys" by (auto simp: run_good_def)
  from ys have "set ys = set (pool_of a)" by (rule mset_eq_setD)
  then show "set chain \<subseteq> set (pool_of a)" unfolding chain using set_take_subset by fastforce
  have "mset (map uid ys) = mset (map uid (pool_of a))" using ys by simp
  with assms(2) have "distinct (map uid ys)" using mset_eq_imp_distinct_iff by blast
  then show "distinct (map uid chain)" by (metis chain distinct_take take_map)
qed

definition requests_in :: "obs_event list \<Rightarrow> nat" where
  "requests_in evs = length (filter is_request evs)"

lemma requests_in_append [simp]: "requests_in (xs @ ys) = requests_in xs + requests_in ys"
  by (simp add: requests_in_def)

lemma no_requests: "\<not> list_ex is_request evs \<Longrightarrow> requests_in evs = 0"
  by (auto simp: requests_in_def list_ex_iff filter_empty_conv)

definition sys_ok :: "serde \<Rightarrow> application_state \<Rightarrow> system \<Rightarrow> bool" where
  "sys_ok sj a s \<longleftrightarrow>
     sys_core s = pl_core (app_pipeline a) \<and> dyn_can_run (sys_decider s) \<and>
     mset (dyn_pool (sys_decider s)) = mset (pool_of a) \<and>
     sys_observer s = run_events (told s) (app_observer a) \<and>
     about (uids_of (pool_of a)) (told s) \<and>
     (\<forall>ow ac. run_of ow s = Some ac \<longrightarrow> run_good sj a (ac_body ac) (ac_chain ac) (ac_run ac)) \<and>
     (\<forall>e \<in> set (ended_runs s). ended_good sj a e)"

lemma sys_ok_tell: "sys_ok sj a s \<Longrightarrow> about (uids_of (pool_of a)) calls \<Longrightarrow> sys_ok sj a (tell calls s)"
  by (simp add: sys_ok_def run_events_append)

lemma sys_ok_none: "sys_ok sj a s \<Longrightarrow> sys_ok sj a (set_run ow None s)"
  by (simp add: sys_ok_def)

lemma sys_ok_some:
  "sys_ok sj a s \<Longrightarrow> run_good sj a (ac_body ac) (ac_chain ac) (ac_run ac) \<Longrightarrow> sys_ok sj a (set_run ow (Some ac) s)"
  by (simp add: sys_ok_def)

lemma sys_ok_service: "sys_ok sj a s \<Longrightarrow> sys_ok sj a (s\<lparr>sys_service := sv\<rparr>)"
  by (simp add: sys_ok_def)

lemma sys_ok_decider:
  "sys_ok sj a s \<Longrightarrow> dyn_can_run d \<Longrightarrow> mset (dyn_pool d) = mset (dyn_pool (sys_decider s)) \<Longrightarrow>
   sys_ok sj a (s\<lparr>sys_decider := d\<rparr>)"
  by (simp add: sys_ok_def)

lemma sys_ok_end:
  "sys_ok sj a s \<Longrightarrow> ended_good sj a e \<Longrightarrow> sys_ok sj a (s\<lparr>sys_service := sv, ended_runs := ended_runs s @ [e]\<rparr>)"
  by (auto simp: sys_ok_def)

lemma sys_ok_run: "sys_ok sj a s \<Longrightarrow> run_of ow s = Some ac \<Longrightarrow> run_good sj a (ac_body ac) (ac_chain ac) (ac_run ac)"
  by (simp add: sys_ok_def)

text \<open>A decision is a prefix of an arrangement of the pool, and moves on no more than the counter.\<close>

lemma sys_ok_decide:
  assumes "sys_ok sj a s" "app_ok a" "may_load r (sys_decider s)"
    and chain: "chain = fst (dyn_decide (with_ranking r (sys_decider s)) (max_attempt (sys_core s)))"
    and d: "d = snd (dyn_decide (sys_decider s) (max_attempt (sys_core s)))"
  shows "sys_ok sj a (s\<lparr>sys_decider := d\<rparr>)"
    "run_good sj a body chain (run_begin (sys_core s) (method_label sj body) chain t)"
proof -
  have ms: "mset (dyn_pool (sys_decider s)) = mset (pool_of a)" and ne: "pool_of a \<noteq> []"
    using assms(1,2) by (simp_all add: sys_ok_def app_ok_def)
  then have ne': "dyn_pool (sys_decider s) \<noteq> []" by (metis mset.simps(1) mset_zero_iff)
  from assms(1) have "dyn_can_run (sys_decider s)" by (simp add: sys_ok_def)
  then show "sys_ok sj a (s\<lparr>sys_decider := d\<rparr>)"
    by (intro sys_ok_decider [OF assms(1)]) (simp_all add: d dyn.keeps_pool)
  obtain ys where "mset ys = mset (dyn_pool (sys_decider s))" "chain = take (max_attempt (sys_core s)) ys"
    using stale_arrangement [OF assms(3) ne', of "max_attempt (sys_core s)"] chain by blast
  moreover have "sys_core s = pl_core (app_pipeline a)" using assms(1) by (simp add: sys_ok_def)
  ultimately show "run_good sj a body chain (run_begin (sys_core s) (method_label sj body) chain t)"
    using ms run_first by (auto simp: run_good_def)
qed

lemma run_good_about:
  assumes "run_good sj a body chain r" "distinct (map uid (pool_of a))"
  shows "about (uids_of (pool_of a)) (run_log r)" "about (uids_of (pool_of a)) (run_drop t r)"
    "requests_in (run_log r) = 0" "requests_in (run_drop t r) = 0"
proof -
  have sub: "uids_of chain \<subseteq> uids_of (pool_of a)" by (rule image_mono [OF run_good_chain(1) [OF assms]])
  from assms(1) have reach: "run_reach sj (pl_core (app_pipeline a)) (method_label sj body) chain r"
    by (simp add: run_good_def)
  show "about (uids_of (pool_of a)) (run_log r)" "about (uids_of (pool_of a)) (run_drop t r)"
    using about_mono [OF run_log_about [OF run_reach_about [OF reach]] sub]
      about_mono [OF run_drop_about [OF reach] sub] by blast+
  from run_log_no_request [OF reach, of t] have "requests_in (run_log r @ run_drop t r) = 0" by (rule no_requests)
  then show "requests_in (run_log r) = 0" "requests_in (run_drop t r) = 0" by simp_all
qed

lemma requests_in_drop: "requests_in evs = 0 \<Longrightarrow> requests_in (drop n evs) = 0"
  by (auto simp: requests_in_def filter_empty_conv dest: in_set_dropD)
lemma drop_run_ok:
  assumes "sys_ok sj a s" "distinct (map uid (pool_of a))"
  shows "sys_ok sj a (drop_run ow t s)" "requests_in (told (drop_run ow t s)) = requests_in (told s)"
proof -
  have "sys_ok sj a (drop_run ow t s) \<and> requests_in (told (drop_run ow t s)) = requests_in (told s)"
  proof (cases "run_of ow s")
    case (Some ac)
    note g = run_good_about [OF sys_ok_run [OF assms(1) Some] assms(2)]
    show ?thesis
      using sys_ok_tell [OF sys_ok_none [OF assms(1)] g(2)] g(4) by (simp add: drop_run_def Some)
  qed (simp add: drop_run_def assms(1))
  then show "sys_ok sj a (drop_run ow t s)" "requests_in (told (drop_run ow t s)) = requests_in (told s)" by blast+
qed

lemma hung_up_ok:
  assumes "sys_ok sj a s" "distinct (map uid (pool_of a))"
  shows "sys_ok sj a (hung_up i t sv s)" "requests_in (told (hung_up i t sv s)) = requests_in (told s)"
proof -
  have s: "sys_ok sj a (s\<lparr>sys_service := sv\<rparr>)" "told (s\<lparr>sys_service := sv\<rparr>) = told s"
    using assms(1) by (simp_all add: sys_ok_service)
  from drop_run_ok [OF s(1) assms(2)] s
  show "sys_ok sj a (hung_up i t sv s)" "requests_in (told (hung_up i t sv s)) = requests_in (told s)"
    unfolding hung_up_def by (simp_all split: stage.split)
qed

text \<open>What the service itself tells the observer: one coalesced request, or nothing.\<close>

lemma takes_log:
  assumes "service_step sj (Takes i) s = Some s'"
  shows "set (drop (length (service_log s)) (service_log s')) \<subseteq> {Coalesced}"
proof -
  have "x = Coalesced" if "x \<in> set (snd (coalesce_end sj r b reply))" for x r b reply
    using that by (auto simp: coalesce_end_def split: role.splits option.splits)
  with takes_step [OF assms] show ?thesis by auto
qed

lemma system_step_ok:
  assumes ok: "sys_ok sj a s" and app: "app_ok a" and step: "system_step sj ev s = Some s'"
  shows "sys_ok sj a s' \<and>
    requests_in (told s') + length (ended_runs s) = requests_in (told s) + length (ended_runs s')"
proof -
  have dist: "distinct (map uid (pool_of a))" using app by (simp add: app_ok_def)
  show ?thesis
  proof (cases ev)
    case (Arrives me body)
    with step ok show ?thesis by (auto intro: sys_ok_service)
  next
    case (RunBegins ow r rcv t)
    define chain where "chain = fst (dyn_decide (with_ranking r (sys_decider s)) (max_attempt (sys_core s)))"
    define d where "d = snd (dyn_decide (sys_decider s) (max_attempt (sys_core s)))"
    from RunBegins step have "may_load r (sys_decider s)" by (simp split: if_splits)
    note g = sys_ok_decide [OF ok app this chain_def d_def]
    from RunBegins step have s': "s' = set_run ow
        (Some \<lparr>ac_body = body_of ow (sys_service s), ac_chain = chain, ac_received = rcv,
           ac_run = run_begin (sys_core s) (method_label sj (body_of ow (sys_service s))) chain t\<rparr>)
        (s\<lparr>sys_decider := d\<rparr>)"
      by (simp add: Let_def chain_def d_def split: if_splits)
    have "sys_ok sj a s'" unfolding s' by (intro sys_ok_some [OF g(1)]) (simp add: g(2))
    then show ?thesis by (simp add: s')
  next
    case (RunSteps ow rev)
    with step obtain ac r where ac: "run_of ow s = Some ac"
      and r: "run_step sj (sys_core s) (ac_chain ac) rev (ac_run ac) = Some r"
      and s': "s' = tell (drop (length (run_log (ac_run ac))) (run_log r)) (set_run ow (Some (ac\<lparr>ac_run := r\<rparr>)) s)"
      by (auto split: option.splits)
    from sys_ok_run [OF ok ac] have g: "run_good sj a (ac_body ac) (ac_chain ac) (ac_run ac)" .
    have "sys_core s = pl_core (app_pipeline a)" using ok by (simp add: sys_ok_def)
    with g r have g': "run_good sj a (ac_body ac) (ac_chain ac) r"
      unfolding run_good_def by (metis run_next)
    note w = run_good_about [OF g' dist]
    have "sys_ok sj a s'" unfolding s'
      by (intro sys_ok_tell sys_ok_some ok about_drop w) (simp add: g')
    with requests_in_drop [OF w(3)] show ?thesis by (simp add: s')
  next
    case (RunEnds ow)
    with step obtain ac reply calls sv where ac: "run_of ow s = Some ac"
      and e: "run_ended sj (ac_chain ac) (method_label sj (ac_body ac)) (ac_received ac) (ac_run ac) =
        Some (reply, calls)"
      and s': "s' = tell calls (set_run ow None (s\<lparr>sys_service := sv,
           ended_runs := ended_runs s @ [\<lparr>er_owner = ow, er_body = ac_body ac,
             er_chain = ac_chain ac, er_run = ac_run ac, er_reply = reply\<rparr>]\<rparr>))"
      by (auto split: option.splits)
    from sys_ok_run [OF ok ac] have g: "run_good sj a (ac_body ac) (ac_chain ac) (ac_run ac)" .
    then have reach: "run_reach sj (pl_core (app_pipeline a)) (method_label sj (ac_body ac)) (ac_chain ac) (ac_run ac)"
      by (simp add: run_good_def)
    note w = run_ended_about [OF reach e]
    have "ended_good sj a \<lparr>er_owner = ow, er_body = ac_body ac, er_chain = ac_chain ac, er_run = ac_run ac,
        er_reply = reply\<rparr>" using g e by (auto simp: ended_good_def)
    from sys_ok_tell [OF sys_ok_none [OF sys_ok_end [OF ok this]]
        about_mono [OF w(1) image_mono [OF run_good_chain(1) [OF g dist]]]]
    show ?thesis using w(2) by (simp add: s' requests_in_def)
  next
    case (TakesReply i)
    with step obtain sv where sv: "service_step sj (Takes i) (sys_service s) = Some sv"
      and s': "s' = tell (drop (length (service_log (sys_service s))) (service_log sv)) (s\<lparr>sys_service := sv\<rparr>)"
      by (auto simp del: service_step.simps)
    let ?new = "drop (length (service_log (sys_service s))) (service_log sv)"
    from takes_log [OF sv] have "about (uids_of (pool_of a)) ?new" "requests_in ?new = 0"
      by (auto simp: about_def requests_in_def filter_empty_conv)
    with sys_ok_tell [OF sys_ok_service [OF ok]] show ?thesis by (simp add: s')
  next
    case (HangsUp i t)
    with step hung_up_ok [OF ok dist] show ?thesis by (auto simp del: service_step.simps)
  next
    case (GuardEvicts h)
    with step ok show ?thesis by (auto intro: sys_ok_service simp del: service_step.simps)
  next
    case (Refreshes seen)
    with step obtain d where d: "dyn_refresh seen (sys_decider s) = Some d"
      and s': "s' = s\<lparr>sys_decider := d\<rparr>" by (auto split: if_splits)
    from ok have "dyn_can_run (sys_decider s)" by (simp add: sys_ok_def)
    from dyn_refresh_runs [OF this d] sys_ok_decider [OF ok, of d] show ?thesis by (simp add: s')
  qed
qed

lemma system_start_ok:
  assumes "app_ok a"
  shows "sys_ok sj a (system_start a)"
proof -
  have "run_of ow (system_start a) = None" for ow by (cases ow) (simp_all add: system_start_def)
  with assms show ?thesis
    unfolding sys_ok_def by (simp add: system_start_def app_ok_def pool_of_def)
qed

lemma system_reach_ok:
  assumes "system_reach sj a s" "app_ok a"
  shows "sys_ok sj a s \<and> requests_in (told s) = length (ended_runs s)"
  using assms(1)
proof (induction rule: system_reach.induct)
  case system_begin
  from system_start_ok [OF assms(2)] show ?case by (simp add: system_start_def requests_in_def)
next
  case (system_next s ev s')
  from system_step_ok [OF _ assms(2) system_next.hyps(2)] system_next.IH show ?case by auto
qed

end
