(* ===== verification/Earned.thy ===== *)
theory Earned
  imports Answers
begin

text \<open>
  Who gets which answer. Each run belongs to a flight that is live or to a client that runs on its own,
  and carries its body; a finished flight holds the reply of the run that ended for it; so every client
  that was answered got the reply of a run that ended, its own, or that of a flight for the same
  question under its own id, unless its body was no single request.
\<close>

subsection \<open>What an answer may be\<close>

definition shares_answer :: "serde \<Rightarrow> bytes \<Rightarrow> ended_run \<Rightarrow> response \<Rightarrow> bool" where
  "shares_answer sj body e resp \<longleftrightarrow>
     dedup_key sj body \<noteq> None \<and> dedup_key sj (er_body e) = dedup_key sj body \<and>
     (case Option.bind (request_id sj body) (readdress sj (reply_body (er_reply e))) of
        None \<Rightarrow> False
      | Some out \<Rightarrow> resp = reply_into_response ((er_reply e)\<lparr>reply_body := out\<rparr>))"

definition earned :: "serde \<Rightarrow> ended_run list \<Rightarrow> bytes \<Rightarrow> response \<Rightarrow> bool" where
  "earned sj es body resp \<longleftrightarrow>
     shape body \<noteq> Single \<and> resp = BAD_REQUEST \<or>
     (\<exists>e \<in> set es. er_body e = body \<and> resp = reply_into_response (er_reply e) \<or> shares_answer sj body e resp)"

lemma earned_mono: "earned sj es body resp \<Longrightarrow> set es \<subseteq> set es' \<Longrightarrow> earned sj es' body resp"
  by (auto simp: earned_def)

definition stage_ok :: "serde \<Rightarrow> ended_run list \<Rightarrow> bytes list \<Rightarrow> request \<Rightarrow> bool" where
  "stage_ok sj es bodies q \<longleftrightarrow>
     (case req_stage q of
        Waiting h Leader \<Rightarrow> h < length bodies \<and> bodies ! h = req_body q
      | Replied resp \<Rightarrow> earned sj es (req_body q) resp
      | _ \<Rightarrow> True)"

definition flight_earned :: "ended_run list \<Rightarrow> bytes list \<Rightarrow> nat \<Rightarrow> reply \<Rightarrow> bool" where
  "flight_earned es bodies h reply \<longleftrightarrow>
     (\<exists>e \<in> set es. er_owner e = OfFlight h \<and> er_body e = bodies ! h \<and> er_reply e = reply)"

definition service_earned :: "serde \<Rightarrow> ended_run list \<Rightarrow> service \<Rightarrow> bool" where
  "service_earned sj es sv \<longleftrightarrow>
     length (flight_bodies sv) = length (flights_of sv) \<and>
     (\<forall>h < length (flights_of sv). \<forall>reply. fl_phase (flights_of sv ! h) = Finished reply \<longrightarrow>
        flight_earned es (flight_bodies sv) h reply) \<and>
     (\<forall>i < length (clients sv). stage_ok sj es (flight_bodies sv) (clients sv ! i))"

lemma may_begin_iff:
  "may_begin (OfFlight h) sv \<longleftrightarrow> live_flight h sv" "may_begin (OfClient i) sv \<longleftrightarrow> alone i sv"
  by (auto simp: live_flight_def alone_def live_def flights_of_def split: option.split)

definition runs_owned :: "system \<Rightarrow> bool" where
  "runs_owned s \<longleftrightarrow>
     (\<forall>ow ac. run_of ow s = Some ac \<longrightarrow> may_begin ow (sys_service s) \<and> ac_body ac = body_of ow (sys_service s))"

subsection \<open>Steps of the service\<close>

text \<open>A request that arrives.\<close>

lemma arrive_last:
  assumes "length (flight_bodies s) = length (flights_of s)" "i < length (clients (arrive sj me body s))"
  shows "i < length (clients s) \<and> clients (arrive sj me body s) ! i = clients s ! i \<or>
    stage_ok sj es (flight_bodies (arrive sj me body s)) (clients (arrive sj me body s) ! i)"
proof (cases rule: arrive_cases [of sj me body s])
  case (idle st)
  have "req_stage (last (clients (arrive sj me body s))) = st" using idle(1) by simp
  then have "st = Alone \<or> st = Replied BAD_REQUEST \<and> shape body \<noteq> Single"
    using idle(2)
    by (auto simp: arrive_def Let_def split: shape_kind.splits option.splits prod.splits)
  with idle(1) assms(2) show ?thesis
    by (cases "i < length (clients s)") (auto simp: nth_append stage_ok_def earned_def)
next
  case (join sf sf' key h r)
  show ?thesis
  proof (cases "i < length (clients s)")
    case True
    with join(5) show ?thesis by (simp add: nth_append)
  next
    case False
    with assms(2) join(5) have i: "i = length (clients s)" by simp
    show ?thesis
    proof (cases r)
      case Leader
      have "h = length (flights sf)"
        using join(4) Leader
        by (auto simp: join_def next_id_def Let_def split: option.splits)
      with assms(1) join(1) have "h = length (flight_bodies s)" by (simp add: flights_of_def)
      with i join(5) Leader show ?thesis by (simp add: stage_ok_def)
    next
      case (Follower x)
      with i join(5) show ?thesis by (simp add: stage_ok_def)
    qed
  qed
qed

lemma stage_ok_mono:
  assumes "stage_ok sj es bodies q" "set es \<subseteq> set es'" "req_stage q' = req_stage q" "req_body q' = req_body q"
    and "\<And>h. h < length bodies \<Longrightarrow> h < length bodies' \<and> bodies' ! h = bodies ! h"
  shows "stage_ok sj es' bodies' q'"
  using assms earned_mono [OF _ assms(2)]
  by (auto simp: stage_ok_def split: stage.splits role.splits)

text \<open>A participant takes its flight's reply.\<close>

lemma takes_stage_ok:
  assumes inv: "service_inv sj sv" and ok: "service_earned sj es sv"
    and step: "service_step sj (Takes i) sv = Some sv'"
  shows "stage_ok sj es (flight_bodies sv') (clients sv' ! i)"
proof -
  from takes_step [OF step] obtain h r sf sf' reply where t: "i < length (clients sv)"
    "req_stage (clients sv ! i) = Waiting h r" "shared sv = Some sf" "h < length (flights sf)"
    "fl_phase (flights sf ! h) = Finished reply"
    and sv': "sv' = set_stage i (case fst (coalesce_end sj r (req_body (clients sv ! i)) reply) of
        Some x \<Rightarrow> Replied (reply_into_response x) | None \<Rightarrow> Alone)
      (sv\<lparr>shared := Some sf',
         service_log := service_log sv @ snd (coalesce_end sj r (req_body (clients sv ! i)) reply)\<rparr>)" by blast
  have fl: "flights_of sv = flights sf" using t(3) by (simp add: flights_of_def)
  from ok t(4,5) fl obtain e where e: "e \<in> set es" "er_body e = flight_bodies sv ! h" "er_reply e = reply"
    by (auto simp: service_earned_def flight_earned_def)
  from inv t(3) have sh: "shared_inv sj sf (flight_bodies sv) (clients sv)" by (simp add: service_inv_def)
  then have "client_ok sj sf (clients sv ! i)" "flight_ok sj sf (flight_bodies sv) (clients sv) h"
    using t(1,4) by (simp_all add: shared_inv_def)
  then have keys: "dedup_key sj (req_body (clients sv ! i)) = Some (fl_key (flights sf ! h))"
    "dedup_key sj (er_body e) = Some (fl_key (flights sf ! h))"
    using t(2) e(2) by (simp_all add: client_ok_def flight_ok_def)
  have new: "req_stage (clients sv' ! i) = (case fst (coalesce_end sj r (req_body (clients sv ! i)) reply) of
      Some x \<Rightarrow> Replied (reply_into_response x) | None \<Rightarrow> Alone)"
    "req_body (clients sv' ! i) = req_body (clients sv ! i)" using t(1) by (simp_all add: sv')
  show ?thesis
  proof (cases r)
    case Leader
    with ok t(1,2) have "flight_bodies sv ! h = req_body (clients sv ! i)"
      by (auto simp: service_earned_def stage_ok_def)
    with new Leader e show ?thesis by (auto simp: stage_ok_def coalesce_end_def earned_def)
  next
    case (Follower ldr)
    show ?thesis
    proof (cases "Option.bind (request_id sj (req_body (clients sv ! i))) (readdress sj (reply_body reply))")
      case None
      with new Follower show ?thesis by (simp add: stage_ok_def coalesce_end_def)
    next
      case (Some out)
      with new Follower e keys have "shares_answer sj (req_body (clients sv ! i)) e
          (reply_into_response (reply\<lparr>reply_body := out\<rparr>))" by (simp add: shares_answer_def)
      with new Follower Some e(1) show ?thesis
        by (auto simp: stage_ok_def coalesce_end_def earned_def)
    qed
  qed
qed
lemma join_length:
  "join key me sf = ((h, r), sf') \<Longrightarrow>
   length (flights sf') = length (flights sf) + (if r = Leader then 1 else 0)"
  by (auto simp: join_def next_id_def Let_def split: option.splits if_splits)

lemma sf_step_length:
  "sf_step ev sf = Some sf' \<Longrightarrow> \<forall>k me. ev \<noteq> Join k me \<Longrightarrow> length (flights sf') = length (flights sf)"
  by (cases ev) (auto split: if_splits)

lemma service_step_frame:
  assumes "service_step sj ev s = Some s'" "\<And>me body. ev \<noteq> Arrive me body"
  shows "flight_bodies s' = flight_bodies s \<and> length (flights_of s') = length (flights_of s)"
proof (cases ev)
  case (Takes i)
  with assms(1) have "service_step sj (Takes i) s = Some s'" by simp
  from takes_step [OF this] sf_step_length [where ev = "HangUp h" for h] show ?thesis
    by (auto simp: flights_of_def simp del: sf_step.simps)
next
  case (Leaves i)
  with assms(1) sf_step_length [where ev = "HangUp h" for h] show ?thesis
    by (auto simp: with_flights_Some flights_of_def simp del: sf_step.simps split: if_splits stage.splits)
next
  case (FlightEnds h a)
  with assms(1) sf_step_length [where ev = "Complete h a"] show ?thesis
    by (auto simp: with_flights_Some flights_of_def simp del: sf_step.simps)
next
  case (GuardRuns h)
  with assms(1) sf_step_length [where ev = "Evicted h"] show ?thesis
    by (auto simp: with_flights_Some flights_of_def simp del: sf_step.simps)
next
  case (AloneEnds i a)
  with assms(1) show ?thesis by (auto simp: flights_of_def split: if_splits)
qed (use assms in blast)

lemma arrive_bodies_length:
  assumes "length (flight_bodies s) = length (flights_of s)"
  shows "length (flight_bodies (arrive sj me body s)) = length (flights_of (arrive sj me body s))"
proof (cases rule: arrive_cases [of sj me body s])
  case (join sf sf' key h r)
  with assms join_length [OF join(4)] show ?thesis by (simp add: flights_of_def)
qed (use assms in \<open>simp add: flights_of_def\<close>)

lemma service_step_earned:
  assumes inv: "service_inv sj sv" and ok: "service_earned sj es sv"
    and step: "service_step sj ev sv = Some sv'" and sub: "set es \<subseteq> set es'"
    and flight: "\<And>h r. ev = FlightEnds h r \<Longrightarrow> h < length (flights_of sv) \<Longrightarrow> flight_earned es' (flight_bodies sv) h r"
    and own: "\<And>i r. ev = AloneEnds i r \<Longrightarrow> \<exists>e \<in> set es'. er_body e = req_body (clients sv ! i) \<and> er_reply e = r"
  shows "service_earned sj es' sv'"
proof -
  have len: "length (flight_bodies sv) = length (flights_of sv)" using ok by (simp add: service_earned_def)
  have len': "length (flight_bodies sv') = length (flights_of sv')"
  proof (cases "\<exists>me body. ev = Arrive me body")
    case True
    with step arrive_bodies_length [OF len] show ?thesis by auto
  next
    case False
    with service_step_frame [OF step] len show ?thesis by auto
  qed
  have old: "h < length (flight_bodies sv') \<and> flight_bodies sv' ! h = flight_bodies sv ! h"
    if "h < length (flight_bodies sv)" for h
    using service_bodies [OF step that] by simp
  have fl: "flight_earned es' (flight_bodies sv') h reply"
    if h: "h < length (flights_of sv')" "fl_phase (flights_of sv' ! h) = Finished reply" for h reply
  proof (cases "ev = FlightEnds h reply")
    case True
    from True service_step_frame [OF step] h(1) have "h < length (flights_of sv)" by simp
    from flight [OF True this] old len this show ?thesis by (simp add: flight_earned_def)
  next
    case False
    with service_finished [OF step h] have "h < length (flights_of sv)" "fl_phase (flights_of sv ! h) = Finished reply"
      by blast+
    with ok have "flight_earned es (flight_bodies sv) h reply" by (simp add: service_earned_def)
    with sub old len \<open>h < length (flights_of sv)\<close> show ?thesis by (auto simp: flight_earned_def)
  qed
  have cl: "stage_ok sj es' (flight_bodies sv') (clients sv' ! i)" if i: "i < length (clients sv')" for i
  proof -
    have keep: ?thesis if "i < length (clients sv)" "req_stage (clients sv' ! i) = req_stage (clients sv ! i)"
    proof -
      have "stage_ok sj es (flight_bodies sv) (clients sv ! i)" using ok that by (simp add: service_earned_def)
      from stage_ok_mono [OF this sub that(2) service_clients(2) [OF step that(1)] old] show ?thesis .
    qed
    show ?thesis
    proof (cases ev)
      case (Arrive me body)
      with step have sv': "sv' = arrive sj me body sv" by simp
      from arrive_last [OF len, of i sj me body es'] i keep show ?thesis by (auto simp: sv')
    next
      case (Takes j)
      with step have t: "service_step sj (Takes j) sv = Some sv'" by simp
      show ?thesis
      proof (cases "i = j")
        case True
        from takes_stage_ok [OF inv ok t] show ?thesis
          unfolding True by (rule stage_ok_mono [OF _ sub]) simp_all
      next
        case False
        from takes_step [OF t] False i keep show ?thesis by (auto simp: nth_update_in)
      qed
    next
      case (Leaves j)
      have j: "j < length (clients sv)" "length (clients sv') = length (clients sv)"
        "clients sv' = (clients sv)[j := (clients sv ! j)\<lparr>req_stage := Gone\<rparr>]"
        using Leaves step
        by (auto simp: with_flights_Some simp del: sf_step.simps split: if_splits stage.splits)
      with i keep show ?thesis
        by (cases "i = j") (simp_all add: stage_ok_def nth_update_in)
    next
      case (AloneEnds j r)
      with step have j: "j < length (clients sv)"
        "sv' = set_stage j (Replied (reply_into_response r)) sv" by (auto split: if_splits)
      from own [OF AloneEnds] j i keep show ?thesis
        by (cases "i = j") (auto simp: stage_ok_def earned_def nth_update_in)
    next
      case (FlightEnds h a)
      with step i keep show ?thesis by (auto simp: with_flights_Some simp del: sf_step.simps)
    next
      case (GuardRuns h)
      with step i keep show ?thesis by (auto simp: with_flights_Some simp del: sf_step.simps)
    qed
  qed
  from len' fl cl show ?thesis by (simp add: service_earned_def)
qed
subsection \<open>Runs and their owners\<close>

lemma owner_body:
  assumes step: "service_step sj ev sv = Some sv'" and len: "length (flight_bodies sv) = length (flights_of sv)"
    and own: "may_begin ow sv"
  shows "body_of ow sv' = body_of ow sv"
proof (cases ow)
  case (OfFlight h)
  with own len have "h < length (flight_bodies sv)" by (simp add: may_begin_iff live_flight_def del: may_begin.simps)
  from service_bodies(1) [OF step this] OfFlight show ?thesis by simp
next
  case (OfClient i)
  with own service_clients(2) [OF step, of i] show ?thesis by simp
qed

text \<open>A step of the service that leaves an owner its run.\<close>

lemma owner_stays:
  assumes step: "service_step sj ev sv = Some sv'" and own: "may_begin ow sv"
    and ends: "\<And>r. ev \<noteq> reply_event ow r"
    and leaves: "\<And>i. ev = Leaves i \<Longrightarrow> ow \<noteq> OfClient i \<and>
      (\<forall>h r. ow = OfFlight h \<longrightarrow> i < length (clients sv) \<longrightarrow> req_stage (clients sv ! i) = Waiting h r \<longrightarrow>
        1 < fl_holders (flights_of sv ! h))"
  shows "may_begin ow sv'"
proof (cases ow)
  case (OfFlight h)
  have "live_flight h sv'"
  proof (rule service_live [OF step])
    show "live_flight h sv" using own OfFlight by (simp add: may_begin_iff del: may_begin.simps)
    show "ev \<noteq> FlightEnds h a" for a using ends [of a] OfFlight by simp
    show "\<And>i r. ev = Leaves i \<Longrightarrow> i < length (clients sv) \<Longrightarrow> req_stage (clients sv ! i) = Waiting h r \<Longrightarrow>
        1 < fl_holders (flights_of sv ! h)" using leaves OfFlight by blast
  qed
  then show ?thesis using OfFlight by (simp add: may_begin_iff del: may_begin.simps)
next
  case (OfClient i)
  have "alone i sv'"
  proof (rule service_alone [OF step])
    show "alone i sv" using own OfClient by (simp add: may_begin_iff del: may_begin.simps)
    show "ev \<noteq> Leaves i" using leaves OfClient by blast
    show "ev \<noteq> AloneEnds i a" for a using ends [of a] OfClient by simp
  qed
  then show ?thesis using OfClient by (simp add: may_begin_iff del: may_begin.simps)
qed

text \<open>What a hang-up leaves: the runs of the others.\<close>

lemma run_of_hung_up:
  "run_of ow (hung_up i t sv s) =
     (if ow = (case req_stage (clients (sys_service s) ! i) of Waiting h r \<Rightarrow> OfFlight h | _ \<Rightarrow> OfClient i) \<and>
         (\<forall>h r. req_stage (clients (sys_service s) ! i) = Waiting h r \<longrightarrow> flight_dead h sv)
      then None else run_of ow s)"
  by (auto simp: hung_up_def split: stage.split)

lemma leaves_last:
  assumes inv: "service_inv sj sv" and step: "service_step sj (Leaves i) sv = Some sv'"
    and w: "i < length (clients sv)" "req_stage (clients sv ! i) = Waiting h r"
    and live: "live_flight h sv" and nd: "\<not> flight_dead h sv'"
  shows "1 < fl_holders (flights_of sv ! h)"
proof -
  from step w obtain sf sf' where f: "shared sv = Some sf" "sf_step (HangUp h) sf = Some sf'"
    "sv' = set_stage i Gone (sv\<lparr>shared := Some sf'\<rparr>)"
    by (auto simp: with_flights_Some simp del: sf_step.simps)
  with live nd show ?thesis
    by (auto simp: flight_dead_def live_flight_def live_def flights_of_def split: if_splits)
qed

lemma set_run_owned:
  assumes "runs_owned s" "may_begin ow (sys_service s)" "ac_body ac = body_of ow (sys_service s)"
  shows "runs_owned (set_run ow (Some ac) s)"
  using assms by (simp add: runs_owned_def)

lemma owned_service:
  assumes own: "runs_owned s" and step: "service_step sj ev (sys_service s) = Some sv"
    and len: "length (flight_bodies (sys_service s)) = length (flights_of (sys_service s))"
    and sv: "sys_service s' = sv"
    and runs: "\<And>ow ac. run_of ow s' = Some ac \<Longrightarrow> run_of ow s = Some ac \<and> (\<forall>r. ev \<noteq> reply_event ow r)"
    and leaves: "\<And>ow ac i. run_of ow s' = Some ac \<Longrightarrow> ev = Leaves i \<Longrightarrow> ow \<noteq> OfClient i \<and>
      (\<forall>h r. ow = OfFlight h \<longrightarrow> i < length (clients (sys_service s)) \<longrightarrow>
        req_stage (clients (sys_service s) ! i) = Waiting h r \<longrightarrow> 1 < fl_holders (flights_of (sys_service s) ! h))"
  shows "runs_owned s'"
  unfolding runs_owned_def
proof (intro allI impI)
  fix ow ac
  assume r: "run_of ow s' = Some ac"
  from runs [OF r] own have o: "may_begin ow (sys_service s)" "ac_body ac = body_of ow (sys_service s)"
    by (auto simp: runs_owned_def)
  have "may_begin ow sv"
    by (rule owner_stays [OF step o(1)]) (use runs [OF r] leaves [OF r] in blast)+
  with owner_body [OF step len o(1)] o(2) sv
  show "may_begin ow (sys_service s') \<and> ac_body ac = body_of ow (sys_service s')" by simp
qed
lemma reply_event_inj [simp]: "reply_event ow r = reply_event ow' r' \<longleftrightarrow> ow = ow' \<and> r = r'"
  by (cases ow; cases ow') auto

lemma reply_event_not [simp]:
  "Takes i \<noteq> reply_event ow r" "Leaves i \<noteq> reply_event ow r" "GuardRuns h \<noteq> reply_event ow r"
  "Arrive me body \<noteq> reply_event ow r"
  "reply_event ow r \<noteq> Leaves i"
  by (cases ow; simp)+

definition sys_earned :: "serde \<Rightarrow> system \<Rightarrow> bool" where
  "sys_earned sj s \<longleftrightarrow> service_earned sj (ended_runs s) (sys_service s) \<and> runs_owned s"

lemma hung_up_owned:
  assumes inv: "service_inv sj (sys_service s)" and own: "runs_owned s"
    and len: "length (flight_bodies (sys_service s)) = length (flights_of (sys_service s))"
    and st: "service_step sj (Leaves i) (sys_service s) = Some sv"
  shows "runs_owned (hung_up i t sv s)"
proof (rule owned_service [OF own st len])
  let ?sv = "sys_service s"
  have i: "i < length (clients ?sv)" using st by (simp split: if_splits)
  fix ow ac
  assume r: "run_of ow (hung_up i t sv s) = Some ac"
  then have r': "run_of ow s = Some ac" by (auto simp: run_of_hung_up split: if_splits)
  then show "run_of ow s = Some ac \<and> (\<forall>r. Leaves i \<noteq> reply_event ow r)" by simp
  from own r' have o: "may_begin ow ?sv" by (auto simp: runs_owned_def)
  fix j
  assume "Leaves i = Leaves j"
  then have j: "j = i" by simp
  have "ow \<noteq> OfClient i"
  proof
    assume "ow = OfClient i"
    with o have "req_stage (clients ?sv ! i) = Alone" by simp
    with r \<open>ow = OfClient i\<close> show False by (simp add: run_of_hung_up)
  qed
  moreover have "1 < fl_holders (flights_of ?sv ! h)"
    if "ow = OfFlight h" "req_stage (clients ?sv ! i) = Waiting h x" for h x
  proof (rule leaves_last [OF inv st i that(2)])
    show "live_flight h ?sv" using o that(1) by (simp add: may_begin_iff del: may_begin.simps)
    show "\<not> flight_dead h sv" using r that by (auto simp: run_of_hung_up)
  qed
  ultimately show "ow \<noteq> OfClient j \<and>
      (\<forall>h r. ow = OfFlight h \<longrightarrow> j < length (clients ?sv) \<longrightarrow>
        req_stage (clients ?sv ! j) = Waiting h r \<longrightarrow> 1 < fl_holders (flights_of ?sv ! h))"
    unfolding j by blast
qed simp

lemma system_step_earned:
  assumes inv: "service_inv sj (sys_service s)" and ok: "sys_earned sj s"
    and step: "system_step sj ev s = Some s'"
  shows "sys_earned sj s'"
proof -
  let ?sv = "sys_service s"
  from ok have e: "service_earned sj (ended_runs s) ?sv" and own: "runs_owned s" by (simp_all add: sys_earned_def)
  have len: "length (flight_bodies ?sv) = length (flights_of ?sv)" using e by (simp add: service_earned_def)
  show ?thesis
  proof (cases ev)
    case (Arrives me body)
    with step have st: "service_step sj (Arrive me body) ?sv = Some (arrive sj me body ?sv)"
      and s': "s' = s\<lparr>sys_service := arrive sj me body ?sv\<rparr>" by auto
    have "runs_owned s'" by (rule owned_service [OF own st len]) (auto simp: s')
    then show ?thesis using service_step_earned [OF inv e st subset_refl] by (simp add: sys_earned_def s')
  next
    case (RunBegins ow r rcv t)
    define chain where "chain = fst (dyn_decide (with_ranking r (sys_decider s)) (max_attempt (sys_core s)))"
    define d where "d = snd (dyn_decide (sys_decider s) (max_attempt (sys_core s)))"
    let ?ac = "\<lparr>ac_body = body_of ow ?sv, ac_chain = chain, ac_received = rcv,
      ac_run = run_begin (sys_core s) (method_label sj (body_of ow ?sv)) chain t\<rparr>"
    from RunBegins step have b: "may_begin ow ?sv" "s' = set_run ow (Some ?ac) (s\<lparr>sys_decider := d\<rparr>)"
      by (simp_all add: Let_def chain_def d_def del: may_begin.simps split: if_splits)
    have "runs_owned (s\<lparr>sys_decider := d\<rparr>)" using own by (simp add: runs_owned_def)
    from set_run_owned [OF this, of ow ?ac] b e show ?thesis by (simp add: sys_earned_def)
  next
    case (RunSteps ow rev)
    with step obtain ac r calls where ac: "run_of ow s = Some ac"
      and s': "s' = tell calls (set_run ow (Some (ac\<lparr>ac_run := r\<rparr>)) s)" by (auto split: option.splits)
    from own ac have "runs_owned (set_run ow (Some (ac\<lparr>ac_run := r\<rparr>)) s)"
      by (intro set_run_owned [OF own]) (auto simp: runs_owned_def)
    with e show ?thesis by (simp add: sys_earned_def s' runs_owned_def)
  next
    case (RunEnds ow)
    with step obtain ac reply calls sv where ac: "run_of ow s = Some ac"
      and st: "service_step sj (reply_event ow reply) ?sv = Some sv"
      and s': "s' = tell calls (set_run ow None (s\<lparr>sys_service := sv,
           ended_runs := ended_runs s @ [\<lparr>er_owner = ow, er_body = ac_body ac,
             er_chain = ac_chain ac, er_run = ac_run ac, er_reply = reply\<rparr>]\<rparr>))"
      by (auto split: option.splits)
    let ?e = "\<lparr>er_owner = ow, er_body = ac_body ac, er_chain = ac_chain ac, er_run = ac_run ac, er_reply = reply\<rparr>"
    have body: "ac_body ac = body_of ow ?sv" using own ac by (simp add: runs_owned_def)
    have es: "ended_runs s' = ended_runs s @ [?e]" "sys_service s' = sv" by (simp_all add: s')
    have "service_earned sj (ended_runs s') sv"
    proof (rule service_step_earned [OF inv e st])
      show "set (ended_runs s) \<subseteq> set (ended_runs s')" by (auto simp: es)
      show "flight_earned (ended_runs s') (flight_bodies ?sv) h r" if "reply_event ow reply = FlightEnds h r" for h r
        using that body by (cases ow) (auto simp: flight_earned_def es)
      show "\<exists>e \<in> set (ended_runs s'). er_body e = req_body (clients ?sv ! i) \<and> er_reply e = r"
        if "reply_event ow reply = AloneEnds i r" for i r
        using that body by (cases ow) (auto simp: es)
    qed
    moreover have "runs_owned s'"
      by (rule owned_service [OF own st len es(2)]) (auto simp: s' split: if_splits)
    ultimately show ?thesis by (simp add: sys_earned_def es)
  next
    case (TakesReply i)
    with step obtain calls sv where st: "service_step sj (Takes i) ?sv = Some sv"
      and s': "s' = tell calls (s\<lparr>sys_service := sv\<rparr>)" by (auto simp del: service_step.simps)
    have "runs_owned s'" by (rule owned_service [OF own st len]) (auto simp: s')
    then show ?thesis using service_step_earned [OF inv e st subset_refl] by (simp add: sys_earned_def s')
  next
    case (HangsUp i t)
    with step obtain sv where st: "service_step sj (Leaves i) ?sv = Some sv"
      and s': "s' = hung_up i t sv s" by (auto simp del: service_step.simps)
    have "runs_owned s'" unfolding s' by (rule hung_up_owned [OF inv own len st])
    then show ?thesis using service_step_earned [OF inv e st subset_refl] by (simp add: sys_earned_def s')
  next
    case (GuardEvicts h)
    with step obtain sv where st: "service_step sj (GuardRuns h) ?sv = Some sv"
      and s': "s' = s\<lparr>sys_service := sv\<rparr>" by (auto simp del: service_step.simps)
    have "runs_owned s'" by (rule owned_service [OF own st len]) (auto simp: s')
    then show ?thesis using service_step_earned [OF inv e st subset_refl] by (simp add: sys_earned_def s')
  next
    case (Refreshes seen)
    with step ok show ?thesis by (auto simp: sys_earned_def runs_owned_def split: if_splits)
  qed
qed
lemma system_flights_grow:
  assumes "system_step sj ev s = Some s'"
  shows "length (flights_of (sys_service s)) \<le> length (flights_of (sys_service s'))"
proof -
  have "sys_service s' = sys_service s \<or> (\<exists>sev. service_step sj sev (sys_service s) = Some (sys_service s'))"
    using system_service_step [OF assms]
    by (cases ev) (auto simp del: service_step.simps intro: exI [of _ "Arrive x y" for x y])
  with service_flights_grow show ?thesis by fastforce
qed

lemma system_start_earned: "sys_earned sj (system_start a)" if "app_ok a"
proof -
  have "run_of ow (system_start a) = None" for ow by (cases ow) (simp_all add: system_start_def)
  moreover have "flights_of (sys_service (system_start a)) = []"
    using that by (auto simp: system_start_def flights_of_def app_ok_def singleflight_default_def)
  ultimately show ?thesis
    unfolding sys_earned_def runs_owned_def service_earned_def by (simp add: system_start_def)
qed

lemma system_reach_inv:
  assumes "system_reach sj a s" "app_ok a" "length (flights_of (sys_service s)) \<le> 2 ^ 64"
  shows "service_inv sj (sys_service s)"
  using service_reach_inv [OF system_service_reach [OF assms(1)] assms(3)] assms(2) by (simp add: app_ok_def)

lemma system_reach_earned:
  assumes "system_reach sj a s" "app_ok a" "length (flights_of (sys_service s)) \<le> 2 ^ 64"
  shows "sys_earned sj s"
  using assms(1,3)
proof (induction rule: system_reach.induct)
  case system_begin
  from assms(2) show ?case by (rule system_start_earned)
next
  case (system_next s ev s')
  have n: "length (flights_of (sys_service s)) \<le> 2 ^ 64"
    using system_flights_grow [OF system_next.hyps(2)] system_next.prems by (rule order_trans)
  show ?case
    by (rule system_step_earned [OF system_reach_inv [OF system_next.hyps(1) assms(2) n] system_next.IH [OF n]
        system_next.hyps(2)])
qed

subsection \<open>The properties\<close>

text \<open>
  C1: Every answer is earned. In every state the application built from validated settings can reach,
  a client that was answered sent a body that is no single request and got a 400; or the reply of a
  run that ended for its own body; or the reply of a run that ended for a body with its deduplication
  key, with its own request's id put in. That run tried upstreams of the settings only, no two of them
  the same, and the reply is what the run made of how it ended.
\<close>

theorem every_answer_is_earned:
  assumes "validate_settings hp st = Inr ()" "app_build hp bind hc st = Inr a"
    and "system_reach sj a s" "length (flights_of (sys_service s)) \<le> 2 ^ 64"
    and "i < length (clients (sys_service s))"
    and "req_body (clients (sys_service s) ! i) = body" "req_stage (clients (sys_service s) ! i) = Replied resp"
  shows "shape body \<noteq> Single \<and> resp = BAD_REQUEST \<or>
    (\<exists>e \<in> set (ended_runs s).
       (er_body e = body \<and> resp = reply_into_response (er_reply e) \<or> shares_answer sj body e resp) \<and>
       run_reach sj (sys_core s) (method_label sj (er_body e)) (er_chain e) (er_run e) \<and>
       (\<exists>t calls. run_ended sj (er_chain e) (method_label sj (er_body e)) t (er_run e) = Some (er_reply e, calls)) \<and>
       distinct (map uid (er_chain e)) \<and>
       uid ` set (er_chain e) \<subseteq> UpstreamId ` us_label ` set (upstreams st))"
proof -
  note app = app_build_ok [OF assms(2,1)]
  from system_reach_earned [OF assms(3) app(1) assms(4)]
  have "earned sj (ended_runs s) body resp"
    using assms(5-7) by (auto simp: sys_earned_def service_earned_def stage_ok_def)
  moreover have "run_reach sj (sys_core s) (method_label sj (er_body e)) (er_chain e) (er_run e) \<and>
      (\<exists>t calls. run_ended sj (er_chain e) (method_label sj (er_body e)) t (er_run e) = Some (er_reply e, calls)) \<and>
      distinct (map uid (er_chain e)) \<and> uid ` set (er_chain e) \<subseteq> UpstreamId ` us_label ` set (upstreams st)"
    if "e \<in> set (ended_runs s)" for e
  proof -
    from system_reach_ok [OF assms(3) app(1)] that
    have e: "ended_good sj a e" and c: "sys_core s = pl_core (app_pipeline a)" by (simp_all add: sys_ok_def)
    have "distinct (map uid (pool_of a))" using app(1) by (simp add: app_ok_def)
    moreover from e have "run_good sj a (er_body e) (er_chain e) (er_run e)" by (simp add: ended_good_def)
    ultimately have d: "set (er_chain e) \<subseteq> set (pool_of a)" "distinct (map uid (er_chain e))"
      using run_good_chain by blast+
    have "uid ` set (er_chain e) \<subseteq> uid ` set (pool_of a)" using d(1) by (rule image_mono)
    also have "\<dots> = UpstreamId ` us_label ` set (upstreams st)"
      using arg_cong [OF app(2), of set] by (simp add: image_comp)
    finally show ?thesis
      using e c d(2) unfolding ended_good_def run_good_def by simp
  qed
  ultimately show ?thesis by (auto simp: earned_def)
qed

text \<open>
  C7: The observer is exact. In every state the application built from validated settings can reach,
  whatever runs, refreshes and hang-ups interleaved, the observer was told about configured upstreams
  only, so no call was lost on an unknown one; the snapshot of a configured upstream is the count of
  the attempts reported on it; and as many requests were reported as runs ended.
\<close>

theorem observer_is_exact:
  assumes "validate_settings hp st = Inr ()" "app_build hp bind hc st = Inr a" "system_reach sj a s"
  shows "(\<forall>u. snapshot_of (sys_observer s) u =
      (if u \<in> UpstreamId ` us_label ` set (upstreams st)
       then Some (history_snapshot (attempts_on u (told s))) else None)) \<and>
    (\<forall>e. e \<in> set (told s) \<longrightarrow> event_uids e \<subseteq> UpstreamId ` us_label ` set (upstreams st)) \<and>
    requests_in (told s) = length (ended_runs s)"
proof -
  note app = app_build_ok [OF assms(2,1)]
  from system_reach_ok [OF assms(3) app(1)] have ok: "sys_ok sj a s" "requests_in (told s) = length (ended_runs s)"
    by blast+
  have ids: "set (map uid (pool_of a)) = UpstreamId ` us_label ` set (upstreams st)"
    unfolding app(2) by (simp add: image_comp)
  have "app_observer a = new_observer (map uid (pool_of a))" using app(1) by (simp add: app_ok_def)
  with ok(1) have obs: "sys_observer s = run_events (told s) (new_observer (map uid (pool_of a)))"
    by (simp add: sys_ok_def)
  from ok(1) ids have "\<forall>e. e \<in> set (told s) \<longrightarrow> event_uids e \<subseteq> UpstreamId ` us_label ` set (upstreams st)"
    by (simp add: sys_ok_def about_def)
  with ok(2) show ?thesis unfolding obs snapshot_of_exact ids by simp
qed

text \<open>
  C19: The pool is safe. In every state the application built from validated settings can reach, the
  decider still holds each configured upstream once, and the refresher of a ranking decider can run:
  a refresh that is due never panics, whatever it sees of the counters while handlers add to them.
\<close>

theorem pool_is_safe:
  assumes "validate_settings hp st = Inr ()" "app_build hp bind hc st = Inr a" "system_reach sj a s"
  shows "mset (map uid (dyn_pool (sys_decider s))) = mset (map (UpstreamId \<circ> us_label) (upstreams st)) \<and>
    (may_see seen (sys_observer s) \<longrightarrow>
      (system_step sj (Refreshes seen) s = None \<longleftrightarrow> (\<exists>r. sys_decider s = DynRoundRobin r)))"
proof -
  note app = app_build_ok [OF assms(2,1)]
  from system_reach_ok [OF assms(3) app(1)] have ok: "dyn_can_run (sys_decider s)"
    "mset (dyn_pool (sys_decider s)) = mset (pool_of a)" by (simp_all add: sys_ok_def)
  from ok(2) have "mset (map uid (dyn_pool (sys_decider s))) = mset (map uid (pool_of a))" by simp
  with app(2) dyn_refresh_none [OF ok(1)] show ?thesis by simp
qed
subsection \<open>A concrete application\<close>

text \<open>
  Two clients ask the same; the leader's client hangs up after the run has ended and before it takes the
  reply; the follower is answered.
\<close>

definition demo_live_settings :: settings where
  "demo_live_settings =
     demo_settings\<lparr>decider := RoundRobin,
       application := (application demo_settings)\<lparr>proxy := (proxy (application demo_settings))
         \<lparr>ps_hedge := \<lparr>hedge_enabled = False, after_in_millis = 250\<rparr>\<rparr>\<rparr>\<rparr>"

definition demo_pool :: "upstream list" where
  "demo_pool =
     [\<lparr>url = ''http://a'', uid = UpstreamId ''a'', timeout = 3000000000, hedge_after = 250000000,
        max_response_bytes = 1000\<rparr>,
      \<lparr>url = ''http://b'', uid = UpstreamId ''b'', timeout = 3000000000, hedge_after = 5000000,
        max_response_bytes = 1000\<rparr>]"

definition demo_app :: application_state where
  "demo_app =
     \<lparr>app_port = 8080,
      app_pipeline = \<lparr>pl_core = \<lparr>max_attempt = 3, retry_after = 1000000000, core_dispatch = Sequential\<rparr>,
        pl_decider = DynRoundRobin \<lparr>rr_upstreams = demo_pool, rr_next = 0\<rparr>, pl_flights = Some singleflight_default\<rparr>,
      app_observer = new_observer [UpstreamId ''a'', UpstreamId ''b''],
      app_cors = Some \<lparr>allow_origin = AnyOrigin, allow_methods = [''POST''], allow_headers = [''content-type''],
        max_age = 3600 * 1000000000\<rparr>\<rparr>"

lemma demo_live_settings_valid:
  "validate_settings \<lparr>header_value = (\<lambda>_. True), parse_uri = (\<lambda>_. None)\<rparr> demo_live_settings = Inr ()"
  by (simp add: demo_live_settings_def validate_settings_def demo_settings_def validate_cors_def
      WILDCARD_ORIGIN_def contains_def blank_def trim_def ws_scalars_def trim_with.simps)

lemma demo_app_build:
  "app_build \<lparr>header_value = (\<lambda>_. True), parse_uri = (\<lambda>_. None)\<rparr> (\<lambda>_. Some 8080) (\<lambda>_. True)
     demo_live_settings = Inr demo_app"
  by (simp add: app_build_def demo_live_settings_def demo_settings_def build_all_def build_one_def
      new_upstream_def Let_def blank_def trim_def ws_scalars_def trim_with.simps build_decider_def rr_new_def
      app_new_def pipeline_new_def demo_app_def demo_pool_def cors_layer_of_def WILDCARD_ORIGIN_def
      from_secs_def from_millis_def)

definition demo_schedule :: "system_event list" where
  "demo_schedule =
     [Arrives 1 ''{eth_call'', Arrives 2 ''{eth_call'', RunBegins (OfFlight 0) demo_pool 0 0,
      RunSteps (OfFlight 0) (WalkEvent (Returned demo_ok 3)), RunEnds (OfFlight 0), HangsUp 0 4, TakesReply 1]"

lemmas live_eval = service_eval may_load_def system_start_def demo_app_def rr_decide_def run_begin_def walk_begin_def walk_head_def
  walk_call_def tell_def hung_up_def flight_dead_def drop_run_def demo_pool_def coalesce_end_def
  attempt_start_def try_finish_def upstream_call_def call_record_of_def attempt_finish_def attempt_drop_def
  run_ended_def finish_def walk_finished_def

lemma demo_ok_call:
  "max_response_bytes u = 1000 \<Longrightarrow>
   call_inner demo_serde u demo_ok = Inr \<lparr>co_http_status = 200, response_body = ''{}''\<rparr>"
  by (simp add: call_inner_def demo_ok_def rpc_fault_in_def)

lemma demo_readdress: "readdress demo_serde b rid = Some rid"
  by (simp add: readdress_def demo_serde_def)

lemma demo_live:
  "\<exists>s. system_exec demo_serde demo_schedule (system_start demo_app) = Some s \<and>
    clients (sys_service s) = [\<lparr>req_body = ''{eth_call'', req_uuid = 1, req_stage = Gone\<rparr>,
      \<lparr>req_body = ''{eth_call'', req_uuid = 2,
       req_stage = Replied (reply_into_response \<lparr>reply_status = 200, reply_body = ''7''\<rparr>)\<rparr>] \<and>
    length (flights_of (sys_service s)) = 1 \<and>
    told s = [Record (UpstreamId ''a'') \<lparr>rec_duration = 3, rec_outcome = Inr 200\<rparr>,
      Request (method_label demo_serde ''{eth_call'') True 1 3, Coalesced]"
  by (simp add: demo_schedule_def live_eval demo_ok_call demo_readdress reply_of_def flights_of_def)

theorem every_answer_is_earned_witness:
  "\<exists>s e. system_reach demo_serde demo_app s \<and> e \<in> set (ended_runs s) \<and>
     req_stage (clients (sys_service s) ! 1) =
       Replied (reply_into_response \<lparr>reply_status = 200, reply_body = ''7''\<rparr>) \<and>
     uid ` set (er_chain e) \<subseteq> {UpstreamId ''a'', UpstreamId ''b''}"
proof -
  obtain s where s: "system_exec demo_serde demo_schedule (system_start demo_app) = Some s"
    and c: "clients (sys_service s) ! 1 = \<lparr>req_body = ''{eth_call'', req_uuid = 2,
       req_stage = Replied (reply_into_response \<lparr>reply_status = 200, reply_body = ''7''\<rparr>)\<rparr>"
      "1 < length (clients (sys_service s))" "length (flights_of (sys_service s)) \<le> 2 ^ 64"
    using demo_live by auto
  have r: "system_reach demo_serde demo_app s" by (rule system_exec_reach [OF s system_begin])
  have q: "req_body (clients (sys_service s) ! 1) = ''{eth_call''"
    "req_stage (clients (sys_service s) ! 1) =
       Replied (reply_into_response \<lparr>reply_status = 200, reply_body = ''7''\<rparr>)" by (simp_all only: c request.select_convs)
  have us: "UpstreamId ` us_label ` set (upstreams demo_live_settings) = {UpstreamId ''a'', UpstreamId ''b''}"
    by (simp add: demo_live_settings_def demo_settings_def)
  from every_answer_is_earned [OF demo_live_settings_valid demo_app_build r c(3,2) q] demo_key(3)
  show ?thesis unfolding us using r q(2) by auto
qed

theorem observer_is_exact_witness:
  "\<exists>s. system_reach demo_serde demo_app s \<and> length (ended_runs s) = 1 \<and>
     snapshot_of (sys_observer s) (UpstreamId ''c'') = None"
proof -
  obtain s where s: "system_exec demo_serde demo_schedule (system_start demo_app) = Some s"
    and t: "told s = [Record (UpstreamId ''a'') \<lparr>rec_duration = 3, rec_outcome = Inr 200\<rparr>,
      Request (method_label demo_serde ''{eth_call'') True 1 3, Coalesced]"
    using demo_live by blast
  have r: "system_reach demo_serde demo_app s" by (rule system_exec_reach [OF s system_begin])
  have n: "UpstreamId ''c'' \<notin> UpstreamId ` us_label ` set (upstreams demo_live_settings)"
    by (simp add: demo_live_settings_def demo_settings_def)
  from observer_is_exact [OF demo_live_settings_valid demo_app_build r] n
  have "requests_in (told s) = length (ended_runs s)" "snapshot_of (sys_observer s) (UpstreamId ''c'') = None"
    by auto
  with r show ?thesis by (auto simp: t requests_in_def)
qed

text \<open>The same settings with a ranking decider, which is due for a refresh from the start.\<close>

lemma demo_ranked:
  "\<exists>a. app_build \<lparr>header_value = (\<lambda>_. True), parse_uri = (\<lambda>_. None)\<rparr> (\<lambda>_. Some 8080) (\<lambda>_. True)
     demo_settings = Inr a \<and> (\<nexists>r. pl_decider (app_pipeline a) = DynRoundRobin r)"
  by (simp add: app_build_def demo_settings_def build_all_def build_one_def
      new_upstream_def Let_def blank_def trim_def ws_scalars_def trim_with.simps build_decider_def ll_new_def
      app_new_def pipeline_new_def cors_layer_of_def WILDCARD_ORIGIN_def WINDOW_DEFAULT_def snapshot_of_def new_observer_def
      from_secs_def from_millis_def)

lemma demo_settings_valid:
  "validate_settings \<lparr>header_value = (\<lambda>_. True), parse_uri = (\<lambda>_. None)\<rparr> demo_settings = Inr ()"
  by (simp add: validate_settings_def demo_settings_def validate_cors_def
      WILDCARD_ORIGIN_def contains_def blank_def trim_def ws_scalars_def trim_with.simps)

theorem pool_is_safe_witness:
  "\<exists>a s. system_step demo_serde (Refreshes (app_observer a)) (system_start a) = Some s \<and>
     mset (map uid (dyn_pool (pl_decider (app_pipeline a)))) = {#UpstreamId ''a'', UpstreamId ''b''#}"
proof -
  obtain a where a: "app_build \<lparr>header_value = (\<lambda>_. True), parse_uri = (\<lambda>_. None)\<rparr> (\<lambda>_. Some 8080) (\<lambda>_. True)
      demo_settings = Inr a" "\<nexists>r. pl_decider (app_pipeline a) = DynRoundRobin r"
    using demo_ranked by blast
  have "may_see (app_observer a) (sys_observer (system_start a))" by (simp add: may_see_def system_start_def)
  with pool_is_safe [where sj = demo_serde and seen = "app_observer a", OF demo_settings_valid a(1) system_begin] a(2) show ?thesis
    by (auto simp: demo_settings_def system_start_def simp del: system_step.simps)
qed

end
