(* ===== verification/Potential.thy ===== *)
theory Potential
  imports Prelude
begin

text \<open>
  Bounding schedules by a potential. A step machine whose every step is paid for, by what is left to do
  in its state or by the event itself, takes no more steps than its events bring; the machines of the
  runs (theory \<open>Progress\<close>) and of the whole application (theory \<open>Liveness\<close>) interpret the locale.
\<close>

fun steps :: "('e \<Rightarrow> 's \<Rightarrow> 's option) \<Rightarrow> 'e list \<Rightarrow> 's \<Rightarrow> 's option" where
  "steps step [] s = Some s"
| "steps step (ev # evs) s = Option.bind (step ev s) (steps step evs)"

text \<open>
  \<open>reach\<close> holds of the states considered and \<open>fits\<close> of those within the bounds of the machine: a step
  keeps the first, and out of bounds there is no way back into them. \<open>cost\<close> is what an event takes from
  the work of the state, \<open>credit\<close> what it may add.
\<close>

locale paid_steps =
  fixes step :: "'e \<Rightarrow> 's \<Rightarrow> 's option"
    and reach :: "'s \<Rightarrow> bool" and fits :: "'s \<Rightarrow> bool"
    and work :: "'s \<Rightarrow> nat" and cost :: "'e \<Rightarrow> nat" and credit :: "'e \<Rightarrow> nat"
  assumes keeps: "reach s \<Longrightarrow> step ev s = Some s' \<Longrightarrow> reach s'"
    and stays_out: "step ev s = Some s' \<Longrightarrow> fits s' \<Longrightarrow> fits s"
    and paid: "reach s \<Longrightarrow> fits s \<Longrightarrow> step ev s = Some s' \<Longrightarrow> fits s' \<Longrightarrow> work s' + cost ev \<le> work s + credit ev"
begin

lemma steps_fit: "steps step evs s = Some s' \<Longrightarrow> fits s' \<Longrightarrow> fits s"
  by (induction evs arbitrary: s) (auto simp: bind_eq_Some_conv dest: stays_out)

lemma steps_paid:
  "steps step evs s = Some s' \<Longrightarrow> reach s \<Longrightarrow> fits s' \<Longrightarrow>
   work s' + sum_list (map cost evs) \<le> work s + sum_list (map credit evs)"
proof (induction evs arbitrary: s)
  case (Cons ev evs)
  then obtain s1 where s1: "step ev s = Some s1" "steps step evs s1 = Some s'" by (auto simp: bind_eq_Some_conv)
  have "fits s1" by (rule steps_fit [OF s1(2) Cons.prems(3)])
  with paid [OF Cons.prems(2) stays_out s1(1)] Cons.IH [OF s1(2) keeps [OF Cons.prems(2) s1(1)] Cons.prems(3)] s1(1)
  show ?case by fastforce
qed simp

end

end
