(* ===== verification/Progress.thy ===== *)
theory Progress
  imports Earned Potential
begin

text \<open>
  Runs end, and nobody is left behind. A run has a bounded number of steps, whatever the schedule and
  the network, and a run that has not ended can always go on; so in every state of the application a
  client that is waiting, or running on its own, can be brought to its answer by steps of runs alone.
\<close>

subsection \<open>What a run has left to do\<close>

fun run_work :: "core \<Rightarrow> upstream list \<Rightarrow> running \<Rightarrow> nat" where
  "run_work c chain (Walking s) =
     (case wk_phase s of
        Pausing u b \<Rightarrow> 2 * (race_limit chain (max_attempt c) - length (wk_tried s))
      | Calling u a \<Rightarrow> 2 * (race_limit chain (max_attempt c) - length (wk_tried s)) + 1
      | WalkDone r \<Rightarrow> 0)"
| "run_work c chain (Racing s) = work chain (max_attempt c) s"
| "run_work c chain (Sending s) = (case sd_phase s of SendCalling u a \<Rightarrow> 1 | SendDone fin \<Rightarrow> 0)"

lemma walk_head_work:
  "wk_tried s \<noteq> [] \<Longrightarrow>
   run_work c chain (Walking (walk_head c s)) \<le> 2 * (race_limit chain (max_attempt c) - length (wk_tried s))"
  by (auto simp: walk_head_def split: list.split)

lemma walk_step_work:
  assumes ok: "walk_ok c chain s" and step: "walk_step sj c ev s = Some s'"
  shows "run_work c chain (Walking s') < run_work c chain (Walking s)"
proof (cases ev)
  case (Woke t)
  with step obtain u b where ph: "wk_phase s = Pausing u b" and s': "s' = walk_call u (s\<lparr>wk_now := t\<rparr>)"
    by (auto split: walk_phase.splits if_splits)
  from ok ph have "length (wk_tried s) < race_limit chain (max_attempt c)"
    by (auto simp: walk_ok_def Let_def race_limit_def)
  with ph show ?thesis by (simp add: s' walk_call_def)
next
  case (Returned sent t)
  with step obtain u a where ph: "wk_phase s = Calling u a" by (auto split: walk_phase.splits)
  with ok have ne: "wk_tried s \<noteq> []" by (auto simp: walk_ok_def Let_def)
  obtain r calls where f: "try_finish sj u sent t a = (r, calls)" by fastforce
  let ?s = "\<lambda>e. s\<lparr>wk_now := t, wk_log := wk_log s @ calls, wk_failure := Some e\<rparr>"
  have "run_work c chain (Walking (walk_head c (?s e))) < run_work c chain (Walking s)" for e
    using walk_head_work [of "?s e" c chain] ne ph by simp
  with Returned step ph f show ?thesis
    by (auto simp: Let_def split: if_splits sum.splits simp del: run_work.simps) (simp_all add: ph)
qed

lemma run_step_work:
  assumes "run_ok c chain s" "run_step sj c chain ev s = Some s'"
  shows "run_work c chain s' < run_work c chain s"
proof (cases "(sj, c, chain, ev, s)" rule: run_step.cases)
  case (1 sj c chain ev s)
  with assms show ?thesis using walk_step_work by (auto simp del: run_work.simps)
next
  case (2 sj c chain ev s)
  with assms show ?thesis using work_step by auto
next
  case (3 sj c chain sent t s)
  with assms show ?thesis
    by (auto simp: send_step_def Let_def split: send_phase.splits if_splits prod.splits)
qed (use assms in auto)

lemma run_begin_work:
  assumes "0 < max_attempt c"
  shows "run_work c chain (run_begin c m chain t) \<le> 3 * race_limit chain (max_attempt c)"
proof -
  have "Suc (2 * (k - Suc 0)) \<le> 3 * k" if "0 < k" for k using that by (cases k) simp_all
  from this [of "min (length chain) (max_attempt c)"] show ?thesis
    using assms work_start [of chain "max_attempt c" t]
    by (cases chain)
      (auto simp: run_begin_def walk_begin_def walk_head_def walk_call_def send_begin_def race_limit_def
        split: dispatch.split bool.split)
qed

text \<open>Every step of a run takes some of its work, and nothing adds to it.\<close>

lemma run_exec_steps: "run_exec sj c chain evs s = steps (run_step sj c chain) evs s"
proof (induction evs arbitrary: s)
  case (Cons ev evs)
  then show ?case by (cases "run_step sj c chain ev s") simp_all
qed simp

interpretation run_paid: paid_steps "run_step sj c chain" "run_ok c chain" "\<lambda>_. True" "run_work c chain"
    "\<lambda>_. 1" "\<lambda>_. 0" for sj c chain
  by unfold_locales (use run_step_ok run_step_work in \<open>auto simp: Suc_le_eq\<close>)

lemma run_exec_work:
  "run_ok c chain s \<Longrightarrow> run_exec sj c chain evs s = Some s' \<Longrightarrow> length evs + run_work c chain s' \<le> run_work c chain s"
  using run_paid.steps_paid [of sj c chain evs s s'] by (simp add: run_exec_steps sum_list_triv)

abbreviation no_answer :: sent where
  "no_answer \<equiv> Inl \<lparr>re_display = [], re_sources = []\<rparr>"

text \<open>A run that has not ended can go on: a pause is over, a call can be polled or returns.\<close>

lemma run_can_step:
  assumes ok: "run_ok c chain s" and unfinished: "run_finished chain s = None"
  shows "\<exists>ev s'. run_step sj c chain ev s = Some s'"
proof (cases s)
  case (Walking r)
  show ?thesis
  proof (cases "wk_phase r")
    case (Pausing u b)
    then have "walk_step sj c (Woke (b + retry_after c)) r \<noteq> None" by simp
    then have "run_step sj c chain (WalkEvent (Woke (b + retry_after c))) s \<noteq> None" by (simp add: Walking)
    then show ?thesis by blast
  next
    case (Calling u a)
    then have "walk_step sj c (Returned no_answer (wk_now r)) r \<noteq> None" by (simp add: Let_def split_beta)
    then have "run_step sj c chain (WalkEvent (Returned no_answer (wk_now r))) s \<noteq> None" by (simp add: Walking)
    then show ?thesis by blast
  qed (use unfinished Walking in \<open>simp add: walk_finished_def\<close>)
next
  case (Racing r)
  with ok unfinished have ne: "inflight r \<noteq> []" "outcome r = None"
    by (auto simp: race_ok_def done_inv_def)
  have "\<exists>ev. race_step sj chain (max_attempt c) ev r \<noteq> None"
  proof (cases "lane_attempt (inflight r ! 0)")
    case None
    with ne show ?thesis by (intro exI [of _ "Polled 0 (race_now r)"]) (simp add: Let_def)
  next
    case (Some a)
    with ne show ?thesis
      by (intro exI [of _ "race_event.Answered 0 no_answer (race_now r)"]) (simp add: Let_def split_beta)
  qed
  then obtain ev where "run_step sj c chain (RaceEvent ev) s \<noteq> None" by (auto simp: Racing)
  then show ?thesis by blast
next
  case (Sending r)
  with unfinished have "send_step sj no_answer (sd_now r) r \<noteq> None"
    by (auto simp: send_step_def Let_def split_beta split: send_phase.splits)
  then have "run_step sj c chain (SendEvent no_answer (sd_now r)) s \<noteq> None" by (simp add: Sending)
  then show ?thesis by blast
qed

text \<open>
  C9: A run ends: no schedule of a run has more than three steps per upstream it may try, whichever
  dispatch it uses, and a run that has not ended can always take another step. So every schedule that
  goes on as long as it can ends the run.
\<close>

theorem run_ends:
  assumes "run_exec sj c chain evs (run_begin c m chain t) = Some s" "0 < max_attempt c"
  shows "length evs \<le> 3 * min (length chain) (max_attempt c) \<and>
    (run_finished chain s = None \<longrightarrow> (\<exists>ev s'. run_step sj c chain ev s = Some s'))"
proof -
  have ok: "run_ok c chain s" using run_reach_ok [OF run_exec_reach [OF assms(1) run_first]] .
  have "length evs \<le> run_work c chain (run_begin c m chain t)"
    using run_exec_work [OF run_begin_ok assms(1)] by simp
  with run_begin_work [OF assms(2), of chain m t] run_can_step [OF ok] show ?thesis
    by (auto simp: race_limit_def)
qed

lemma run_can_end:
  "run_ok c chain s \<Longrightarrow> \<exists>evs s'. run_exec sj c chain evs s = Some s' \<and> run_finished chain s' \<noteq> None"
proof (induction "run_work c chain s" arbitrary: s rule: less_induct)
  case less
  show ?case
  proof (cases "run_finished chain s")
    case None
    from run_can_step [OF less.prems None] obtain ev s1 where s1: "run_step sj c chain ev s = Some s1" by blast
    from less.hyps [OF run_step_work [OF less.prems s1] run_step_ok [OF less.prems s1]]
    obtain evs s' where "run_exec sj c chain evs s1 = Some s'" "run_finished chain s' \<noteq> None" by blast
    with s1 have "run_exec sj c chain (ev # evs) s = Some s' \<and> run_finished chain s' \<noteq> None" by simp
    then show ?thesis by blast
  next
    case (Some x)
    have "run_exec sj c chain [] s = Some s \<and> run_finished chain s \<noteq> None" by (simp add: Some)
    then show ?thesis by blast
  qed
qed
subsection \<open>Runs of the application end\<close>

text \<open>The steps of runs, and the taking of a reply.\<close>

fun goes_on :: "system_event \<Rightarrow> bool" where
  "goes_on (RunBegins ow r rcv t) = True"
| "goes_on (RunSteps ow ev) = True"
| "goes_on (RunEnds ow) = True"
| "goes_on (TakesReply i) = True"
| "goes_on _ = False"

definition leads_to :: "serde \<Rightarrow> system \<Rightarrow> system \<Rightarrow> bool" where
  "leads_to sj s s' \<longleftrightarrow> (\<exists>evs. list_all goes_on evs \<and> system_exec sj evs s = Some s')"

lemma leads_to_refl: "leads_to sj s s"
  unfolding leads_to_def by (intro exI [of _ "[]"]) simp

lemma leads_to_trans: "leads_to sj s s1 \<Longrightarrow> leads_to sj s1 s2 \<Longrightarrow> leads_to sj s s2"
proof (unfold leads_to_def, elim exE conjE)
  fix xs ys
  assume "list_all goes_on xs" "system_exec sj xs s = Some s1" "list_all goes_on ys" "system_exec sj ys s1 = Some s2"
  then show "\<exists>evs. list_all goes_on evs \<and> system_exec sj evs s = Some s2"
    by (intro exI [of _ "xs @ ys"]) (simp add: system_exec_append)
qed

lemma leads_to_step: "goes_on ev \<Longrightarrow> system_step sj ev s = Some s' \<Longrightarrow> leads_to sj s s'"
  unfolding leads_to_def by (intro exI [of _ "[ev]"]) simp

lemma leads_to_reach: "leads_to sj s s' \<Longrightarrow> system_reach sj a s \<Longrightarrow> system_reach sj a s'"
  unfolding leads_to_def using system_exec_reach by blast

text \<open>An owner's run, begun if it had not, and driven along a schedule of its own.\<close>

lemma owner_begins:
  assumes "may_begin ow (sys_service s)"
  shows "\<exists>s' ac. leads_to sj s s' \<and> run_of ow s' = Some ac \<and> sys_service s' = sys_service s"
proof (cases "run_of ow s")
  case None
  let ?ev = "RunBegins ow (dyn_pool (sys_decider s)) 0 0"
  have "\<exists>s' ac. system_step sj ?ev s = Some s' \<and> run_of ow s' = Some ac \<and>
      sys_service s' = sys_service s"
    using assms None by (simp add: Let_def may_load_def del: may_begin.simps)
  then show ?thesis using leads_to_step [of ?ev] goes_on.simps(1) by blast
next
  case (Some ac)
  then show ?thesis using leads_to_refl by blast
qed

lemma owner_runs:
  assumes "run_of ow s = Some ac" "run_exec sj (sys_core s) (ac_chain ac) revs (ac_run ac) = Some r"
  shows "\<exists>s'. leads_to sj s s' \<and> run_of ow s' = Some (ac\<lparr>ac_run := r\<rparr>) \<and> sys_service s' = sys_service s"
  using assms
proof (induction revs arbitrary: s ac)
  case Nil
  then show ?case using leads_to_refl by (intro exI [of _ s]) simp
next
  case (Cons ev revs)
  then obtain r1 where r1: "run_step sj (sys_core s) (ac_chain ac) ev (ac_run ac) = Some r1"
    "run_exec sj (sys_core s) (ac_chain ac) revs r1 = Some r" by (auto simp: bind_eq_Some_conv)
  let ?s = "tell (drop (length (run_log (ac_run ac))) (run_log r1)) (set_run ow (Some (ac\<lparr>ac_run := r1\<rparr>)) s)"
  have step: "system_step sj (RunSteps ow ev) s = Some ?s" using Cons.prems(1) r1(1) by simp
  have "run_of ow ?s = Some (ac\<lparr>ac_run := r1\<rparr>)" by simp
  from Cons.IH [OF this] r1(2) obtain s' where "leads_to sj ?s s'" "run_of ow s' = Some (ac\<lparr>ac_run := r\<rparr>)"
    "sys_service s' = sys_service s" by auto
  with leads_to_trans [OF leads_to_step [OF _ step]] show ?case by fastforce
qed

lemma owner_reply: "may_begin ow sv \<Longrightarrow> service_step sj (reply_event ow reply) sv \<noteq> None"
  by (cases ow) (auto simp: with_flights_def split: option.splits)

lemma owner_ends:
  assumes reach: "system_reach sj a s" and app: "app_ok a" and own: "may_begin ow (sys_service s)"
  shows "\<exists>s' reply. leads_to sj s s' \<and> service_step sj (reply_event ow reply) (sys_service s) = Some (sys_service s')"
proof -
  from owner_begins [OF own] obtain s1 ac where s1: "leads_to sj s s1" "run_of ow s1 = Some ac"
    "sys_service s1 = sys_service s" by blast
  from system_reach_ok [OF leads_to_reach [OF s1(1) reach] app] have ok: "sys_ok sj a s1" by blast
  then have "run_good sj a (ac_body ac) (ac_chain ac) (ac_run ac)" using s1(2) by (rule sys_ok_run)
  moreover have core: "sys_core s1 = pl_core (app_pipeline a)" using ok by (simp add: sys_ok_def)
  ultimately have "run_ok (sys_core s1) (ac_chain ac) (ac_run ac)" using run_reach_ok by (auto simp: run_good_def)
  from run_can_end [OF this] obtain revs r where r: "run_exec sj (sys_core s1) (ac_chain ac) revs (ac_run ac) = Some r"
    "run_finished (ac_chain ac) r \<noteq> None" by blast
  from owner_runs [OF s1(2) r(1)] obtain s2 where s2: "leads_to sj s1 s2"
    "run_of ow s2 = Some (ac\<lparr>ac_run := r\<rparr>)" "sys_service s2 = sys_service s" using s1(3) by auto
  from r(2) obtain reply calls where
    e: "run_ended sj (ac_chain ac) (method_label sj (ac_body ac)) (ac_received ac) r = Some (reply, calls)"
    by (auto simp: run_ended_def)
  from owner_reply [OF own] obtain sv where sv: "service_step sj (reply_event ow reply) (sys_service s) = Some sv"
    by blast
  with s2 e have "\<exists>s3. system_step sj (RunEnds ow) s2 = Some s3 \<and> sys_service s3 = sv" by simp
  then obtain s3 where "system_step sj (RunEnds ow) s2 = Some s3" "sys_service s3 = sv" by blast
  with sv s1(1) s2(1) show ?thesis
    using leads_to_step [of "RunEnds ow"] leads_to_trans goes_on.simps(3) by metis
qed

subsection \<open>Everybody can be answered\<close>

definition can_be_answered :: "serde \<Rightarrow> nat \<Rightarrow> system \<Rightarrow> bool" where
  "can_be_answered sj i s \<longleftrightarrow>
     (\<exists>s' resp. leads_to sj s s' \<and> i < length (clients (sys_service s')) \<and>
        req_stage (clients (sys_service s') ! i) = Replied resp)"

lemma can_be_answered_later: "leads_to sj s s1 \<Longrightarrow> can_be_answered sj i s1 \<Longrightarrow> can_be_answered sj i s"
  unfolding can_be_answered_def using leads_to_trans by blast

lemma alone_answered:
  assumes "system_reach sj a s" "app_ok a" "alone i (sys_service s)"
  shows "can_be_answered sj i s"
proof -
  have "may_begin (OfClient i) (sys_service s)" using assms(3) by (simp only: may_begin_iff)
  from owner_ends [OF assms(1,2) this] obtain s' reply where s': "leads_to sj s s'"
    "service_step sj (AloneEnds i reply) (sys_service s) = Some (sys_service s')" by auto
  then have "sys_service s' = set_stage i (Replied (reply_into_response reply)) (sys_service s)"
    "i < length (clients (sys_service s))" by (auto split: if_splits)
  then have "i < length (clients (sys_service s')) \<and>
      req_stage (clients (sys_service s') ! i) = Replied (reply_into_response reply)" by simp
  with s'(1) show ?thesis unfolding can_be_answered_def by blast
qed

lemma finished_answered:
  assumes reach: "system_reach sj a s" and app: "app_ok a"
    and i: "i < length (clients (sys_service s))" "req_stage (clients (sys_service s) ! i) = Waiting h r"
    and step: "service_step sj (Takes i) (sys_service s) \<noteq> None"
  shows "can_be_answered sj i s"
proof -
  from step obtain sv where sv: "service_step sj (Takes i) (sys_service s) = Some sv" by blast
  then obtain s1 where s1: "system_step sj (TakesReply i) s = Some s1" "sys_service s1 = sv"
    by (simp del: service_step.simps)
  have to: "leads_to sj s s1" by (rule leads_to_step [OF _ s1(1)]) simp
  from takes_step [OF sv] i(1) obtain st where st: "clients sv = (clients (sys_service s))[i :=
      (clients (sys_service s) ! i)\<lparr>req_stage := st\<rparr>]" "st = Alone \<or> (\<exists>x. st = Replied x)"
    by (auto split: option.splits)
  show ?thesis
  proof (cases "st = Alone")
    case True
    with st(1) i(1) s1(2) have "alone i (sys_service s1)" by (simp add: alone_def)
    from alone_answered [OF leads_to_reach [OF to reach] app this] to show ?thesis
      using can_be_answered_later by blast
  next
    case False
    with st i(1) s1(2) to show ?thesis unfolding can_be_answered_def by (intro exI [of _ s1]) auto
  qed
qed

lemma flight_ends:
  assumes "service_step sj (FlightEnds h reply) sv = Some sv'" "shared sv = Some sf"
    "0 < fl_holders (flights sf ! h)"
  shows "clients sv' = clients sv \<and> (\<exists>sf'. shared sv' = Some sf' \<and> h < length (flights sf') \<and>
    fl_phase (flights sf' ! h) = Finished reply \<and> 0 < fl_holders (flights sf' ! h))"
  using assms by (auto simp: with_flights_def split: if_splits)

lemma running_answered:
  assumes reach: "system_reach sj a s" and app: "app_ok a" and sf: "shared (sys_service s) = Some sf"
    and i: "i < length (clients (sys_service s))" "req_stage (clients (sys_service s) ! i) = Waiting h r"
    and h: "h < length (flights sf)" "0 < fl_holders (flights sf ! h)" "fl_phase (flights sf ! h) = Running"
  shows "can_be_answered sj i s"
proof -
  from h sf have "may_begin (OfFlight h) (sys_service s)" by simp
  from owner_ends [OF reach app this] obtain s1 reply where s1: "leads_to sj s s1"
    "service_step sj (FlightEnds h reply) (sys_service s) = Some (sys_service s1)" by auto
  from flight_ends [OF s1(2) sf h(2)] i
  have "service_step sj (Takes i) (sys_service s1) \<noteq> None" "i < length (clients (sys_service s1))"
    "req_stage (clients (sys_service s1) ! i) = Waiting h r"
    by (auto simp: with_flights_def split_beta)
  from finished_answered [OF leads_to_reach [OF s1(1) reach] app this(2,3,1)] s1(1)
  show ?thesis using can_be_answered_later by blast
qed

lemma pending_answered:
  assumes reach: "system_reach sj a s" and app: "app_ok a" and n: "length (flights_of (sys_service s)) \<le> 2 ^ 64"
    and i: "i < length (clients (sys_service s))"
    and pend: "case req_stage (clients (sys_service s) ! i) of Alone \<Rightarrow> True | Waiting h r \<Rightarrow> True | _ \<Rightarrow> False"
  shows "can_be_answered sj i s"
proof (cases "req_stage (clients (sys_service s) ! i)")
  case Alone
  with i have "alone i (sys_service s)" by (simp add: alone_def)
  then show ?thesis by (rule alone_answered [OF reach app])
next
  case (Waiting h r)
  from system_service_reach [OF reach] app
  have sr: "service_reach sj (pl_flights (app_pipeline a) \<noteq> None) (sys_service s)" by (simp add: app_ok_def)
  obtain sf where sf: "shared (sys_service s) = Some sf"
    using system_reach_inv [OF reach app n] i Waiting
    by (cases "shared (sys_service s)") (auto simp: service_inv_def dest!: nth_mem)
  then have nf: "length (flights sf) \<le> 2 ^ 64" using n by (simp add: flights_of_def)
  note w = waiting_facts [OF sr sf nf i Waiting]
  show ?thesis
  proof (cases "fl_phase (flights sf ! h)")
    case (Finished reply)
    have "service_step sj (Takes i) (sys_service s) \<noteq> None"
      using i Waiting sf w Finished by (simp add: with_flights_def split_beta)
    then show ?thesis by (rule finished_answered [OF reach app i Waiting])
  next
    case Running
    from running_answered [OF reach app sf i Waiting w(1,2) Running] show ?thesis .
  next
    case Freed
    with w show ?thesis by simp
  qed
qed (use pend in simp_all)

text \<open>
  Nobody is left behind: in every state the application built from validated settings can reach,
  a client that waits for a flight or runs on its own can be answered, by steps of runs and the taking
  of replies alone: whoever else has hung up, no other client has to do anything for it.
\<close>

theorem everyone_can_be_answered:
  assumes "validate_settings hp st = Inr ()" "app_build hp bind hc st = Inr a"
    and "system_reach sj a s" "length (flights_of (sys_service s)) \<le> 2 ^ 64"
    and "i < length (clients (sys_service s))"
    and "case req_stage (clients (sys_service s) ! i) of Alone \<Rightarrow> True | Waiting h r \<Rightarrow> True | _ \<Rightarrow> False"
  shows "\<exists>evs s' resp. list_all goes_on evs \<and> system_exec sj evs s = Some s' \<and>
    i < length (clients (sys_service s')) \<and> req_stage (clients (sys_service s') ! i) = Replied resp"
proof -
  note app = app_build_ok(1) [OF assms(2,1)]
  have "can_be_answered sj i s" by (rule pending_answered [OF assms(3) app assms(4-6)])
  then show ?thesis by (auto simp: can_be_answered_def leads_to_def)
qed

subsection \<open>Concrete runs\<close>

theorem run_ends_witness: "length [WalkEvent (Returned demo_down 5), WalkEvent (Woke 15)] \<le> 3 * min (length demo_chain) 2"
proof -
  have "0 < max_attempt demo_core" by (simp add: demo_core_fields)
  from run_ends [OF demo_half_walk this] show ?thesis by (simp only: demo_core_fields)
qed

text \<open>The leader's client hangs up before the run has begun; the follower waits.\<close>

lemma demo_waiting:
  "\<exists>s. system_exec demo_serde [Arrives 1 ''{eth_call'', Arrives 2 ''{eth_call'', HangsUp 0 0]
      (system_start demo_app) = Some s \<and>
    length (flights_of (sys_service s)) = 1 \<and> length (clients (sys_service s)) = 2 \<and>
    req_stage (clients (sys_service s) ! 1) = Waiting 0 (Follower 1)"
  by (simp add: live_eval flights_of_def)

theorem everyone_can_be_answered_witness:
  "\<exists>evs s resp. system_exec demo_serde (Arrives 1 ''{eth_call'' # Arrives 2 ''{eth_call'' # HangsUp 0 0 # evs)
      (system_start demo_app) = Some s \<and> req_stage (clients (sys_service s) ! 1) = Replied resp"
proof -
  obtain s where s: "system_exec demo_serde [Arrives 1 ''{eth_call'', Arrives 2 ''{eth_call'', HangsUp 0 0]
      (system_start demo_app) = Some s"
    and c: "length (flights_of (sys_service s)) = 1" "length (clients (sys_service s)) = 2"
      "req_stage (clients (sys_service s) ! 1) = Waiting 0 (Follower 1)"
    using demo_waiting by blast
  have r: "system_reach demo_serde demo_app s" by (rule system_exec_reach [OF s system_begin])
  from everyone_can_be_answered [OF demo_live_settings_valid demo_app_build r, of 1] c
  obtain evs s' resp where "system_exec demo_serde evs s = Some s'"
    "req_stage (clients (sys_service s') ! 1) = Replied resp" by auto
  then show ?thesis using s
    system_exec_append [of demo_serde "[Arrives 1 ''{eth_call'', Arrives 2 ''{eth_call'', HangsUp 0 0]" evs]
    by (intro exI [of _ evs] exI [of _ s'] exI [of _ resp]) (simp del: system_exec.simps system_step.simps)
qed
subsection \<open>Everybody together\<close>

definition pending :: "stage \<Rightarrow> bool" where
  "pending st \<longleftrightarrow> (case st of Alone \<Rightarrow> True | Waiting h r \<Rightarrow> True | _ \<Rightarrow> False)"

definition pending_clients :: "service \<Rightarrow> nat set" where
  "pending_clients sv = {i. i < length (clients sv) \<and> pending (req_stage (clients sv ! i))}"

lemma takes_length: "service_step sj (Takes i) sv = Some sv' \<Longrightarrow> length (clients sv') = length (clients sv)"
  by (drule takes_step) auto

lemma alone_ends:
  "service_step sj (AloneEnds i a) sv = Some sv' \<Longrightarrow>
   length (clients sv') = length (clients sv) \<and> req_stage (clients sv ! i) = Alone"
  by (auto split: if_splits)

lemma goes_on_settled:
  assumes "goes_on ev" "system_step sj ev s = Some s'"
  shows "pending_clients (sys_service s') \<subseteq> pending_clients (sys_service s)"
proof -
  have keep: "pending_clients sv' \<subseteq> pending_clients (sys_service s)"
    if st: "service_step sj sev (sys_service s) = Some sv'" and len: "length (clients sv') = length (clients (sys_service s))"
      and ev: "\<And>i. sev = Takes i \<or> (\<exists>a. sev = AloneEnds i a) \<Longrightarrow> pending (req_stage (clients (sys_service s) ! i))"
        "\<And>i. sev \<noteq> Leaves i" for sev sv'
    using service_clients(3) [OF st] len ev by (fastforce simp: pending_clients_def)
  show ?thesis
  proof (cases ev)
    case (RunEnds ow)
    with system_service_step [OF assms(2)] obtain reply where
      st: "service_step sj (reply_event ow reply) (sys_service s) = Some (sys_service s')" by auto
    show ?thesis
    proof (cases ow)
      case (OfFlight h)
      with st keep [OF st] show ?thesis by (auto simp: with_flights_Some simp del: sf_step.simps)
    next
      case (OfClient i)
      with st alone_ends [of sj i reply] have "length (clients (sys_service s')) = length (clients (sys_service s))"
        "pending (req_stage (clients (sys_service s) ! i))" by (auto simp: pending_def simp del: service_step.simps)
      with keep [OF st] OfClient show ?thesis by auto
    qed
  next
    case (TakesReply i)
    with system_service_step [OF assms(2)] have st: "service_step sj (Takes i) (sys_service s) = Some (sys_service s')"
      by (simp del: service_step.simps)
    from takes_step [OF st] have "pending (req_stage (clients (sys_service s) ! i))" by (auto simp: pending_def)
    then show ?thesis using keep [OF st takes_length [OF st]] by auto
  qed (use assms system_service_step [OF assms(2)] in simp_all)
qed

lemma leads_to_settled:
  assumes "leads_to sj s s'"
  shows "pending_clients (sys_service s') \<subseteq> pending_clients (sys_service s)"
proof -
  have "list_all goes_on evs \<Longrightarrow> system_exec sj evs s = Some s' \<Longrightarrow> ?thesis" for evs
  proof (induction evs arbitrary: s)
    case (Cons ev evs)
    then obtain s1 where s1: "goes_on ev" "system_step sj ev s = Some s1" "list_all goes_on evs"
      "system_exec sj evs s1 = Some s'" by (auto simp: bind_eq_Some_conv simp del: system_step.simps)
    from Cons.IH [OF s1(3,4)] goes_on_settled [OF s1(1,2)] show ?case by (rule subset_trans)
  qed simp
  with assms show ?thesis by (auto simp: leads_to_def)
qed

lemma goes_on_flights:
  assumes "goes_on ev" "system_step sj ev s = Some s'"
  shows "length (flights_of (sys_service s')) = length (flights_of (sys_service s))"
proof (cases ev)
  case (RunEnds ow)
  with system_service_step [OF assms(2)] obtain reply where
    st: "service_step sj (reply_event ow reply) (sys_service s) = Some (sys_service s')" by auto
  from service_step_frame [OF st] show ?thesis using reply_event_not(4) by metis
next
  case (TakesReply i)
  with system_service_step [OF assms(2)] have st: "service_step sj (Takes i) (sys_service s) = Some (sys_service s')"
    by (simp del: service_step.simps)
  from service_step_frame [OF st] show ?thesis by simp
qed (use assms system_service_step [OF assms(2)] in simp_all)

lemma leads_to_flights:
  assumes "leads_to sj s s'"
  shows "length (flights_of (sys_service s')) = length (flights_of (sys_service s))"
proof -
  have "list_all goes_on evs \<Longrightarrow> system_exec sj evs s = Some s' \<Longrightarrow> ?thesis" for evs
  proof (induction evs arbitrary: s)
    case (Cons ev evs)
    then obtain s1 where s1: "goes_on ev" "system_step sj ev s = Some s1" "list_all goes_on evs"
      "system_exec sj evs s1 = Some s'" by (auto simp: bind_eq_Some_conv simp del: system_step.simps)
    from Cons.IH [OF s1(3,4)] goes_on_flights [OF s1(1,2)] show ?case by simp
  qed simp
  with assms show ?thesis by (auto simp: leads_to_def)
qed
text \<open>A run is there for somebody: once nobody waits, none is left.\<close>

lemma no_runs_left:
  assumes inv: "service_inv sj (sys_service s)" and own: "runs_owned s" and none: "pending_clients (sys_service s) = {}"
  shows "run_of ow s = None"
proof (rule ccontr)
  assume "run_of ow s \<noteq> None"
  with own have may: "may_begin ow (sys_service s)" by (auto simp: runs_owned_def)
  show False
  proof (cases ow)
    case (OfClient i)
    with may none show False by (auto simp: pending_clients_def pending_def)
  next
    case (OfFlight h)
    with may obtain sf where sf: "shared (sys_service s) = Some sf" "h < length (flights sf)"
      "0 < fl_holders (flights sf ! h)" by (auto split: option.splits)
    with inv have "fl_holders (flights sf ! h) = waiting_on h (clients (sys_service s))"
      by (simp add: service_inv_def shared_inv_def flight_ok_def)
    with sf(3) have "filter (\<lambda>q. waits h (req_stage q)) (clients (sys_service s)) \<noteq> []"
      by (auto simp: waiting_on_def)
    then obtain q where "q \<in> set (clients (sys_service s))" "waits h (req_stage q)"
      by (auto simp: filter_empty_conv)
    then obtain i where "i < length (clients (sys_service s))" "waits h (req_stage (clients (sys_service s) ! i))"
      by (auto simp: in_set_conv_nth)
    then have "i \<in> pending_clients (sys_service s)"
      by (auto simp: pending_clients_def pending_def elim: waits.elims)
    with none show False by simp
  qed
qed

lemma can_drain:
  assumes reach: "system_reach sj a s" and app: "app_ok a" and n: "length (flights_of (sys_service s)) \<le> 2 ^ 64"
  shows "\<exists>s'. leads_to sj s s' \<and> pending_clients (sys_service s') = {}"
  using reach n
proof (induction "card (pending_clients (sys_service s))" arbitrary: s rule: less_induct)
  case less
  show ?case
  proof (cases "pending_clients (sys_service s) = {}")
    case True
    then show ?thesis using leads_to_refl by blast
  next
    case False
    then obtain i where i: "i \<in> pending_clients (sys_service s)" by blast
    then have "can_be_answered sj i s"
      by (intro pending_answered [OF less.prems(1) app less.prems(2)])
        (simp_all add: pending_clients_def pending_def)
    then obtain s1 resp where s1: "leads_to sj s s1" "req_stage (clients (sys_service s1) ! i) = Replied resp"
      by (auto simp: can_be_answered_def)
    from s1(2) have "i \<notin> pending_clients (sys_service s1)" by (simp add: pending_clients_def pending_def)
    with leads_to_settled [OF s1(1)] i have "pending_clients (sys_service s1) \<subset> pending_clients (sys_service s)" by blast
    moreover have "finite (pending_clients (sys_service s))" by (simp add: pending_clients_def)
    ultimately have "card (pending_clients (sys_service s1)) < card (pending_clients (sys_service s))"
      by (rule psubset_card_mono [rotated])
    from less.hyps [OF this leads_to_reach [OF s1(1) less.prems(1)]] leads_to_flights [OF s1(1)] less.prems(2)
    obtain s' where "leads_to sj s1 s'" "pending_clients (sys_service s') = {}" by auto
    then show ?thesis using leads_to_trans [OF s1(1)] by blast
  qed
qed

text \<open>
  The application drains: from every state the application built from validated settings can
  reach, if nobody else arrives or hangs up, steps of runs and the taking of replies alone lead to a
  state in which every client has its answer or is gone and no run is left.
\<close>

theorem application_can_drain:
  assumes "validate_settings hp st = Inr ()" "app_build hp bind hc st = Inr a"
    and "system_reach sj a s" "length (flights_of (sys_service s)) \<le> 2 ^ 64"
  shows "\<exists>evs s'. list_all goes_on evs \<and> system_exec sj evs s = Some s' \<and>
    pending_clients (sys_service s') = {} \<and> (\<forall>ow. run_of ow s' = None)"
proof -
  note app = app_build_ok(1) [OF assms(2,1)]
  from can_drain [OF assms(3) app assms(4)] obtain s' where
    s': "leads_to sj s s'" "pending_clients (sys_service s') = {}" by blast
  have reach: "system_reach sj a s'" by (rule leads_to_reach [OF s'(1) assms(3)])
  have n: "length (flights_of (sys_service s')) \<le> 2 ^ 64" using leads_to_flights [OF s'(1)] assms(4) by simp
  have "run_of ow s' = None" for ow
    using no_runs_left [OF system_reach_inv [OF reach app n] _ s'(2)] system_reach_earned [OF reach app n]
    by (simp add: sys_earned_def)
  with s' show ?thesis by (auto simp: leads_to_def)
qed

theorem application_can_drain_witness:
  "\<exists>evs s. system_exec demo_serde (Arrives 1 ''{eth_call'' # Arrives 2 ''{eth_call'' # HangsUp 0 0 # evs)
      (system_start demo_app) = Some s \<and> pending_clients (sys_service s) = {}"
proof -
  obtain s where s: "system_exec demo_serde [Arrives 1 ''{eth_call'', Arrives 2 ''{eth_call'', HangsUp 0 0]
      (system_start demo_app) = Some s" and c: "length (flights_of (sys_service s)) \<le> 2 ^ 64"
    using demo_waiting by auto
  have r: "system_reach demo_serde demo_app s" by (rule system_exec_reach [OF s system_begin])
  from application_can_drain [OF demo_live_settings_valid demo_app_build r c]
  obtain evs s' where "system_exec demo_serde evs s = Some s'" "pending_clients (sys_service s') = {}" by blast
  then show ?thesis using s
    system_exec_append [of demo_serde "[Arrives 1 ''{eth_call'', Arrives 2 ''{eth_call'', HangsUp 0 0]" evs]
    by (intro exI [of _ evs] exI [of _ s']) (simp del: system_exec.simps system_step.simps)
qed

end
