(* ===== verification/Loading.thy ===== *)
theory Loading
  imports Config
begin

text \<open>
  \<open>get_settings\<close> of \<open>src/config.rs\<close>: which file is read, the defaults it is laid over, and how the
  merged tree becomes the settings (the derived \<open>Deserialize\<close> of the settings structs, with their
  renamed, aliased and optional fields). The crate \<open>config\<close> merges the sources and reads the leaves of
  the tree: both are arguments. Reading an encoding of settings back gives the settings, in the present
  spelling of the keys and in the old one.
\<close>

subsection \<open>The sources\<close>

datatype config_file = FileFrom bytes | FileNamed bytes

datatype cvalue =
  CNil
| CBool bool
| CInt int
| CStr bytes
| CList "cvalue list"
| CTable "(bytes \<times> cvalue) list"

definition DEFAULT_CONFIG_FILE :: bytes where "DEFAULT_CONFIG_FILE = ''settings.yaml''"
definition CONFIG_PATH_ENV :: bytes where "CONFIG_PATH_ENV = ''RPC_CONFIG_PATH''"

definition config_source :: "environment \<Rightarrow> config_file" where
  "config_source get =
     (case get CONFIG_PATH_ENV of Some path \<Rightarrow> FileFrom path | None \<Rightarrow> FileNamed DEFAULT_CONFIG_FILE)"

definition default_settings :: "(bytes \<times> cvalue) list" where
  "default_settings =
     [(''application.host'', CStr ''127.0.0.1''),
      (''application.proxy.max_attempt'', CInt 3),
      (''application.proxy.retry_after_in_secs'', CInt 1),
      (''application.proxy.rpc_timeout_in_secs'', CInt 3),
      (''application.proxy.max_response_bytes'', CInt (10 * 1024 * 1024)),
      (''application.proxy.hedge.enabled'', CBool False),
      (''application.proxy.hedge.after_in_millis'', CInt 250),
      (''application.proxy.dedup.enabled'', CBool False),
      (''application.cors.allowed_origins'', CList []),
      (''decider'', CStr ''ROUND_ROBIN'')]"

text \<open>The builder: the defaults, set by path, under the source; \<open>None\<close> when the file cannot be read.\<close>

type_synonym config_builder = "(bytes \<times> cvalue) list \<Rightarrow> config_file \<Rightarrow> cvalue option"

subsection \<open>Reading a tree\<close>

text \<open>How the crate reads a leaf as what a field asks for; which variant name an enum gets.\<close>

record readers =
  rd_bool :: "cvalue \<Rightarrow> bool option"
  rd_u64 :: "cvalue \<Rightarrow> u64 option"
  rd_u16 :: "cvalue \<Rightarrow> 16 word option"
  rd_str :: "cvalue \<Rightarrow> bytes option"
  rd_seq :: "cvalue \<Rightarrow> cvalue list option"
  rd_table :: "cvalue \<Rightarrow> (bytes \<times> cvalue) list option"
  rd_nil :: "cvalue \<Rightarrow> bool"
  rd_variant :: "bytes list \<Rightarrow> cvalue \<Rightarrow> bytes option"

text \<open>A field under one of its names: it must be there once; an optional one may be missing or null.\<close>

definition required :: "(cvalue \<Rightarrow> 'a option) \<Rightarrow> bytes list \<Rightarrow> (bytes \<times> cvalue) list \<Rightarrow> 'a option" where
  "required rd names t = (case filter (\<lambda>(k, v). k \<in> set names) t of [(k, v)] \<Rightarrow> rd v | _ \<Rightarrow> None)"

definition optional ::
  "readers \<Rightarrow> (cvalue \<Rightarrow> 'a option) \<Rightarrow> bytes list \<Rightarrow> (bytes \<times> cvalue) list \<Rightarrow> 'a option option" where
  "optional r rd names t =
     (case filter (\<lambda>(k, v). k \<in> set names) t of
        [] \<Rightarrow> Some None
      | [(k, v)] \<Rightarrow> if rd_nil r v then Some None else map_option Some (rd v)
      | _ \<Rightarrow> None)"

fun collect_options :: "'a option list \<Rightarrow> 'a list option" where
  "collect_options [] = Some []"
| "collect_options (None # xs) = None"
| "collect_options (Some x # xs) = map_option (\<lambda>ys. x # ys) (collect_options xs)"

definition de_list :: "readers \<Rightarrow> (cvalue \<Rightarrow> 'a option) \<Rightarrow> cvalue \<Rightarrow> 'a list option" where
  "de_list r rd v = Option.bind (rd_seq r v) (\<lambda>vs. collect_options (map rd vs))"

definition de_hedge :: "readers \<Rightarrow> cvalue \<Rightarrow> hedge_settings option" where
  "de_hedge r v =
     Option.bind (rd_table r v) (\<lambda>t.
     Option.bind (required (rd_bool r) [''enabled''] t) (\<lambda>e.
     Option.bind (required (rd_u64 r) [''after_in_millis''] t) (\<lambda>a.
       Some \<lparr>hedge_enabled = e, after_in_millis = a\<rparr>)))"

definition de_dedup :: "readers \<Rightarrow> cvalue \<Rightarrow> dedup_settings option" where
  "de_dedup r v =
     Option.bind (rd_table r v) (\<lambda>t.
     Option.bind (required (rd_bool r) [''enabled''] t) (\<lambda>e. Some \<lparr>dedup_enabled = e\<rparr>))"

definition de_proxy :: "readers \<Rightarrow> cvalue \<Rightarrow> proxy_settings option" where
  "de_proxy r v =
     Option.bind (rd_table r v) (\<lambda>t.
     Option.bind (required (rd_u64 r) [''max_attempt''] t) (\<lambda>n.
     Option.bind (required (rd_u64 r) [''retry_after_in_secs''] t) (\<lambda>ra.
     Option.bind (required (rd_u64 r) [''rpc_timeout_in_secs''] t) (\<lambda>to.
     Option.bind (required (rd_u64 r) [''max_response_bytes''] t) (\<lambda>mb.
     Option.bind (required (de_hedge r) [''hedge''] t) (\<lambda>h.
     Option.bind (required (de_dedup r) [''dedup''] t) (\<lambda>d.
       Some \<lparr>ps_max_attempt = n, retry_after_in_secs = ra, rpc_timeout_in_secs = to,
             ps_max_response_bytes = mb, ps_hedge = h, ps_dedup = d\<rparr>)))))))"

definition de_cors :: "readers \<Rightarrow> cvalue \<Rightarrow> cors_settings option" where
  "de_cors r v =
     Option.bind (rd_table r v) (\<lambda>t.
     Option.bind (required (de_list r (rd_str r)) [''allowed_origins''] t) (\<lambda>os. Some \<lparr>allowed_origins = os\<rparr>))"

definition de_application :: "readers \<Rightarrow> cvalue \<Rightarrow> application_settings option" where
  "de_application r v =
     Option.bind (rd_table r v) (\<lambda>t.
     Option.bind (required (rd_u16 r) [''port''] t) (\<lambda>po.
     Option.bind (required (rd_str r) [''host''] t) (\<lambda>ho.
     Option.bind (required (de_proxy r) [''proxy''] t) (\<lambda>pr.
     Option.bind (required (de_cors r) [''cors''] t) (\<lambda>co.
       Some \<lparr>port = po, host = ho, proxy = pr, cors = co\<rparr>)))))"

definition de_upstream :: "readers \<Rightarrow> cvalue \<Rightarrow> upstream_settings option" where
  "de_upstream r v =
     Option.bind (rd_table r v) (\<lambda>t.
     Option.bind (required (rd_str r) [''label''] t) (\<lambda>l.
     Option.bind (required (rd_str r) [''url'', ''rpc_url''] t) (\<lambda>u.
     Option.bind (optional r (rd_u64 r) [''hedge_after_in_millis''] t) (\<lambda>h.
       Some \<lparr>us_label = l, us_url = u, hedge_after_in_millis = h\<rparr>))))"

definition kind_names :: "bytes list" where
  "kind_names = [''ROUND_ROBIN'', ''PREFER_LEAST_ERRORS'', ''LEAST_LATENCY'']"

definition de_kind :: "readers \<Rightarrow> cvalue \<Rightarrow> decider_kind option" where
  "de_kind r v =
     (case rd_variant r kind_names v of
        None \<Rightarrow> None
      | Some name \<Rightarrow>
          if name = ''ROUND_ROBIN'' then Some RoundRobin
          else if name = ''PREFER_LEAST_ERRORS'' then Some PreferLeastErrors
          else if name = ''LEAST_LATENCY'' then Some LeastLatency
          else None)"

definition de_settings :: "readers \<Rightarrow> cvalue \<Rightarrow> settings option" where
  "de_settings r v =
     Option.bind (rd_table r v) (\<lambda>t.
     Option.bind (required (de_application r) [''application''] t) (\<lambda>a.
     Option.bind (required (de_list r (de_upstream r)) [''upstreams'', ''rpcs''] t) (\<lambda>us.
     Option.bind (optional r (rd_u64 r) [''rpc_timeout_in_secs''] t) (\<lambda>l.
     Option.bind (required (de_kind r) [''decider''] t) (\<lambda>d.
       Some \<lparr>application = a, upstreams = us, legacy_rpc_timeout_in_secs = l, decider = d\<rparr>)))))"

datatype load_error = NotLoaded | Rejected settings_error

definition get_settings ::
  "http_parsers \<Rightarrow> config_builder \<Rightarrow> readers \<Rightarrow> environment \<Rightarrow> (load_error, settings) result" where
  "get_settings hp build r get =
     (case Option.bind (build default_settings (config_source get)) (de_settings r) of
        None \<Rightarrow> Inl NotLoaded
      | Some parsed \<Rightarrow> map_err Rejected (settings_from hp get parsed))"

subsection \<open>Settings written as a tree\<close>

text \<open>
  A tree for settings, with the names the list of upstreams and their urls are given under: the present
  ones or the old ones.
\<close>

definition opt_value :: "u64 option \<Rightarrow> cvalue" where
  "opt_value o' = (case o' of None \<Rightarrow> CNil | Some w \<Rightarrow> CInt (uint w))"

definition upstream_value :: "bytes \<Rightarrow> upstream_settings \<Rightarrow> cvalue" where
  "upstream_value url_name u =
     CTable [(''label'', CStr (us_label u)), (url_name, CStr (us_url u)),
       (''hedge_after_in_millis'', opt_value (hedge_after_in_millis u))]"

definition proxy_value :: "proxy_settings \<Rightarrow> cvalue" where
  "proxy_value p =
     CTable [(''max_attempt'', CInt (uint (ps_max_attempt p))),
       (''retry_after_in_secs'', CInt (uint (retry_after_in_secs p))),
       (''rpc_timeout_in_secs'', CInt (uint (rpc_timeout_in_secs p))),
       (''max_response_bytes'', CInt (uint (ps_max_response_bytes p))),
       (''hedge'', CTable [(''enabled'', CBool (hedge_enabled (ps_hedge p))),
          (''after_in_millis'', CInt (uint (after_in_millis (ps_hedge p))))]),
       (''dedup'', CTable [(''enabled'', CBool (dedup_enabled (ps_dedup p)))])]"

definition application_value :: "application_settings \<Rightarrow> cvalue" where
  "application_value a =
     CTable [(''port'', CInt (uint (port a))), (''host'', CStr (host a)), (''proxy'', proxy_value (proxy a)),
       (''cors'', CTable [(''allowed_origins'', CList (map CStr (allowed_origins (cors a))))])]"

definition settings_value :: "bytes \<Rightarrow> bytes \<Rightarrow> settings \<Rightarrow> cvalue" where
  "settings_value list_name url_name s =
     CTable [(''application'', application_value (application s)),
       (list_name, CList (map (upstream_value url_name) (upstreams s))),
       (''rpc_timeout_in_secs'', opt_value (legacy_rpc_timeout_in_secs s)),
       (''decider'', CStr (kind_as_str (decider s)))]"

text \<open>What the crate's reading of leaves is known to do: a value of the kind asked for is itself.\<close>

definition reads_itself :: "readers \<Rightarrow> bool" where
  "reads_itself r \<longleftrightarrow>
     (\<forall>b. rd_bool r (CBool b) = Some b) \<and> (\<forall>w. rd_u64 r (CInt (uint w)) = Some w) \<and>
     (\<forall>w. rd_u16 r (CInt (uint w)) = Some w) \<and> (\<forall>x. rd_str r (CStr x) = Some x) \<and>
     (\<forall>vs. rd_seq r (CList vs) = Some vs) \<and> (\<forall>t. rd_table r (CTable t) = Some t) \<and>
     rd_nil r CNil \<and> (\<forall>i. \<not> rd_nil r (CInt i)) \<and>
     (\<forall>names n. n \<in> set names \<longrightarrow> rd_variant r names (CStr n) = Some n)"

lemma collect_options_map: "(\<And>x. x \<in> set xs \<Longrightarrow> f (g x) = Some x) \<Longrightarrow> collect_options (map f (map g xs)) = Some xs"
  by (induction xs) auto

lemma de_kind_itself: "reads_itself r \<Longrightarrow> de_kind r (CStr (kind_as_str k)) = Some k"
  by (cases k) (simp_all add: reads_itself_def de_kind_def kind_names_def)

lemma de_upstream_itself:
  assumes "reads_itself r" "url_name \<in> {''url'', ''rpc_url''}"
  shows "de_upstream r (upstream_value url_name u) = Some u"
  using assms
  by (cases "hedge_after_in_millis u")
    (auto simp: reads_itself_def de_upstream_def upstream_value_def required_def optional_def opt_value_def)

lemma de_application_itself:
  assumes "reads_itself r"
  shows "de_application r (application_value a) = Some a"
proof -
  note r = assms [unfolded reads_itself_def]
  have "de_proxy r (proxy_value (proxy a)) = Some (proxy a)"
    using r by (simp add: de_proxy_def proxy_value_def required_def de_hedge_def de_dedup_def)
  moreover have "collect_options (map (rd_str r) (map CStr (allowed_origins (cors a)))) = Some (allowed_origins (cors a))"
    by (rule collect_options_map) (use r in simp)
  ultimately show ?thesis
    using r by (simp add: de_application_def application_value_def required_def de_cors_def de_list_def)
qed

lemma de_settings_itself:
  assumes "reads_itself r" "list_name \<in> {''upstreams'', ''rpcs''}" "url_name \<in> {''url'', ''rpc_url''}"
  shows "de_settings r (settings_value list_name url_name s) = Some s"
proof -
  note r = assms(1) [unfolded reads_itself_def]
  have us: "collect_options (map (de_upstream r) (map (upstream_value url_name) (upstreams s))) = Some (upstreams s)"
    by (rule collect_options_map) (rule de_upstream_itself [OF assms(1,3)])
  have l: "list_name = ''upstreams'' \<or> list_name = ''rpcs''" using assms(2) by simp
  show ?thesis
    using l r us de_application_itself [OF assms(1)] de_kind_itself [OF assms(1)]
    by (cases "legacy_rpc_timeout_in_secs s")
      (auto simp: de_settings_def settings_value_def required_def optional_def opt_value_def de_list_def)
qed

text \<open>
  C37: Settings read back: as long as the crate reads a leaf of the kind asked for as itself, settings
  written out as a tree are read as themselves, whichever of the two names the list of upstreams and
  their urls are given under; and the name \<open>as_str\<close> gives a decider is the one it is configured with.
\<close>

theorem settings_read_back:
  assumes "reads_itself r" "list_name \<in> {''upstreams'', ''rpcs''}" "url_name \<in> {''url'', ''rpc_url''}"
  shows "de_settings r (settings_value list_name url_name s) = Some s \<and>
    de_kind r (CStr (kind_as_str k)) = Some k"
  using de_settings_itself [OF assms] de_kind_itself [OF assms(1)] by blast

text \<open>Readers that take a leaf of the kind asked for, and nothing else.\<close>

definition strict_readers :: readers where
  "strict_readers =
     \<lparr>rd_bool = (\<lambda>v. case v of CBool b \<Rightarrow> Some b | _ \<Rightarrow> None),
      rd_u64 = (\<lambda>v. case v of CInt i \<Rightarrow> Some (word_of_int i) | _ \<Rightarrow> None),
      rd_u16 = (\<lambda>v. case v of CInt i \<Rightarrow> Some (word_of_int i) | _ \<Rightarrow> None),
      rd_str = (\<lambda>v. case v of CStr x \<Rightarrow> Some x | _ \<Rightarrow> None),
      rd_seq = (\<lambda>v. case v of CList vs \<Rightarrow> Some vs | _ \<Rightarrow> None),
      rd_table = (\<lambda>v. case v of CTable t \<Rightarrow> Some t | _ \<Rightarrow> None),
      rd_nil = (\<lambda>v. v = CNil),
      rd_variant = (\<lambda>names v. case v of CStr n \<Rightarrow> if n \<in> set names then Some n else None | _ \<Rightarrow> None)\<rparr>"

lemma strict_reads: "reads_itself strict_readers"
  by (simp add: reads_itself_def strict_readers_def)

theorem settings_read_back_witness:
  "de_settings strict_readers (settings_value ''rpcs'' ''rpc_url'' demo_settings) = Some demo_settings"
  using settings_read_back [OF strict_reads, of "''rpcs''" "''rpc_url''" demo_settings RoundRobin] by simp

end
