(* ===== verification/Server.thy ===== *)
theory Server
  imports Progress Loading
begin

text \<open>
  The process around the application: the routes (\<open>src/http/mod.rs\<close>), the metrics endpoint
  (\<open>src/http/metrics.rs\<close>), its log (\<open>src/telemetry.rs\<close>) and its life (\<open>src/main.rs\<close>, \<open>run_until_stopped\<close> of \<open>src/app.rs\<close>): it
  starts or exits with 1, serves until a signal, lets the requests it has finish, stops the refresher
  and exits. The listener, the router and the signals are axum's and tokio's: the routes are the table
  the code hands over, and when the server future returns is an argument.
\<close>

subsection \<open>Routes and handlers\<close>

datatype verb = Get | Post

datatype endpoint = Healthz | Livez | Rpc | Metrics

record route =
  rt_path :: bytes
  rt_verb :: verb
  rt_endpoint :: endpoint
  rt_cors :: "cors_layer option"

text \<open>The layer is on the method router of \<open>/rpc\<close>, its 405 fallback included.\<close>

definition build_router :: "cors_layer option \<Rightarrow> route list" where
  "build_router c =
     [\<lparr>rt_path = ''/healthz'', rt_verb = Get, rt_endpoint = Healthz, rt_cors = None\<rparr>,
      \<lparr>rt_path = ''/livez'', rt_verb = Get, rt_endpoint = Livez, rt_cors = None\<rparr>,
      \<lparr>rt_path = ''/rpc'', rt_verb = Post, rt_endpoint = Rpc, rt_cors = c\<rparr>] @
     [\<lparr>rt_path = ''/metrics'', rt_verb = Get, rt_endpoint = Metrics, rt_cors = None\<rparr>]"

text \<open>
  The text encoder: what it makes of the gathered families, and its content type. \<open>Registry::gather\<close>
  orders what the registered collector gives.
\<close>

record text_encoder =
  encode_families :: "metric_family list \<Rightarrow> bytes option"
  format_type :: bytes

definition get_metrics ::
  "text_encoder \<Rightarrow> (metric_family list \<Rightarrow> metric_family list) \<Rightarrow> metrics_observer \<Rightarrow> response" where
  "get_metrics enc gather obs =
     (case encode_families enc (gather (collect obs)) of
        Some body \<Rightarrow> \<lparr>resp_status = 200, resp_content_type = Some (format_type enc), resp_body = body\<rparr>
      | None \<Rightarrow> \<lparr>resp_status = 500, resp_content_type = None, resp_body = []\<rparr>)"

text \<open>\<open>post_rpc\<close> hands the body to the pipeline: the request arrives.\<close>

definition post_rpc :: "request_uuid \<Rightarrow> bytes \<Rightarrow> system_event" where
  "post_rpc me body = Arrives me body"

subsection \<open>The life of the process\<close>

datatype life = Serving | Exited nat

text \<open>The task that waits for a signal, which panics when the process cannot listen for one.\<close>

datatype watcher = Watching | GotSignal | Panicked

record process =
  pr_life :: life
  pr_watcher :: watcher
  pr_cancelled :: bool
  pr_refresher :: bool
  pr_system :: system

text \<open>
  \<open>telemetry::init\<close>: the subscriber that the events of the program go to. What the environment says of
  the filter, if it can be read, and the filter of a text are \<open>tracing_subscriber\<close>'s.
\<close>

datatype log_timer = Rfc3339

datatype log_format =
  PlainText (with_ansi: bool)
| JsonLines (flatten_event: bool) (with_current_span: bool) (with_span_list: bool)

record 'f subscriber =
  env_filter :: 'f
  log_timer :: log_timer
  log_format :: log_format

definition telemetry_init :: "'f option \<Rightarrow> (bytes \<Rightarrow> 'f) \<Rightarrow> bool \<Rightarrow> 'f subscriber" where
  "telemetry_init default_env new_filter is_terminal =
     \<lparr>env_filter = (case default_env of Some f \<Rightarrow> f | None \<Rightarrow> new_filter ''info''),
      log_timer = Rfc3339,
      log_format = (if is_terminal then PlainText True else JsonLines True True False)\<rparr>"

text \<open>
  \<open>main\<close> up to \<open>run_until_stopped\<close>: the exit code, or the application, served, with its refresher where
  its decider has one, and the watcher of the signals.
\<close>

definition main_start ::
  "http_parsers \<Rightarrow> (bytes \<Rightarrow> 16 word option) \<Rightarrow> (http_client_config \<Rightarrow> bool) \<Rightarrow> (load_error, settings) result \<Rightarrow>
     nat + application_state" where
  "main_start hp bind builds loaded =
     (case loaded of
        Inl err \<Rightarrow> Inl 1
      | Inr st \<Rightarrow> (case app_build hp bind builds st of Inl err \<Rightarrow> Inl 1 | Inr a \<Rightarrow> Inr a))"

fun has_refresher :: "dyn_decider \<Rightarrow> bool" where
  "has_refresher (DynRoundRobin d) = False"
| "has_refresher (DynLeastErrors rf d) = True"
| "has_refresher (DynLeastLatency rf d) = True"

definition process_start :: "application_state \<Rightarrow> process" where
  "process_start a =
     \<lparr>pr_life = Serving, pr_watcher = Watching, pr_cancelled = False,
      pr_refresher = has_refresher (pl_decider (app_pipeline a)), pr_system = system_start a\<rparr>"

definition watch_for_shutdown :: "bool \<Rightarrow> process \<Rightarrow> process" where
  "watch_for_shutdown listened p =
     (if listened then p\<lparr>pr_watcher := GotSignal, pr_cancelled := True\<rparr> else p\<lparr>pr_watcher := Panicked\<rparr>)"

text \<open>
  \<open>run_until_stopped\<close> once the server future has returned, with an error or not, and \<open>main\<close> after it:
  the token is cancelled, the tasks are aborted and joined, and the process exits.
\<close>

definition run_until_stopped :: "bool \<Rightarrow> process \<Rightarrow> process" where
  "run_until_stopped ok p =
     p\<lparr>pr_cancelled := True, pr_refresher := False, pr_life := Exited (if ok then 0 else 1)\<rparr>"

text \<open>
  A signal comes, or listening for it fails; the application takes a step; the refresher sees the
  cancellation; the server future returns, with an error or not. When it may do so is axum's to say:
  \<open>returns ok p\<close>, an argument.
\<close>

datatype process_event =
  Signalled bool
| Works system_event
| RefresherStops
| ServeReturns bool

text \<open>Only the refresher's task refreshes.\<close>

fun refreshes :: "system_event \<Rightarrow> bool" where
  "refreshes (Refreshes seen) = True"
| "refreshes _ = False"

fun process_step :: "serde \<Rightarrow> (bool \<Rightarrow> process \<Rightarrow> bool) \<Rightarrow> process_event \<Rightarrow> process \<Rightarrow> process option" where
  "process_step sj returns (Signalled listened) p =
     (if pr_life p = Serving \<and> pr_watcher p = Watching then Some (watch_for_shutdown listened p) else None)"
| "process_step sj returns (Works ev) p =
     (if pr_life p = Serving \<and> (refreshes ev \<longrightarrow> pr_refresher p)
      then map_option (\<lambda>s. p\<lparr>pr_system := s\<rparr>) (system_step sj ev (pr_system p)) else None)"
| "process_step sj returns RefresherStops p =
     (if pr_life p = Serving \<and> pr_cancelled p \<and> pr_refresher p then Some (p\<lparr>pr_refresher := False\<rparr>) else None)"
| "process_step sj returns (ServeReturns ok) p =
     (if pr_life p = Serving \<and> returns ok p then Some (run_until_stopped ok p) else None)"

inductive process_reach :: "serde \<Rightarrow> (bool \<Rightarrow> process \<Rightarrow> bool) \<Rightarrow> application_state \<Rightarrow> process \<Rightarrow> bool"
  for sj returns a where
  process_begin: "process_reach sj returns a (process_start a)"
| process_next: "process_reach sj returns a p \<Longrightarrow> process_step sj returns ev p = Some p' \<Longrightarrow>
    process_reach sj returns a p'"

fun process_exec :: "serde \<Rightarrow> (bool \<Rightarrow> process \<Rightarrow> bool) \<Rightarrow> process_event list \<Rightarrow> process \<Rightarrow> process option" where
  "process_exec sj returns [] p = Some p"
| "process_exec sj returns (ev # evs) p = Option.bind (process_step sj returns ev p) (process_exec sj returns evs)"

lemma process_exec_reach:
  "process_exec sj returns evs p = Some p' \<Longrightarrow> process_reach sj returns a p \<Longrightarrow> process_reach sj returns a p'"
  by (induction evs arbitrary: p) (auto simp: bind_eq_Some_conv simp del: process_step.simps intro: process_next)

subsection \<open>What the process promises\<close>

lemma main_start_Inr:
  assumes "main_start hp bind hc (get_settings hp build rd env) = Inr a"
  obtains st where "validate_settings hp st = Inr ()" "app_build hp bind hc st = Inr a"
proof -
  from assms obtain st parsed where st: "settings_from hp env parsed = Inr st" "app_build hp bind hc st = Inr a"
    by (auto simp: main_start_def get_settings_def split: sum.splits option.splits)
  then show thesis by (intro that [of st]) (auto simp: settings_from_def)
qed

lemma process_reach_system: "process_reach sj returns a p \<Longrightarrow> system_reach sj a (pr_system p)"
proof (induction rule: process_reach.induct)
  case process_begin
  then show ?case by (simp add: process_start_def system_begin)
next
  case (process_next p ev p')
  then show ?case
    by (cases ev) (auto simp: watch_for_shutdown_def run_until_stopped_def simp del: system_step.simps
        split: if_splits intro: system_next)
qed

text \<open>The application's steps as steps of the process.\<close>

lemma process_exec_works:
  "system_exec sj evs (pr_system p) = Some s \<Longrightarrow> pr_life p = Serving \<Longrightarrow> list_all (Not \<circ> refreshes) evs \<Longrightarrow>
   process_exec sj returns (map Works evs) p = Some (p\<lparr>pr_system := s\<rparr>)"
proof (induction evs arbitrary: p)
  case (Cons ev evs)
  then obtain s1 where s1: "system_step sj ev (pr_system p) = Some s1" "system_exec sj evs s1 = Some s" "\<not> refreshes ev"
    by (auto simp: bind_eq_Some_conv simp del: system_step.simps)
  with Cons.prems Cons.IH [of "p\<lparr>pr_system := s1\<rparr>"] show ?case by (simp del: system_step.simps)
qed simp

lemma process_exec_snoc:
  "process_exec sj returns evs p = Some p1 \<Longrightarrow> process_step sj returns ev p1 = Some p' \<Longrightarrow>
   process_exec sj returns (evs @ [ev]) p = Some p'"
  by (induction evs arbitrary: p) (auto simp: bind_eq_Some_conv simp del: process_step.simps)

text \<open>
  C18: A shutdown completes: from every state of a serving process that has got its signal, with no
  limit on the requests in it, steps of their runs and the taking of their replies lead to a state in
  which the server future can return, as long as it can once the shutdown was asked for and nobody is
  pending; then the process exits with 0.
\<close>

theorem shutdown_completes:
  assumes "main_start hp bind hc (get_settings hp build rd env) = Inr a"
    and "process_reach sj returns a p" "pr_life p = Serving" "pr_cancelled p"
    and "length (flights_of (sys_service (pr_system p))) \<le> 2 ^ 64"
    and "\<And>q. pr_cancelled q \<Longrightarrow> pending_clients (sys_service (pr_system q)) = {} \<Longrightarrow> returns True q"
  shows "\<exists>evs p'. list_all goes_on evs \<and>
    process_exec sj returns (map Works evs @ [ServeReturns True]) p = Some p' \<and> pr_life p' = Exited 0"
proof -
  from assms(1) obtain st where "validate_settings hp st = Inr ()" "app_build hp bind hc st = Inr a"
    by (rule main_start_Inr)
  then have app: "app_ok a" using app_build_ok(1) by blast
  from can_drain [OF process_reach_system [OF assms(2)] app assms(5)] obtain evs s' where
    s': "list_all goes_on evs" "system_exec sj evs (pr_system p) = Some s'" "pending_clients (sys_service s') = {}"
    by (auto simp: leads_to_def)
  from s'(1) have "list_all (Not \<circ> refreshes) evs" by (auto simp: list_all_iff elim!: refreshes.elims)
  from process_exec_works [OF s'(2) assms(3) this]
  have "process_exec sj returns (map Works evs) p = Some (p\<lparr>pr_system := s'\<rparr>)" .
  moreover have "\<exists>p'. process_step sj returns (ServeReturns True) (p\<lparr>pr_system := s'\<rparr>) = Some p' \<and> pr_life p' = Exited 0"
    using assms(3,4,6) s'(3) by (simp add: run_until_stopped_def)
  ultimately show ?thesis using process_exec_snoc s'(1) by blast
qed

subsection \<open>A concrete process\<close>

abbreviation demo_http :: http_parsers where
  "demo_http \<equiv> \<lparr>header_value = (\<lambda>_. True), parse_uri = (\<lambda>_. None)\<rparr>"

text \<open>A file with every key, in the old spelling.\<close>

definition demo_file :: config_builder where
  "demo_file defaults src = Some (settings_value ''rpcs'' ''rpc_url'' demo_live_settings)"

lemma demo_loaded: "get_settings demo_http demo_file strict_readers (\<lambda>_. None) = Inr demo_live_settings"
proof -
  have "de_settings strict_readers (settings_value ''rpcs'' ''rpc_url'' demo_live_settings) = Some demo_live_settings"
    by (rule de_settings_itself [OF strict_reads]) simp_all
  moreover have "expand_env (\<lambda>_. None) (apply_legacy_keys demo_live_settings) = Inr demo_live_settings"
    by (simp add: apply_legacy_keys_def demo_live_settings_def demo_settings_def expand_env_def expand_upstream_def
        expand_str_def expand_loop.simps)
  ultimately show ?thesis
    using demo_live_settings_valid by (simp add: get_settings_def demo_file_def settings_from_def)
qed

lemma demo_main:
  "main_start demo_http (\<lambda>_. Some 8080) (\<lambda>_. True) (get_settings demo_http demo_file strict_readers (\<lambda>_. None)) =
     Inr demo_app"
  by (simp add: main_start_def demo_loaded demo_app_build)

text \<open>A process that got its signal while a client waits; the server returns once it was asked to and nobody does.\<close>

abbreviation demo_returns :: "bool \<Rightarrow> process \<Rightarrow> bool" where
  "demo_returns \<equiv> \<lambda>ok p. ok \<and> pr_cancelled p \<and> pending_clients (sys_service (pr_system p)) = {}"

lemma demo_signalled:
  assumes "system_exec demo_serde evs (system_start demo_app) = Some s" "list_all (Not \<circ> refreshes) evs"
  shows "process_reach demo_serde demo_returns demo_app
    \<lparr>pr_life = Serving, pr_watcher = GotSignal, pr_cancelled = True, pr_refresher = False, pr_system = s\<rparr>"
proof -
  let ?p = "(process_start demo_app)\<lparr>pr_system := s\<rparr>"
  have "process_exec demo_serde demo_returns (map Works evs) (process_start demo_app) = Some ?p"
    using assms by (intro process_exec_works) (simp_all add: process_start_def)
  from process_exec_reach [OF this process_begin] have "process_reach demo_serde demo_returns demo_app ?p" .
  then show ?thesis by (rule process_next [of _ _ _ _ "Signalled True"])
    (simp add: process_start_def demo_app_def watch_for_shutdown_def)
qed

theorem shutdown_completes_witness:
  "\<exists>evs p. process_reach demo_serde demo_returns demo_app p \<and>
     length (clients (sys_service (pr_system p))) = 2 \<and>
     (\<exists>p'. process_exec demo_serde demo_returns (map Works evs @ [ServeReturns True]) p = Some p' \<and>
        pr_life p' = Exited 0)"
proof -
  obtain s where s: "system_exec demo_serde [Arrives 1 ''{eth_call'', Arrives 2 ''{eth_call'', HangsUp 0 0]
      (system_start demo_app) = Some s"
    and c: "length (flights_of (sys_service s)) = 1" "length (clients (sys_service s)) = 2"
    using demo_waiting by blast
  let ?p = "\<lparr>pr_life = Serving, pr_watcher = GotSignal, pr_cancelled = True, pr_refresher = False, pr_system = s\<rparr>"
  have p: "process_reach demo_serde demo_returns demo_app ?p" by (rule demo_signalled [OF s]) simp
  have n: "length (flights_of (sys_service (pr_system ?p))) \<le> 2 ^ 64" using c by simp
  obtain evs p' where "process_exec demo_serde demo_returns (map Works evs @ [ServeReturns True]) ?p = Some p'"
    "pr_life p' = Exited 0" using shutdown_completes [OF demo_main p _ _ n] by auto
  with p c show ?thesis by (intro exI [of _ evs] exI [of _ ?p]) simp
qed

end
