(* ===== verification/Scraping.thy ===== *)
theory Scraping
  imports Prometheus TornReads
begin

text \<open>
  A scrape while handlers run. \<open>Collector::collect\<close> (\<open>src/observer/prometheus.rs\<close>) loads each counter of the
  observer once, one after the other and with no lock, so additions of concurrent handlers fall between
  its loads. What it renders is made of counters as each was at some moment: of the additions made so
  far in the process, a load sees the first few. The theory shows that of two scrapes, the second of
  which loads each counter later than the first, no time series of the first is lost or goes back.
\<close>

subsection \<open>What a scrape sees\<close>

fun request_value :: "request_field \<Rightarrow> request_snapshot \<Rightarrow> u64" where
  "request_value Answered s = answered s"
| "request_value Failed s = failed s"
| "request_value (AttemptBucket i) s = (if i < length (attempt_buckets s) then attempt_buckets s ! i else 0)"
| "request_value AttemptsTotal s = attempts_total s"
| "request_value (RequestBucket i) s = (if i < length (duration_buckets s) then duration_buckets s ! i else 0)"
| "request_value RequestMicros s = rq_duration_micros_total s"

definition value_at :: "('k \<times> 'v) list \<Rightarrow> 'k \<Rightarrow> ('v \<Rightarrow> u64) \<Rightarrow> u64" where
  "value_at al k f = (case map_of al k of Some v \<Rightarrow> f v | None \<Rightarrow> 0)"

fun cell_value :: "cell \<Rightarrow> metrics_observer \<Rightarrow> u64" where
  "cell_value (StatCell u f) obs = value_at (stats obs) u (stat_value f)"
| "cell_value (StartedCell o' t) obs = value_at (hedges obs) (o', t) started"
| "cell_value (WonCell o' t) obs = value_at (hedges obs) (o', t) won"
| "cell_value CoalescedCell obs = coalesced obs"
| "cell_value (FailoverCell u) obs = value_at (failovers obs) u (\<lambda>v. v)"
| "cell_value (RequestCell m f) obs = value_at (requests obs) m (request_value f)"

definition snapshot_from :: "(stat_field \<Rightarrow> u64) \<Rightarrow> snapshot" where
  "snapshot_from v =
     \<lparr>success = v Success, unreachable = v UnreachableCount, read_failed = v ReadFailedCount,
      error_status = v ErrorStatusCount, rpc_error = v RpcErrorCount, rpc_caller_fault = v CallerFaultCount,
      abandoned = v AbandonedCount, retryable_failures = v RetryableFailures,
      buckets = map (\<lambda>i. v (Bucket i)) [0..<length BUCKET_BOUNDS_MICROS],
      duration_micros_total = v DurationMicros, retryable_failures_micros_total = v RetryableMicros\<rparr>"

definition request_from :: "(request_field \<Rightarrow> u64) \<Rightarrow> request_snapshot" where
  "request_from v =
     \<lparr>answered = v Answered, failed = v Failed,
      attempt_buckets = map (\<lambda>i. v (AttemptBucket i)) [0..<length ATTEMPT_BOUNDS],
      attempts_total = v AttemptsTotal,
      duration_buckets = map (\<lambda>i. v (RequestBucket i)) [0..<length BUCKET_BOUNDS_MICROS],
      rq_duration_micros_total = v RequestMicros\<rparr>"

text \<open>The readers' results, made of the loaded values; the keys of the maps never change.\<close>

definition observer_from :: "(cell \<Rightarrow> u64) \<Rightarrow> metrics_observer \<Rightarrow> metrics_observer" where
  "observer_from v obs =
     \<lparr>stats = map (\<lambda>(u, _). (u, snapshot_from (\<lambda>f. v (StatCell u f)))) (stats obs),
      hedges = map (\<lambda>((o', t), _). ((o', t), \<lparr>started = v (StartedCell o' t), won = v (WonCell o' t)\<rparr>)) (hedges obs),
      coalesced = v CoalescedCell,
      failovers = map (\<lambda>(u, _). (u, v (FailoverCell u))) (failovers obs),
      requests = map (\<lambda>(m, _). (m, request_from (\<lambda>f. v (RequestCell m f)))) (requests obs)\<rparr>"

text \<open>The counter \<open>c\<close> is loaded after the first \<open>t c\<close> of the additions \<open>ops\<close>.\<close>

definition seen_at :: "(cell \<Rightarrow> nat) \<Rightarrow> (cell \<times> u64) list \<Rightarrow> metrics_observer \<Rightarrow> metrics_observer" where
  "seen_at t ops obs = observer_from (\<lambda>c. cell_value c (run_ops (take (t c) ops) obs)) obs"

text \<open>A snapshot of the theory \<open>TornReads\<close> is one of these.\<close>

lemma snapshot_of_loads_from: "snapshot_of_loads vs = snapshot_from (value_in vs)"
  by (simp add: snapshot_of_loads_def snapshot_from_def)

subsection \<open>The value of a counter\<close>

definition in_range :: "cell \<Rightarrow> metrics_observer \<Rightarrow> bool" where
  "in_range c obs \<longleftrightarrow>
     (case c of
        StatCell u f \<Rightarrow> (\<exists>s. map_of (stats obs) u = Some s \<and> (\<forall>i. f = Bucket i \<longrightarrow> i < length (buckets s)))
      | StartedCell o' t \<Rightarrow> map_of (hedges obs) (o', t) \<noteq> None
      | WonCell o' t \<Rightarrow> map_of (hedges obs) (o', t) \<noteq> None
      | CoalescedCell \<Rightarrow> True
      | FailoverCell u \<Rightarrow> map_of (failovers obs) u \<noteq> None
      | RequestCell m f \<Rightarrow> (\<exists>s. map_of (requests obs) m = Some s \<and>
          (\<forall>i. (f = AttemptBucket i \<longrightarrow> i < length (attempt_buckets s)) \<and>
               (f = RequestBucket i \<longrightarrow> i < length (duration_buckets s)))))"

lemma request_value_add:
  "request_value f (add_request g a s) =
     (if f = g \<and> (\<forall>i. (f = AttemptBucket i \<longrightarrow> i < length (attempt_buckets s)) \<and>
          (f = RequestBucket i \<longrightarrow> i < length (duration_buckets s)))
      then request_value f s + a else request_value f s)"
  by (cases f; cases g) (auto simp: add_slot_def nth_list_update)

lemma add_lengths [simp]:
  "length (add_slot i a bs) = length bs" "length (buckets (add_stat f a s)) = length (buckets s)"
  "length (attempt_buckets (add_request g a r)) = length (attempt_buckets r)"
  "length (duration_buckets (add_request g a r)) = length (duration_buckets r)"
  by (cases f; cases g; simp add: add_slot_def)+

lemma cell_value_add:
  "cell_value c (fetch_add (c', a) obs) =
     (if c = c' \<and> in_range c obs then cell_value c obs + a else cell_value c obs)"
  by (cases c; cases c')
    (auto simp: value_at_def in_range_def stat_value_add request_value_add split: option.split)

lemma in_range_add: "in_range c (fetch_add (c', a) obs) = in_range c obs"
  by (cases c; cases c') (auto simp: in_range_def)

definition total_of :: "(cell \<Rightarrow> bool) \<Rightarrow> (cell \<times> u64) list \<Rightarrow> nat" where
  "total_of P ops = sum_list (map (\<lambda>(c, a). if P c then unat a else 0) ops)"

lemma total_of_simps [simp]:
  "total_of P [] = 0" "total_of P ((c, a) # ops) = (if P c then unat a else 0) + total_of P ops"
  "total_of P (xs @ ys) = total_of P xs + total_of P ys"
  by (simp_all add: total_of_def)

lemma total_of_take: "total_of P (take n ops) \<le> total_of P ops"
  by (metis append_take_drop_id le_add1 total_of_simps(3))

lemma total_of_take_mono: "m \<le> n \<Longrightarrow> total_of P (take m ops) \<le> total_of P (take n ops)"
  by (metis min.absorb1 take_take total_of_take)

lemma run_ops_value:
  "cell_value c (run_ops ops obs) =
     cell_value c obs + (if in_range c obs then of_nat (total_of (\<lambda>c'. c' = c) ops) else 0)"
proof (induction ops arbitrary: obs)
  case (Cons x ops)
  obtain c' a where x: "x = (c', a)" by fastforce
  have "run_ops (x # ops) obs = run_ops ops (fetch_add (c', a) obs)" by (simp add: run_ops_def x)
  then show ?case by (simp add: Cons.IH cell_value_add in_range_add x)
qed (simp add: run_ops_def)

lemma default_value: "stat_value f default_snapshot = 0" "request_value g default_request_snapshot = 0"
  by (cases f; simp add: default_snapshot_def) (cases g; simp add: default_request_snapshot_def)

lemma new_observer_value: "cell_value c (new_observer ids) = 0"
proof -
  have "h = \<lparr>started = 0, won = 0\<rparr>" if "map_of (hedges (new_observer ids)) p = Some h" for p h
    using map_of_SomeD [OF that] by (auto simp: new_observer_def Let_def)
  then show ?thesis
    by (cases c) (auto simp: value_at_def new_observer_stats default_value split: option.split,
        auto simp: new_observer_def Let_def default_value dest!: map_of_SomeD)
qed

subsection \<open>The additions of a history do not wrap\<close>

fun event_weight :: "obs_event \<Rightarrow> nat" where
  "event_weight (Record u r) = 1 + unat (micros_u64 (rec_duration r))"
| "event_weight (Abandoned u d) = 1 + unat (micros_u64 d)"
| "event_weight (Request m ok n d) = 1 + n + unat (micros_u64 d)"
| "event_weight _ = 1"

definition history_weight :: "obs_event list \<Rightarrow> nat" where
  "history_weight evs = sum_list (map event_weight evs)"

text \<open>A handler adds to at most one counter of each aspect.\<close>

fun stat_aspect :: "stat_field \<Rightarrow> nat" where
  "stat_aspect (Bucket i) = 1"
| "stat_aspect DurationMicros = 2"
| "stat_aspect RetryableFailures = 3"
| "stat_aspect RetryableMicros = 4"
| "stat_aspect _ = 0"

fun request_aspect :: "request_field \<Rightarrow> nat" where
  "request_aspect (AttemptBucket i) = 1"
| "request_aspect AttemptsTotal = 2"
| "request_aspect (RequestBucket i) = 3"
| "request_aspect RequestMicros = 4"
| "request_aspect _ = 0"

fun aspect :: "cell \<Rightarrow> nat" where
  "aspect (StatCell u f) = stat_aspect f"
| "aspect (RequestCell m f) = request_aspect f"
| "aspect _ = 0"

lemma outcome_aspect: "stat_aspect (outcome_field r) = 0"
  by (cases r rule: outcome_field.cases) simp_all

lemma handler_total: "total_of (\<lambda>c. aspect c = k) (handler_ops obs e) \<le> event_weight e"
proof (cases e)
  case (Request m ok n d)
  have "unat (of_nat n :: u64) \<le> n" by (simp add: unat_of_nat)
  then show ?thesis by (auto simp: Request Let_def)
qed (auto simp: duration_ops_def Let_def outcome_aspect)

lemma total_of_sum: "total_of P xs = (\<Sum>(c, a) \<in># mset xs. if P c then unat a else 0)"
  by (induction xs) auto

lemma total_of_mset: "mset xs = mset ys \<Longrightarrow> total_of P xs = total_of P ys"
  using total_of_sum [of P xs] total_of_sum [of P ys] by simp

lemma ops_total:
  assumes "mset ops = mset (concat (map (handler_ops obs) calls))"
  shows "total_of (\<lambda>c. aspect c = k) ops \<le> history_weight calls"
proof -
  have "total_of (\<lambda>c. aspect c = k) (concat (map (handler_ops obs) calls)) \<le> history_weight calls"
    by (induction calls) (simp_all add: history_weight_def add_mono handler_total)
  then show ?thesis by (simp only: total_of_mset [OF assms])
qed

lemma total_of_sub: "(\<And>c. P c \<Longrightarrow> Q c) \<Longrightarrow> total_of P ops \<le> total_of Q ops"
  by (induction ops) (auto intro: add_mono)

text \<open>Distinct counters of one aspect, loaded at moments of their own: the totals and their sums grow.\<close>

definition aspects_fit :: "(cell \<times> u64) list \<Rightarrow> bool" where
  "aspects_fit ops \<longleftrightarrow> (\<forall>k. total_of (\<lambda>c. aspect c = k) ops < 2 ^ 64)"

lemma total_of_cells:
  "distinct cs \<Longrightarrow> sum_list (map (\<lambda>c. total_of (\<lambda>c'. c' = c) ops) cs) = total_of (\<lambda>c'. c' \<in> set cs) ops"
proof (induction ops)
  case (Cons x ops)
  obtain c' a where x: "x = (c', a)" by fastforce
  have "sum_list (map (\<lambda>c. if c' = c then unat a else 0) cs) = (if c' \<in> set cs then unat a else 0)"
    using Cons.prems by (induction cs) auto
  with Cons show ?case by (simp add: x sum_list_addf)
qed simp

definition loaded :: "(cell \<Rightarrow> nat) \<Rightarrow> (cell \<times> u64) list \<Rightarrow> upstream_id list \<Rightarrow> cell \<Rightarrow> u64" where
  "loaded t ops ids c = cell_value c (run_ops (take (t c) ops) (new_observer ids))"

lemma loaded_total:
  assumes "aspects_fit ops"
  shows "unat (loaded t ops ids c) =
    (if in_range c (new_observer ids) then total_of (\<lambda>c'. c' = c) (take (t c) ops) else 0)"
proof -
  have "total_of (\<lambda>c'. c' = c) (take (t c) ops) \<le> total_of (\<lambda>c'. aspect c' = aspect c) ops"
    by (rule order_trans [OF total_of_take total_of_sub]) simp
  also have "\<dots> < 2 ^ 64" using assms by (simp add: aspects_fit_def)
  finally show ?thesis by (simp add: loaded_def run_ops_value new_observer_value unat_of_nat_u64)
qed

lemma loaded_up:
  assumes "aspects_fit ops" "t c \<le> t' c"
  shows "loaded t ops ids c \<le> loaded t' ops ids c"
  using total_of_take_mono [OF assms(2)] by (simp add: word_le_nat_alt loaded_total [OF assms(1)])

lemma loaded_sum:
  assumes "aspects_fit ops" "distinct cs" "\<And>c. c \<in> set cs \<Longrightarrow> aspect c = k"
  shows "sum_list (map (unat \<circ> loaded t ops ids) cs) < 2 ^ 64"
proof -
  have "sum_list (map (unat \<circ> loaded t ops ids) cs) \<le> sum_list (map (\<lambda>c. total_of (\<lambda>c'. c' = c) ops) cs)"
    by (rule sum_list_mono) (simp add: loaded_total [OF assms(1)] total_of_take)
  also have "\<dots> = total_of (\<lambda>c'. c' \<in> set cs) ops" by (rule total_of_cells [OF assms(2)])
  also have "\<dots> \<le> total_of (\<lambda>c'. aspect c' = k) ops" by (rule total_of_sub) (rule assms(3))
  also have "\<dots> < 2 ^ 64" using assms(1) by (simp add: aspects_fit_def)
  finally show ?thesis .
qed

lemma loaded_sum_up:
  assumes "aspects_fit ops" "distinct cs" "\<And>c. c \<in> set cs \<Longrightarrow> aspect c = k" "\<And>c. t c \<le> t' c"
  shows "sum_list (map (loaded t ops ids) cs) \<le> sum_list (map (loaded t' ops ids) cs)"
proof -
  have "loaded t ops ids c \<le> loaded t' ops ids c" for c by (rule loaded_up [OF assms(1)]) (rule assms(4))
  then have "sum_list (map (unat \<circ> loaded t ops ids) cs) \<le> sum_list (map (unat \<circ> loaded t' ops ids) cs)"
    by (intro sum_list_mono) (simp add: word_le_nat_alt)
  then show ?thesis
    by (simp only: word_le_nat_alt unat_sum_list [OF loaded_sum [OF assms(1-3)]])
qed

subsection \<open>Comparing scrapes\<close>

fun goes_up :: "metric_value \<Rightarrow> metric_value \<Rightarrow> bool" where
  "goes_up (Counter a) (Counter b) \<longleftrightarrow> a \<le> b"
| "goes_up (Histogram h) (Histogram k) \<longleftrightarrow>
     sample_count h \<le> sample_count k \<and> sample_sum h \<le> sample_sum k \<and>
     list_all2 (\<lambda>b c. upper_bound b = upper_bound c \<and> cumulative_count b \<le> cumulative_count c)
       (bucket_list h) (bucket_list k)"
| "goes_up _ _ \<longleftrightarrow> False"

text \<open>Every series of the first family is one of the second, and has not gone back.\<close>

definition carries_on :: "metric_family \<Rightarrow> metric_family \<Rightarrow> bool" where
  "carries_on f g \<longleftrightarrow>
     fam_name f = fam_name g \<and>
     (\<forall>m \<in> set (fam_metrics f). \<exists>n \<in> set (fam_metrics g). m_label m = m_label n \<and> goes_up (m_value m) (m_value n))"

definition metric_up :: "metric \<Rightarrow> metric \<Rightarrow> bool" where
  "metric_up m n \<longleftrightarrow> m_label m = m_label n \<and> goes_up (m_value m) (m_value n)"

lemma carries_concat:
  assumes "set xs = (\<lambda>k. (k, f k)) ` K" "set ys = (\<lambda>k. (k, g k)) ` L" "K \<subseteq> L"
    and "\<And>k. k \<in> K \<Longrightarrow> list_all2 metric_up (ms (k, f k)) (ms (k, g k))"
  shows "carries_on (family name help kind (concat (map ms xs))) (family name help kind (concat (map ms ys)))"
proof -
  have "\<exists>n \<in> set (concat (map ms ys)). metric_up m n" if m: "m \<in> set (concat (map ms xs))" for m
  proof -
    from m assms(1) obtain k where k: "k \<in> K" "m \<in> set (ms (k, f k))" by auto
    from assms(4) [OF k(1)] k(2) obtain n where "n \<in> set (ms (k, g k))" "metric_up m n"
      by (metis in_set_conv_nth list_all2_lengthD list_all2_nthD)
    moreover from k(1) assms(2,3) have "(k, g k) \<in> set ys" by blast
    ultimately show ?thesis by auto
  qed
  then show ?thesis by (auto simp: carries_on_def family_def metric_up_def)
qed

lemma carries_map:
  assumes "set xs = (\<lambda>k. (k, f k)) ` K" "set ys = (\<lambda>k. (k, g k)) ` L" "K \<subseteq> L"
    and "\<And>k. k \<in> K \<Longrightarrow> metric_up (m (k, f k)) (m (k, g k))"
  shows "carries_on (family name help kind (map m xs)) (family name help kind (map m ys))"
  using carries_concat [OF assms(1-3), of "\<lambda>x. [m x]"] assms(4) by (simp add: concat_map_singleton)

lemma f64_of_u64_mono: "a \<le> b \<Longrightarrow> f64_of_u64 a \<le> f64_of_u64 b"
  unfolding f64_of_u64_def by (rule rnd_mono) (simp only: of_nat_le_iff of_nat_0_le_iff word_le_nat_alt)+

lemma seconds_mono: "a \<le> b \<Longrightarrow> f64_div (f64_of_u64 a) MICROS_PER_SECOND \<le> f64_div (f64_of_u64 b) MICROS_PER_SECOND"
  by (simp add: f64_div_def MICROS_PER_SECOND_def rnd_mono divide_right_mono f64_of_u64_mono)

lemma bucket_zip_up:
  assumes "list_all2 (\<le>) cs ds"
  shows "list_all2 (\<lambda>b c. upper_bound b = upper_bound c \<and> cumulative_count b \<le> cumulative_count c)
    (map (\<lambda>(bound, c). \<lparr>upper_bound = g bound, cumulative_count = c\<rparr>) (zip bs cs))
    (map (\<lambda>(bound, c). \<lparr>upper_bound = g bound, cumulative_count = c\<rparr>) (zip bs ds))"
  using assms
proof (induction arbitrary: bs rule: list_all2_induct)
  case (Cons c cs d ds)
  then show ?case by (cases bs) auto
qed simp

lemma duration_histogram_up:
  "list_all2 (\<le>) (cumulative bs) (cumulative bs') \<Longrightarrow> n \<le> n' \<Longrightarrow> m \<le> m' \<Longrightarrow>
   metric_up (duration_histogram_metric lp bs n m) (duration_histogram_metric lp bs' n' m')"
  by (simp add: duration_histogram_metric_def metric_up_def seconds_mono bucket_zip_up)

subsection \<open>Two scrapes, metric by metric\<close>

definition later :: "(cell \<Rightarrow> nat) \<Rightarrow> (cell \<Rightarrow> nat) \<Rightarrow> bool" where
  "later t t' \<longleftrightarrow> (\<forall>c. t c \<le> t' c)"

definition snapshot_seen :: "(cell \<Rightarrow> nat) \<Rightarrow> (cell \<times> u64) list \<Rightarrow> upstream_id list \<Rightarrow> upstream_id \<Rightarrow> snapshot" where
  "snapshot_seen t ops ids u = snapshot_from (\<lambda>f. loaded t ops ids (StatCell u f))"

definition request_seen :: "(cell \<Rightarrow> nat) \<Rightarrow> (cell \<times> u64) list \<Rightarrow> upstream_id list \<Rightarrow> bytes \<Rightarrow> request_snapshot" where
  "request_seen t ops ids m = request_from (\<lambda>f. loaded t ops ids (RequestCell m f))"

lemma cells_up: "aspects_fit ops \<Longrightarrow> later t t' \<Longrightarrow> loaded t ops ids c \<le> loaded t' ops ids c"
  by (simp add: later_def loaded_up)

lemma cells_sum_up:
  assumes "aspects_fit ops" "later t t'" "distinct cs" "\<And>c. c \<in> set cs \<Longrightarrow> aspect c = k"
  shows "sum_list (map (loaded t ops ids) cs) \<le> sum_list (map (loaded t' ops ids) cs)"
  using assms(2) by (intro loaded_sum_up [OF assms(1,3,4)]) (simp_all add: later_def)

lemma buckets_up:
  assumes "aspects_fit ops" "later t t'" "inj C" "\<And>i. aspect (C i) = k"
  shows "list_all2 (\<le>) (cumulative (map (\<lambda>i. loaded t ops ids (C i)) [0..<n]))
    (cumulative (map (\<lambda>i. loaded t' ops ids (C i)) [0..<n]))"
proof (rule list_all2_all_nthI)
  fix i
  assume "i < length (cumulative (map (\<lambda>i. loaded t ops ids (C i)) [0..<n]))"
  then have i: "i < n" by (simp add: cumulative_def)
  have c: "cumulative (map (\<lambda>i. loaded x ops ids (C i)) [0..<n]) ! i = sum_list (map (loaded x ops ids) (map C [0..<Suc i]))" for x
    using i by (simp add: cumulative_nth take_map comp_def del: upt_Suc)
  show "cumulative (map (\<lambda>i. loaded t ops ids (C i)) [0..<n]) ! i \<le>
      cumulative (map (\<lambda>i. loaded t' ops ids (C i)) [0..<n]) ! i"
    unfolding c using assms(3,4)
    by (intro cells_sum_up [OF assms(1,2)]) (auto simp: distinct_map inj_on_def simp del: upt_Suc)
qed (simp add: cumulative_def)

lemma outcomes_up:
  assumes "aspects_fit ops" "later t t'"
  shows "list_all2 metric_up
    (map (\<lambda>(outcome, value). counter_metric n outcome value) (outcomes (snapshot_seen t ops ids u)))
    (map (\<lambda>(outcome, value). counter_metric n outcome value) (outcomes (snapshot_seen t' ops ids u)))"
  by (simp add: outcomes_def snapshot_seen_def snapshot_from_def metric_up_def counter_metric_def
      f64_of_u64_mono cells_up [OF assms])

lemma latency_up:
  assumes "aspects_fit ops" "later t t'"
  shows "metric_up (histogram_metric n (snapshot_seen t ops ids u)) (histogram_metric n (snapshot_seen t' ops ids u))"
proof -
  let ?cs = "map (StatCell u) [Success, UnreachableCount, ReadFailedCount, ErrorStatusCount, RpcErrorCount,
    CallerFaultCount, AbandonedCount]"
  have "attempts (snapshot_seen x ops ids u) = sum_list (map (loaded x ops ids) ?cs)" for x
    by (simp add: attempts_def outcomes_def snapshot_seen_def snapshot_from_def)
  moreover have "sum_list (map (loaded t ops ids) ?cs) \<le> sum_list (map (loaded t' ops ids) ?cs)"
    by (rule cells_sum_up [OF assms, of _ 0]) auto
  ultimately show ?thesis
    unfolding histogram_metric_def
    by (intro duration_histogram_up) (simp_all add: snapshot_seen_def snapshot_from_def cells_up [OF assms],
        intro buckets_up [OF assms, of "\<lambda>i. StatCell u (Bucket i)" 1], simp_all add: inj_on_def)
qed

lemma requests_up:
  assumes "aspects_fit ops" "later t t'"
  shows "answered (request_seen t ops ids l) + failed (request_seen t ops ids l) \<le>
      answered (request_seen t' ops ids l) + failed (request_seen t' ops ids l)"
    "list_all2 metric_up
      [request_counter_metric l ''success'' (answered (request_seen t ops ids l)),
       request_counter_metric l ''failed'' (failed (request_seen t ops ids l))]
      [request_counter_metric l ''success'' (answered (request_seen t' ops ids l)),
       request_counter_metric l ''failed'' (failed (request_seen t' ops ids l))]"
    "metric_up (attempts_histogram_metric l (request_seen t ops ids l))
      (attempts_histogram_metric l (request_seen t' ops ids l))"
    "metric_up
      (duration_histogram_metric lp (duration_buckets (request_seen t ops ids l))
        (answered (request_seen t ops ids l) + failed (request_seen t ops ids l))
        (rq_duration_micros_total (request_seen t ops ids l)))
      (duration_histogram_metric lp (duration_buckets (request_seen t' ops ids l))
        (answered (request_seen t' ops ids l) + failed (request_seen t' ops ids l))
        (rq_duration_micros_total (request_seen t' ops ids l)))"
proof -
  let ?cs = "map (RequestCell l) [Answered, Failed]"
  note seen = request_seen_def request_from_def
  have "sum_list (map (loaded t ops ids) ?cs) \<le> sum_list (map (loaded t' ops ids) ?cs)"
    by (rule cells_sum_up [OF assms, of _ 0]) auto
  then show n: "answered (request_seen t ops ids l) + failed (request_seen t ops ids l) \<le>
      answered (request_seen t' ops ids l) + failed (request_seen t' ops ids l)"
    by (simp add: seen)
  show "list_all2 metric_up
      [request_counter_metric l ''success'' (answered (request_seen t ops ids l)),
       request_counter_metric l ''failed'' (failed (request_seen t ops ids l))]
      [request_counter_metric l ''success'' (answered (request_seen t' ops ids l)),
       request_counter_metric l ''failed'' (failed (request_seen t' ops ids l))]"
    by (simp add: seen metric_up_def request_counter_metric_def f64_of_u64_mono cells_up [OF assms])
  have "list_all2 (\<le>) (cumulative (attempt_buckets (request_seen t ops ids l)))
      (cumulative (attempt_buckets (request_seen t' ops ids l)))"
    using buckets_up [OF assms, of "\<lambda>i. RequestCell l (AttemptBucket i)" 1] by (simp add: seen inj_on_def)
  then show "metric_up (attempts_histogram_metric l (request_seen t ops ids l))
      (attempts_histogram_metric l (request_seen t' ops ids l))"
    using n by (simp add: attempts_histogram_metric_def metric_up_def bucket_zip_up)
      (simp add: seen f64_of_u64_mono cells_up [OF assms])
  have "list_all2 (\<le>) (cumulative (duration_buckets (request_seen t ops ids l)))
      (cumulative (duration_buckets (request_seen t' ops ids l)))"
    using buckets_up [OF assms, of "\<lambda>i. RequestCell l (RequestBucket i)" 3] by (simp add: seen inj_on_def)
  then show "metric_up
      (duration_histogram_metric lp (duration_buckets (request_seen t ops ids l))
        (answered (request_seen t ops ids l) + failed (request_seen t ops ids l))
        (rq_duration_micros_total (request_seen t ops ids l)))
      (duration_histogram_metric lp (duration_buckets (request_seen t' ops ids l))
        (answered (request_seen t' ops ids l) + failed (request_seen t' ops ids l))
        (rq_duration_micros_total (request_seen t' ops ids l)))"
    using n by (intro duration_histogram_up) (simp_all add: seen cells_up [OF assms])
qed

subsection \<open>What the readers give\<close>

lemma image_keys: "(\<lambda>(k, _). (k, f k)) ` set al = (\<lambda>k. (k, f k)) ` fst ` set al"
  by force

lemma seen_entries:
  fixes ids t ops defines "obs \<equiv> seen_at t ops (new_observer ids)" and "new \<equiv> new_observer ids"
  shows "set (snapshots obs) = (\<lambda>u. (u, snapshot_seen t ops ids u)) ` fst ` set (stats new)"
    "set (failover_counts obs) = (\<lambda>u. (u, loaded t ops ids (FailoverCell u))) ` fst ` set (failovers new)"
    "set (hedge_snapshots obs) = (\<lambda>p. (p, \<lparr>started = loaded t ops ids (StartedCell (fst p) (snd p)),
        won = loaded t ops ids (WonCell (fst p) (snd p))\<rparr>)) ` fst ` set (hedges new)"
    "set (request_snapshots obs) = (\<lambda>m. (m, request_seen t ops ids m)) ` fst ` set (requests new)"
    "coalesced obs = loaded t ops ids CoalescedCell"
proof -
  note defs = obs_def new_def seen_at_def observer_from_def loaded_def [symmetric]
  show "set (snapshots obs) = (\<lambda>u. (u, snapshot_seen t ops ids u)) ` fst ` set (stats new)"
    by (force simp: defs snapshots_def rekey_def stats_snapshot_def snapshot_seen_def)
  show "set (failover_counts obs) = (\<lambda>u. (u, loaded t ops ids (FailoverCell u))) ` fst ` set (failovers new)"
    by (force simp: defs failover_counts_def)
  show "set (hedge_snapshots obs) = (\<lambda>p. (p, \<lparr>started = loaded t ops ids (StartedCell (fst p) (snd p)),
        won = loaded t ops ids (WonCell (fst p) (snd p))\<rparr>)) ` fst ` set (hedges new)"
    by (force simp: defs hedge_snapshots_def)
  show "set (request_snapshots obs) = (\<lambda>m. (m, request_seen t ops ids m)) ` fst ` set (requests new)"
    by (force simp: defs request_snapshots_def request_seen_def)
  show "coalesced obs = loaded t ops ids CoalescedCell" by (simp add: defs)
qed

lemma active_seen:
  "set (active_requests (seen_at t ops (new_observer ids))) =
     (\<lambda>m. (m, request_seen t ops ids m)) `
       {m \<in> fst ` set (requests (new_observer ids)).
          0 < answered (request_seen t ops ids m) + failed (request_seen t ops ids m)}"
  by (auto simp: active_requests_def seen_entries(4))

lemma scrapes_carry_on:
  assumes up: "aspects_fit ops" "later t t'"
  shows "list_all2 carries_on (collect (seen_at t ops (new_observer ids)))
    (collect (seen_at t' ops (new_observer ids)))"
proof (cases "fst ` set (stats (new_observer ids)) = {}")
  case True
  then have "set (snapshots (seen_at x ops (new_observer ids))) = {}" for x
    unfolding seen_entries by simp
  then show ?thesis by (simp add: collect_def)
next
  case False
  let ?o = "seen_at t ops (new_observer ids)" and ?p = "seen_at t' ops (new_observer ids)"
  note o = seen_entries [of t ops ids] and p = seen_entries [of t' ops ids]
  have ne: "snapshots ?o \<noteq> []" "snapshots ?p \<noteq> []" using o(1) p(1) False by fastforce+
  have "0 < answered (request_seen t' ops ids m) + failed (request_seen t' ops ids m)"
    if "0 < answered (request_seen t ops ids m) + failed (request_seen t ops ids m)" for m
    using that requests_up(1) [OF up] by (rule less_le_trans)
  then have active: "{m \<in> fst ` set (requests (new_observer ids)).
          0 < answered (request_seen t ops ids m) + failed (request_seen t ops ids m)} \<subseteq>
      {m \<in> fst ` set (requests (new_observer ids)).
          0 < answered (request_seen t' ops ids m) + failed (request_seen t' ops ids m)}" by blast
  note reqs = active_seen [of t ops ids] active_seen [of t' ops ids] active
  note counters = metric_up_def pair_counter_metric_def upstream_counter_metric_def unlabelled_counter_metric_def
    f64_of_u64_mono cells_up [OF up]
  show ?thesis
    unfolding collect_def Let_def if_not_P [OF ne(1)] if_not_P [OF ne(2)] list_all2_Cons list_all2_Nil per_pair_def
    apply (intro conjI refl)
    subgoal by (rule carries_concat [OF o(1) p(1) subset_refl]) (simp only: prod.case outcomes_up [OF up])
    subgoal by (rule carries_map [OF o(1) p(1) subset_refl]) (simp only: prod.case latency_up [OF up])
    subgoal by (rule carries_map [OF o(3) p(3) subset_refl]) (auto simp: counters)
    subgoal by (rule carries_map [OF o(3) p(3) subset_refl]) (auto simp: counters)
    subgoal by (rule carries_map [OF o(2) p(2) subset_refl]) (simp add: counters)
    subgoal by (simp add: carries_on_def family_def o(5) p(5) counters)
    subgoal by (rule carries_concat [OF reqs]) (simp only: prod.case requests_up [OF up])
    subgoal by (rule carries_map [OF reqs]) (simp only: prod.case requests_up [OF up])
    subgoal by (rule carries_map [OF reqs]) (simp only: prod.case requests_up [OF up])
    done
qed

end
