(* ===== verification/Scrapes.thy ===== *)
theory Scrapes
  imports Scraping
begin

text \<open>
  What Prometheus expects of two scrapes of one process (\<open>Collector::collect\<close> in
  \<open>src/observer/prometheus.rs\<close>), also when handlers run while they are taken: a counter never goes back
  and no time series disappears. Between calls of the handlers the buckets of a histogram are also
  cumulative and bounded by its count. The counters are \<open>u64\<close>s that wrap, so this holds while no total
  exceeds \<open>2 ^ 64\<close>; \<open>history_weight\<close> bounds every total by what a history adds. The last section shows
  what the buckets of a scrape in the middle of a handler may look like instead.
\<close>

subsection \<open>Cumulative buckets\<close>

fun cumulates :: "metric_value \<Rightarrow> bool" where
  "cumulates (Counter a) \<longleftrightarrow> True"
| "cumulates (Histogram h) \<longleftrightarrow>
     sorted (map cumulative_count (bucket_list h)) \<and> (\<forall>b \<in> set (bucket_list h). cumulative_count b \<le> sample_count h)"

definition family_cumulates :: "metric_family \<Rightarrow> bool" where
  "family_cumulates f \<longleftrightarrow> (\<forall>m \<in> set (fam_metrics f). cumulates (m_value m))"

subsection \<open>Counting without wrapping\<close>

lemma tally_le:
  assumes "length (xs @ ys) < 2 ^ 64" "\<And>x. x \<in> set xs \<Longrightarrow> p x \<Longrightarrow> q x"
  shows "tally p xs \<le> tally q (xs @ ys)"
proof -
  have "length (filter p xs) \<le> length (filter q xs)"
    using assms(2) by (induction xs) auto
  moreover have "length xs < 2 ^ 64" using assms(1) by simp
  ultimately show ?thesis using assms(1) by (simp add: word_le_nat_alt unat_tally)
qed

lemma tally_le_length: "length xs < 2 ^ 64 \<Longrightarrow> tally p xs \<le> of_nat (length xs)"
  using tally_le [of xs "[]" p "\<lambda>_. True"] by (simp add: tally_def)

subsection \<open>The weight of a history bounds its totals\<close>

lemma requests_on_append: "requests_on l (xs @ ys) = requests_on l xs @ requests_on l ys"
  by (simp add: requests_on_def List.map_filter_def)

lemma history_weight_append: "history_weight (xs @ ys) = history_weight xs + history_weight ys"
  by (simp add: history_weight_def)

lemma attempts_weight:
  "length (attempts_on u evs) + sum_list (map (unat \<circ> ran_micros) (attempts_on u evs)) \<le> history_weight evs"
proof (induction evs rule: rev_induct)
  case (snoc e evs)
  then show ?case by (cases e) (simp_all add: history_weight_append, simp_all add: history_weight_def)
qed (simp add: attempts_on_def)

lemma requests_weight:
  "length (requests_on l evs) + sum_list (map (\<lambda>a. fst (snd a)) (requests_on l evs)) +
   sum_list (map (\<lambda>a. unat (micros_u64 (snd (snd a)))) (requests_on l evs)) \<le> history_weight evs"
proof (induction evs rule: rev_induct)
  case (snoc e evs)
  then show ?case by (cases e) (simp_all add: history_weight_append, simp_all add: history_weight_def)
qed (simp add: requests_on_def)

subsection \<open>Histograms of a history\<close>

text \<open>The counts of a histogram over a history: how many entries are at most each bound.\<close>

definition at_most :: "u64 list \<Rightarrow> ('a \<Rightarrow> u64) \<Rightarrow> 'a list \<Rightarrow> u64 list" where
  "at_most bounds f h = map (\<lambda>b. tally (\<lambda>a. f a \<le> b) h) bounds"

lemma cumulative_at_most:
  assumes "sorted_wrt (<) bounds" "length bounds = n"
  shows "cumulative (map (\<lambda>j. tally (\<lambda>a. in_slot bounds j (f a)) h) [0..<n]) = at_most bounds f h"
proof (rule nth_equalityI)
  have l: "length (cumulative xs) = length xs" for xs by (simp add: cumulative_def)
  then show "length (cumulative (map (\<lambda>j. tally (\<lambda>a. in_slot bounds j (f a)) h) [0..<n])) = length (at_most bounds f h)"
    by (simp add: at_most_def assms(2))
  fix i
  assume "i < length (cumulative (map (\<lambda>j. tally (\<lambda>a. in_slot bounds j (f a)) h) [0..<n]))"
  with l have "i < n" by simp
  with cumulative_slots [OF assms this] show
    "cumulative (map (\<lambda>j. tally (\<lambda>a. in_slot bounds j (f a)) h) [0..<n]) ! i = at_most bounds f h ! i"
    by (simp add: at_most_def assms(2))
qed

lemma at_most_sorted:
  assumes "length h < 2 ^ 64" "sorted_wrt (<) bounds"
  shows "sorted (at_most bounds f h)"
proof -
  have "sorted bounds" using assms(2) by (rule strict_sorted_imp_sorted)
  moreover have "tally (\<lambda>a. f a \<le> b) h \<le> tally (\<lambda>a. f a \<le> c) h" if "b \<le> c" for b c
    using tally_le [of h "[]"] assms(1) that by auto
  ultimately show ?thesis unfolding at_most_def by (induction bounds) auto
qed

lemma at_most_bounded: "length h < 2 ^ 64 \<Longrightarrow> c \<in> set (at_most bounds f h) \<Longrightarrow> c \<le> of_nat (length h)"
  by (auto simp: at_most_def tally_le_length)

lemma bucket_zip_counts:
  "length bs = length cs \<Longrightarrow>
   map cumulative_count (map (\<lambda>(bound, c). \<lparr>upper_bound = g bound, cumulative_count = c\<rparr>) (zip bs cs)) = cs"
  by (induction bs cs rule: list_induct2) auto

lemma cumulates_zip:
  assumes "length bs = length cs" "sorted cs" "\<And>c. c \<in> set cs \<Longrightarrow> c \<le> n"
  shows "cumulates (Histogram \<lparr>sample_count = n, sample_sum = x,
    bucket_list = map (\<lambda>(bound, c). \<lparr>upper_bound = g bound, cumulative_count = c\<rparr>) (zip bs cs)\<rparr>)"
proof -
  have "\<forall>b \<in> set (map (\<lambda>(bound, c). \<lparr>upper_bound = g bound, cumulative_count = c\<rparr>) (zip bs cs)). cumulative_count b \<le> n"
    using assms(3) by (auto dest: set_zip_rightD)
  with assms(1,2) show ?thesis by (simp only: cumulates.simps histogram.select_convs bucket_zip_counts)
qed

lemma duration_histogram_cumulates:
  assumes "length h < 2 ^ 64" "bs = map (\<lambda>i. tally (\<lambda>a. in_slot BUCKET_BOUNDS_MICROS i (f a)) h) [0..<10]"
  shows "cumulates (m_value (duration_histogram_metric lp bs (of_nat (length h)) m))"
proof -
  have c: "cumulative bs = at_most BUCKET_BOUNDS_MICROS f h"
    unfolding assms(2) by (rule cumulative_at_most [OF bucket_bounds_increase length_bucket_bounds])
  have "length BUCKET_BOUNDS_MICROS = length (at_most BUCKET_BOUNDS_MICROS f h)" by (simp add: at_most_def)
  then show ?thesis
    unfolding duration_histogram_metric_def metric.select_convs c
    by (rule cumulates_zip) (rule at_most_sorted [OF assms(1) bucket_bounds_increase], rule at_most_bounded [OF assms(1)])
qed

subsection \<open>What the observer holds after a history\<close>

lemma run_events_shape: "observer_shape (set ids) (run_events evs (new_observer ids))"
  by (induction evs rule: rev_induct) (simp_all add: new_observer_shape apply_event_shape)

lemma set_of_lookup:
  assumes "distinct (map fst al)" "\<And>k. map_of al k = (if k \<in> K then Some (f k) else None)"
  shows "set al = (\<lambda>k. (k, f k)) ` K"
proof -
  have "(k, v) \<in> set al \<longleftrightarrow> k \<in> K \<and> v = f k" for k v
    using map_of_eq_Some_iff [OF assms(1)] assms(2) [of k] by (metis option.distinct(1) option.inject)
  then show ?thesis by auto
qed

lemma after_history:
  fixes ids evs defines "obs \<equiv> run_events evs (new_observer ids)"
  shows "set (snapshots obs) = (\<lambda>u. (u, history_snapshot (attempts_on u evs))) ` set ids"
    "set (failover_counts obs) = (\<lambda>u. (u, tally (\<lambda>e. e = Failover u) evs)) ` set ids"
    "set (hedge_snapshots obs) =
      (\<lambda>p. (p, \<lparr>started = tally (\<lambda>e. e = Hedge (fst p) (snd p)) evs, won = tally (\<lambda>e. e = HedgeWin (fst p) (snd p)) evs\<rparr>)) `
        {(u, v). u \<in> set ids \<and> v \<in> set ids \<and> u \<noteq> v}"
    "set (request_snapshots obs) = (\<lambda>l. (l, history_requests (requests_on l evs))) ` set method_labels"
    "coalesced obs = tally (\<lambda>e. e = Coalesced) evs"
proof -
  have shape: "distinct (map fst (stats obs))" "map fst (failovers obs) = map fst (stats obs)"
    "distinct (map fst (hedges obs))" "map fst (requests obs) = method_labels"
    using run_events_shape [of ids evs] by (simp_all add: observer_shape_def obs_def)
  note routing = observer_counts_routing [of evs ids, folded obs_def]
  have "set (stats obs) = (\<lambda>u. (u, history_snapshot (attempts_on u evs))) ` set ids"
    using shape(1) by (intro set_of_lookup) (simp_all add: stats_run_events obs_def)
  then show "set (snapshots obs) = (\<lambda>u. (u, history_snapshot (attempts_on u evs))) ` set ids"
    by (auto simp: snapshots_def rekey_def stats_snapshot_def)
  show "set (failover_counts obs) = (\<lambda>u. (u, tally (\<lambda>e. e = Failover u) evs)) ` set ids"
    unfolding failover_counts_def set_sort using routing by (intro set_of_lookup) (simp_all add: shape)
  let ?h = "\<lambda>p. \<lparr>started = tally (\<lambda>e. e = Hedge (fst p) (snd p)) evs, won = tally (\<lambda>e. e = HedgeWin (fst p) (snd p)) evs\<rparr>"
  have "map_of (hedges obs) p =
      (if p \<in> {(u, v). u \<in> set ids \<and> v \<in> set ids \<and> u \<noteq> v} then Some (?h p) else None)" for p
    using routing [of "fst p" "snd p"] by (cases p) (simp add: hedge_snapshot_of_def)
  from set_of_lookup [OF shape(3) this] show "set (hedge_snapshots obs) =
      (\<lambda>p. (p, \<lparr>started = tally (\<lambda>e. e = Hedge (fst p) (snd p)) evs, won = tally (\<lambda>e. e = HedgeWin (fst p) (snd p)) evs\<rparr>)) `
        {(u, v). u \<in> set ids \<and> v \<in> set ids \<and> u \<noteq> v}"
    unfolding hedge_snapshots_def set_sort .
  show "set (request_snapshots obs) = (\<lambda>l. (l, history_requests (requests_on l evs))) ` set method_labels"
    unfolding request_snapshots_def set_sort
    using observer_counts_requests [of evs ids] shape(4)
    by (intro set_of_lookup) (simp_all add: obs_def distinct_method_labels)
  show "coalesced obs = tally (\<lambda>e. e = Coalesced) evs" using routing by blast
qed

subsection \<open>Histograms between calls\<close>

lemma latency_cumulates:
  assumes "history_weight evs < 2 ^ 64"
  shows "cumulates (m_value (histogram_metric n (history_snapshot (attempts_on u evs))))"
proof -
  have l: "length (attempts_on u evs) < 2 ^ 64" using attempts_weight [of u evs] assms by linarith
  show ?thesis
    unfolding histogram_metric_def attempts_history
    by (rule duration_histogram_cumulates [OF l, of _ ran_micros]) (simp add: history_snapshot_def)
qed

lemma requests_counted: "answered (history_requests h) + failed (history_requests h) = of_nat (length h)"
proof -
  have "tally (\<lambda>_. True) h = tally fst h + tally (\<lambda>a. \<not> fst a) h" by (rule tally_split) simp
  then show ?thesis by (simp add: history_requests_def tally_def)
qed

lemma requests_cumulate:
  fixes l assumes "history_weight evs < 2 ^ 64"
  defines "r \<equiv> history_requests (requests_on l evs)"
  shows "cumulates (m_value (attempts_histogram_metric l r))"
    "cumulates (m_value (duration_histogram_metric lp (duration_buckets r) (answered r + failed r) m))"
proof -
  let ?h = "requests_on l evs"
  have h: "length ?h < 2 ^ 64" using requests_weight [of l evs] assms(1) by linarith
  have a: "cumulative (attempt_buckets r) = at_most ATTEMPT_BOUNDS (\<lambda>a. of_nat (fst (snd a))) ?h"
    using cumulative_at_most [OF attempt_bounds_increase length_attempt_bounds, of "\<lambda>a. of_nat (fst (snd a))" ?h]
    by (simp add: r_def history_requests_def del: upt_Suc upt_rec_numeral)
  show "cumulates (m_value (attempts_histogram_metric l r))"
    unfolding attempts_histogram_metric_def metric.select_convs a
    unfolding r_def requests_counted
    by (rule cumulates_zip) (simp add: at_most_def, rule at_most_sorted [OF h attempt_bounds_increase],
        rule at_most_bounded [OF h])
  show "cumulates (m_value (duration_histogram_metric lp (duration_buckets r) (answered r + failed r) m))"
    unfolding r_def requests_counted
    by (rule duration_histogram_cumulates [OF h, of _ "\<lambda>a. micros_u64 (snd (snd a))"])
      (simp add: history_requests_def)
qed

lemma active_after:
  "set (active_requests (run_events evs (new_observer ids))) =
     (\<lambda>l. (l, history_requests (requests_on l evs))) `
       {l \<in> set method_labels. 0 < answered (history_requests (requests_on l evs)) + failed (history_requests (requests_on l evs))}"
  by (auto simp: active_requests_def after_history(4))

lemma counters_cumulate: "(\<And>m. m \<in> set ms \<Longrightarrow> \<exists>a. m_value m = Counter a) \<Longrightarrow> family_cumulates (family name help kind ms)"
  by (force simp: family_cumulates_def family_def)

lemma families_cumulate:
  assumes w: "history_weight evs < 2 ^ 64"
  shows "list_all family_cumulates (collect (run_events evs (new_observer ids)))"
proof -
  let ?o = "run_events evs (new_observer ids)"
  have counters: "family_cumulates (family ATTEMPTS_NAME ATTEMPTS_HELP COUNTER
      (concat (map (\<lambda>(u, s). map (\<lambda>(outcome, value). counter_metric (as_str u) outcome value) (outcomes s)) (snapshots ?o))))"
    "family_cumulates (family HEDGES_NAME HEDGES_HELP COUNTER (per_pair ?o started))"
    "family_cumulates (family HEDGE_WINS_NAME HEDGE_WINS_HELP COUNTER (per_pair ?o won))"
    "family_cumulates (family FAILOVERS_NAME FAILOVERS_HELP COUNTER
      (map (\<lambda>(u, n). upstream_counter_metric (as_str u) n) (failover_counts ?o)))"
    "family_cumulates (family COALESCED_NAME COALESCED_HELP COUNTER [unlabelled_counter_metric (coalesced ?o)])"
    "family_cumulates (family REQUESTS_NAME REQUESTS_HELP COUNTER
      (concat (map (\<lambda>(m, r). [request_counter_metric m ''success'' (answered r),
         request_counter_metric m ''failed'' (failed r)]) (active_requests ?o))))"
    by (rule counters_cumulate; auto simp: metric_defs per_pair_def)+
  have "family_cumulates (family ATTEMPTS_DURATION_NAME ATTEMPTS_DURATION_HELP HISTOGRAM
      (map (\<lambda>(u, s). histogram_metric (as_str u) s) (snapshots ?o)))"
    using latency_cumulates [OF w] by (auto simp: family_cumulates_def family_def after_history(1))
  moreover have "family_cumulates (family REQUEST_ATTEMPTS_NAME REQUEST_ATTEMPTS_HELP HISTOGRAM
      (map (\<lambda>(m, r). attempts_histogram_metric m r) (active_requests ?o)))"
    using requests_cumulate(1) [OF w] by (auto simp: family_cumulates_def family_def active_after)
  moreover have "family_cumulates (family REQUEST_DURATION_NAME REQUEST_DURATION_HELP HISTOGRAM
      (map (\<lambda>(m, r). duration_histogram_metric (label ''method'' m) (duration_buckets r)
         (answered r + failed r) (rq_duration_micros_total r)) (active_requests ?o)))"
    using requests_cumulate(2) [OF w] by (auto simp: family_cumulates_def family_def active_after)
  ultimately show ?thesis using counters by (simp add: collect_def Let_def)
qed

subsection \<open>A scrape between calls\<close>

lemma snapshot_from_self: "snapshot_shape s \<Longrightarrow> snapshot_from (\<lambda>f. stat_value f s) = s"
  by (cases s) (auto simp: snapshot_from_def snapshot_shape_def intro: nth_equalityI)

lemma request_from_self: "request_shape r \<Longrightarrow> request_from (\<lambda>f. request_value f r) = r"
  by (cases r) (auto simp: request_from_def request_shape_def intro: nth_equalityI)

lemma observer_from_self:
  assumes "observer_shape ids obs"
  shows "observer_from (\<lambda>c. cell_value c obs) obs = obs"
proof -
  have d: "distinct (map fst (stats obs))" "distinct (map fst (failovers obs))" "distinct (map fst (hedges obs))"
    "distinct (map fst (requests obs))"
    using assms by (simp_all add: observer_shape_def distinct_method_labels)
  have "map (\<lambda>(u, _). (u, snapshot_from (\<lambda>f. value_at (stats obs) u (stat_value f)))) (stats obs) = stats obs"
    using assms d(1)
    by (intro map_idI) (auto simp: value_at_def observer_shape_def list_all_iff snapshot_from_self)
  moreover have "map (\<lambda>(m, _). (m, request_from (\<lambda>f. value_at (requests obs) m (request_value f)))) (requests obs) =
      requests obs"
    using assms d(4)
    by (intro map_idI) (auto simp: value_at_def observer_shape_def list_all_iff request_from_self)
  moreover have "map (\<lambda>((o', t), _). ((o', t), \<lparr>started = value_at (hedges obs) (o', t) started,
      won = value_at (hedges obs) (o', t) won\<rparr>)) (hedges obs) = hedges obs"
    using d(3) by (intro map_idI) (auto simp: value_at_def)
  moreover have "map (\<lambda>(u, _). (u, value_at (failovers obs) u (\<lambda>v. v))) (failovers obs) = failovers obs"
    using d(2) by (intro map_idI) (auto simp: value_at_def)
  ultimately show ?thesis by (simp add: observer_from_def)
qed

lemma entries_by_keys: "map (\<lambda>(k, _). (k, g k)) al = map (\<lambda>k. (k, g k)) (map fst al)"
  by (simp add: case_prod_beta)

lemma observer_from_keys:
  assumes "map fst (stats obs) = map fst (stats obs')" "map fst (hedges obs) = map fst (hedges obs')"
    "map fst (failovers obs) = map fst (failovers obs')" "map fst (requests obs) = map fst (requests obs')"
  shows "observer_from v obs = observer_from v obs'"
proof -
  have p: "map (\<lambda>((o', t), _). ((o', t), h o' t)) al = map (\<lambda>k. (k, h (fst k) (snd k))) (map fst al)" for h al
    by auto
  show ?thesis unfolding observer_from_def p entries_by_keys assms ..
qed

lemma seen_at_rest:
  assumes "mset ops = mset (concat (map (handler_ops (new_observer ids)) calls))"
  shows "seen_at (\<lambda>_. length ops) ops (new_observer ids) = run_events calls (new_observer ids)"
proof -
  let ?o = "run_events calls (new_observer ids)"
  have "run_ops ops (new_observer ids) = ?o" by (simp only: run_ops_perm [OF assms] run_handlers_ops)
  then have "seen_at (\<lambda>_. length ops) ops (new_observer ids) = observer_from (\<lambda>c. cell_value c ?o) (new_observer ids)"
    by (simp add: seen_at_def)
  also have "\<dots> = observer_from (\<lambda>c. cell_value c ?o) ?o"
    by (rule observer_from_keys) (simp_all only: run_events_keys)
  also have "\<dots> = ?o" by (rule observer_from_self [OF run_events_shape])
  finally show ?thesis .
qed

text \<open>
  C28: Scrapes keep the contract of Prometheus. Of any two scrapes of a process, taken while calls of
  the handlers run and their additions \<open>ops\<close> interleave in any way, the later has every family and every
  series of the earlier, and no counter, sum, count or bucket has gone back; all that is asked is that
  the second loads each counter no earlier than the first did. A scrape after the last call sees what the calls
  add up to, and in each of its histograms the buckets are cumulative and none exceeds the count. All
  as long as the totals of the history fit in a \<open>u64\<close>.
\<close>

theorem scrapes_never_go_back:
  assumes "mset ops = mset (concat (map (handler_ops (new_observer ids)) calls))"
    and "history_weight calls < 2 ^ 64" "\<And>c. t c \<le> t' c"
  shows "list_all2 carries_on (collect (seen_at t ops (new_observer ids)))
      (collect (seen_at t' ops (new_observer ids))) \<and>
    seen_at (\<lambda>_. length ops) ops (new_observer ids) = run_events calls (new_observer ids) \<and>
    list_all family_cumulates (collect (run_events calls (new_observer ids)))"
proof (intro conjI)
  have "total_of (\<lambda>c. aspect c = k) ops < 2 ^ 64" for k
    using ops_total [OF assms(1)] assms(2) by (rule le_less_trans)
  then have "aspects_fit ops" by (simp add: aspects_fit_def)
  moreover have "later t t'" using assms(3) by (simp add: later_def)
  ultimately show "list_all2 carries_on (collect (seen_at t ops (new_observer ids)))
      (collect (seen_at t' ops (new_observer ids)))" by (rule scrapes_carry_on)
qed (rule seen_at_rest [OF assms(1)], rule families_cumulate [OF assms(2)])

text \<open>Two calls interleave; the first scrape has seen some of the additions, the second all but the last.\<close>

theorem scrapes_never_go_back_witness:
  "let a = UpstreamId ''a''; b = UpstreamId ''b'';
       ops = (StatCell a AbandonedCount, 1) # (StartedCell a b, 1) # duration_ops (StatCell a) 7000000;
       torn = (\<lambda>c. if c = StatCell a DurationMicros then 3 else 1);
       obs = new_observer [a, b]
   in list_all2 carries_on (collect (seen_at torn ops obs)) (collect (seen_at (\<lambda>_. 3) ops obs)) \<and>
      length (collect (seen_at torn ops obs)) = 9"
proof -
  let ?a = "UpstreamId ''a''" and ?b = "UpstreamId ''b''"
  let ?ops = "(StatCell ?a AbandonedCount, 1) # (StartedCell ?a ?b, 1) # duration_ops (StatCell ?a) 7000000"
  let ?torn = "\<lambda>c. if c = StatCell ?a DurationMicros then 3 else (1::nat)"
  let ?calls = "[Abandoned ?a 7000000, Hedge ?a ?b]" and ?obs = "new_observer [?a, ?b]"
  have "mset ?ops = mset (concat (map (handler_ops ?obs) ?calls))" by simp
  moreover have "history_weight ?calls < 2 ^ 64" by (simp add: history_weight_def micros_u64_def)
  moreover have "?torn c \<le> (\<lambda>_. 3) c" for c by simp
  ultimately have "list_all2 carries_on (collect (seen_at ?torn ?ops ?obs)) (collect (seen_at (\<lambda>_. 3) ?ops ?obs))"
    using scrapes_never_go_back [of ?ops "[?a, ?b]" ?calls ?torn "\<lambda>_. 3"] by blast
  moreover have "set (snapshots (seen_at ?torn ?ops ?obs)) \<noteq> {}"
    unfolding seen_entries(1) using new_observer_keys [of "[?a, ?b]"] by auto
  then have "length (collect (seen_at ?torn ?ops ?obs)) = 9" by (auto simp: collect_def Let_def)
  ultimately show ?thesis unfolding Let_def by blast
qed

subsection \<open>A scrape in the middle of a handler\<close>

text \<open>
  Cumulative buckets are promised only between calls. Handlers add to the outcome first and to the
  bucket last, and a snapshot loads the outcomes first: a scrape in between may show a bucket above the
  count, until the next scrape.
\<close>

theorem torn_scrape:
  "\<not> cumulates (m_value (histogram_metric n (snapshot_of_loads (fst (accesses demo_accesses default_snapshot)))))"
proof -
  let ?after = "default_snapshot\<lparr>success := 1, duration_micros_total := 5, buckets := 1 # replicate 9 0\<rparr>"
  define vs where "vs = (Success, 0) # map (\<lambda>f. (f, stat_value f ?after)) (tl snapshot_loads)"
  have v: "value_in vs f = stat_value f ?after" if "f \<in> set (tl snapshot_loads)" "f \<noteq> Success" for f
    using value_in_map [OF that(1), of "\<lambda>f. stat_value f ?after"] that(2) by (simp add: vs_def value_in_def)
  have zero: "value_in vs Success = 0" by (simp add: vs_def value_in_def)
  have in_tl: "f \<in> set (tl snapshot_loads)" if "f \<in> {UnreachableCount, ReadFailedCount, ErrorStatusCount,
      RpcErrorCount, CallerFaultCount, AbandonedCount, Bucket 0}" for f
    using that by (auto simp: snapshot_loads_def upt_rec BUCKET_BOUNDS_MICROS_def)
  have a: "attempts (snapshot_of_loads vs) = 0"
    by (simp add: attempts_def outcomes_def snapshot_of_loads_def zero v in_tl default_snapshot_def)
  have b: "buckets (snapshot_of_loads vs) ! 0 = 1" "length (buckets (snapshot_of_loads vs)) = 10"
    by (simp_all add: snapshot_of_loads_def v in_tl default_snapshot_def del: upt_Suc)
  obtain cs where cs: "cumulative (buckets (snapshot_of_loads vs)) = 1 # cs"
    using b by (cases "buckets (snapshot_of_loads vs)") (auto simp: cumulative_def)
  have bounds: "BUCKET_BOUNDS_MICROS = hd BUCKET_BOUNDS_MICROS # tl BUCKET_BOUNDS_MICROS"
    by (simp add: BUCKET_BOUNDS_MICROS_def)
  have "\<not> cumulates (m_value (histogram_metric n (snapshot_of_loads vs)))"
    unfolding histogram_metric_def duration_histogram_metric_def a cs metric.select_convs
    by (subst bounds) simp
  then show ?thesis
    by (simp add: demo_accesses_run vs_def)
qed

end
