(* ===== verification/Liveness.thy ===== *)
theory Liveness
  imports Progress
begin

text \<open>
  Every client is answered, whoever schedules. Each step of the application other than the arrival of
  a request takes something from a bounded stock of work, to which an arrival adds a bounded amount; so
  a schedule in which requests stop arriving comes to its end, and it cannot end while somebody waits.
\<close>

subsection \<open>What the application has left to do\<close>

text \<open>
  A run not begun counts as one more than a run can have to do and its end. A client that waits for a
  flight may yet have to run on its own; an abandoned flight has its guard to run.
\<close>

fun active_work :: "core \<Rightarrow> active option \<Rightarrow> nat" where
  "active_work c None = 3 * max_attempt c + 2"
| "active_work c (Some a) = Suc (run_work c (ac_chain a) (ac_run a))"

fun client_work :: "core \<Rightarrow> stage \<Rightarrow> active option \<Rightarrow> nat" where
  "client_work c Alone r = active_work c r"
| "client_work c (Waiting h x) r = 3 * max_attempt c + 3"
| "client_work c st r = 0"

definition flight_work :: "core \<Rightarrow> reply flight \<Rightarrow> active option \<Rightarrow> nat" where
  "flight_work c f r =
     (if fl_phase f = Running then Suc (if 0 < fl_holders f then active_work c r else 0) else 0)"

fun owner_work :: "core \<Rightarrow> system \<Rightarrow> owner \<Rightarrow> nat" where
  "owner_work c s (OfFlight h) = flight_work c (flights_of (sys_service s) ! h) (flight_runs s h)"
| "owner_work c s (OfClient i) = client_work c (req_stage (clients (sys_service s) ! i)) (client_runs s i)"

definition owners :: "service \<Rightarrow> owner set" where
  "owners sv = OfFlight ` {..<length (flights_of sv)} \<union> OfClient ` {..<length (clients sv)}"

definition system_work :: "core \<Rightarrow> system \<Rightarrow> nat" where
  "system_work c s = (\<Sum>ow \<in> owners (sys_service s). owner_work c s ow)"

lemma finite_owners [simp]: "finite (owners sv)"
  by (simp add: owners_def)

lemma in_owners [simp]:
  "OfFlight h \<in> owners sv \<longleftrightarrow> h < length (flights_of sv)"
  "OfClient i \<in> owners sv \<longleftrightarrow> i < length (clients sv)"
  by (auto simp: owners_def)

lemma active_work_pos [simp]: "0 < active_work c r"
  by (cases r) simp_all

lemma may_begin_work:
  assumes "may_begin ow (sys_service s)"
  shows "ow \<in> owners (sys_service s)"
    and "owner_work c s ow = active_work c (run_of ow s) + (case ow of OfFlight h \<Rightarrow> 1 | OfClient i \<Rightarrow> 0)"
  using assms
  by (cases ow; auto simp: may_begin_iff live_flight_def live_def alone_def flight_work_def
      simp del: may_begin.simps)+

lemma unowned: "runs_owned s \<Longrightarrow> \<not> may_begin ow (sys_service s) \<Longrightarrow> run_of ow s = None"
  by (cases "run_of ow s") (auto simp: runs_owned_def)

lemma owner_work_same:
  "sys_service s' = sys_service s \<Longrightarrow> run_of ow s' = run_of ow s \<Longrightarrow> owner_work c s' ow = owner_work c s ow"
  by (cases ow) simp_all

lemma work_falls:
  assumes own: "owners (sys_service s') = owners (sys_service s)"
    and ow: "ow \<in> owners (sys_service s)" "owner_work c s' ow < owner_work c s ow"
    and le: "\<And>o'. o' \<in> owners (sys_service s) \<Longrightarrow> o' \<noteq> ow \<Longrightarrow> owner_work c s' o' \<le> owner_work c s o'"
  shows "system_work c s' < system_work c s"
  unfolding system_work_def own
proof (rule sum_strict_mono_ex1)
  show "\<forall>x \<in> owners (sys_service s). owner_work c s' x \<le> owner_work c s x"
    using ow(2) le by (metis less_imp_le)
  show "\<exists>x \<in> owners (sys_service s). owner_work c s' x < owner_work c s x" using ow by blast
qed simp

lemma runs_fall:
  assumes "sys_service s' = sys_service s" "may_begin ow (sys_service s)"
    and "active_work c (run_of ow s') < active_work c (run_of ow s)"
    and "\<And>o'. o' \<noteq> ow \<Longrightarrow> run_of o' s' = run_of o' s"
  shows "system_work c s' < system_work c s"
proof (rule work_falls)
  show "ow \<in> owners (sys_service s)" by (rule may_begin_work(1) [OF assms(2)])
  show "owner_work c s' ow < owner_work c s ow"
    using may_begin_work(2) [of ow s c] may_begin_work(2) [of ow s' c] assms(1-3) by simp
  show "owner_work c s' o' \<le> owner_work c s o'" if "o' \<noteq> ow" for o'
    using owner_work_same [of s' s o' c] assms(1,4) that by simp
qed (simp add: assms(1))

subsection \<open>Steps of the service\<close>

lemma reply_falls:
  assumes step: "service_step sj (reply_event ow reply) (sys_service s) = Some (sys_service s')"
    and runs: "\<And>o'. o' \<noteq> ow \<Longrightarrow> run_of o' s' = run_of o' s"
  shows "system_work c s' < system_work c s"
proof (cases ow)
  case (OfFlight h)
  with step obtain sf where sf: "shared (sys_service s) = Some sf" "h < length (flights sf)"
    "fl_phase (flights sf ! h) = Running" "0 < fl_holders (flights sf ! h)"
    and sv: "flights_of (sys_service s') = (flights sf)[h := (flights sf ! h)\<lparr>fl_phase := Finished reply\<rparr>]"
      "clients (sys_service s') = clients (sys_service s)"
    by (auto simp: with_flights_Some flights_of_def split: if_splits)
  have fl: "flights_of (sys_service s) = flights sf" using sf(1) by (simp add: flights_of_def)
  show ?thesis
  proof (rule work_falls [of _ _ ow])
    show "owner_work c s' o' \<le> owner_work c s o'" if "o' \<noteq> ow" for o'
      using runs [OF that] that OfFlight sv fl by (cases o') auto
  qed (use OfFlight sf fl sv in \<open>simp_all add: owners_def flight_work_def\<close>)
next
  case (OfClient i)
  with step have i: "i < length (clients (sys_service s))" "req_stage (clients (sys_service s) ! i) = Alone"
    and sv: "sys_service s' = set_stage i (Replied (reply_into_response reply)) (sys_service s)"
    by (auto split: if_splits)
  have fl: "flights_of (sys_service s') = flights_of (sys_service s)" by (simp add: sv flights_of_def)
  show ?thesis
  proof (rule work_falls [of _ _ ow])
    show "owner_work c s' o' \<le> owner_work c s o'" if "o' \<noteq> ow" for o'
      using runs [OF that] that OfClient sv fl by (cases o') (auto simp: nth_list_update)
  qed (use OfClient i fl sv in \<open>simp_all add: owners_def\<close>)
qed

lemma takes_falls:
  assumes step: "service_step sj (Takes i) (sys_service s) = Some (sys_service s')"
    and runs: "\<And>o'. run_of o' s' = run_of o' s" and own: "runs_owned s"
  shows "system_work c s' < system_work c s"
proof -
  from takes_step [OF step] obtain h r sf sf' reply where
    i: "i < length (clients (sys_service s))" "req_stage (clients (sys_service s) ! i) = Waiting h r"
    and sf: "shared (sys_service s) = Some sf" "h < length (flights sf)"
      "fl_phase (flights sf ! h) = Finished reply" "sf_step (HangUp h) sf = Some sf'"
    and sv: "sys_service s' = set_stage i
        (case fst (coalesce_end sj r (req_body (clients (sys_service s) ! i)) reply) of
           Some x \<Rightarrow> Replied (reply_into_response x) | None \<Rightarrow> Alone)
        ((sys_service s)\<lparr>shared := Some sf', service_log := service_log (sys_service s) @
           snd (coalesce_end sj r (req_body (clients (sys_service s) ! i)) reply)\<rparr>)" by blast
  define st where "st = (case fst (coalesce_end sj r (req_body (clients (sys_service s) ! i)) reply) of
    Some x \<Rightarrow> Replied (reply_into_response x) | None \<Rightarrow> Alone)"
  have st: "st = Alone \<or> (\<exists>x. st = Replied x)" by (simp add: st_def split: option.split)
  have sv: "shared (sys_service s') = Some sf'"
    "clients (sys_service s') = (clients (sys_service s))[i := (clients (sys_service s) ! i)\<lparr>req_stage := st\<rparr>]"
    by (simp_all add: sv st_def)
  have "run_of (OfClient i) s = None" by (rule unowned [OF own]) (use i in simp)
  with runs have none: "client_runs s' i = None" by (metis run_of.simps(2))
  have fl: "flights_of (sys_service s) = flights sf"
    "flights_of (sys_service s') = (flights sf)[h := (flights sf ! h)\<lparr>fl_holders := fl_holders (flights sf ! h) - 1\<rparr>]"
    using sf sv(1) by (auto simp: flights_of_def split: if_splits)
  show ?thesis
  proof (rule work_falls [of _ _ "OfClient i"])
    show "owner_work c s' (OfClient i) < owner_work c s (OfClient i)" using st sv(2) i none by auto
    show "owner_work c s' o' \<le> owner_work c s o'" if "o' \<noteq> OfClient i" for o'
      using runs [of o'] that fl sf(2,3) sv(2) by (cases o') (auto simp: nth_list_update flight_work_def)
  qed (use i fl sv(2) in \<open>simp_all add: owners_def\<close>)
qed

lemma leaves_falls:
  assumes step: "service_step sj (Leaves i) (sys_service s) = Some sv"
  shows "system_work c (hung_up i t sv s) < system_work c s"
proof -
  let ?s = "hung_up i t sv s" and ?sv = "sys_service s"
  from step have i: "i < length (clients ?sv)" by (simp split: if_splits)
  have cl: "clients sv = (clients ?sv)[i := (clients ?sv ! i)\<lparr>req_stage := Gone\<rparr>]"
    using step by (auto simp: with_flights_Some simp del: sf_step.simps split: if_splits stage.splits)
  show ?thesis
  proof (cases "req_stage (clients ?sv ! i)")
    case Alone
    with step i have fl: "flights_of sv = flights_of ?sv" by (auto simp: flights_of_def)
    show ?thesis
    proof (rule work_falls [of _ _ "OfClient i"])
      show "owner_work c ?s o' \<le> owner_work c s o'" if "o' \<noteq> OfClient i" for o'
        using run_of_hung_up [of o' i t sv s] that Alone cl fl by (cases o') (auto simp: nth_list_update)
    qed (use i cl fl Alone in \<open>simp_all add: owners_def\<close>)
  next
    case (Waiting h r)
    with step i obtain sf where sf: "shared ?sv = Some sf" "h < length (flights sf)" "0 < fl_holders (flights sf ! h)"
      "shared sv = Some (update_flight h (\<lambda>f. f\<lparr>fl_holders := fl_holders f - 1\<rparr>) sf)"
      by (auto simp: with_flights_Some split: if_splits)
    then have fl: "flights_of ?sv = flights sf"
      "flights_of sv = (flights sf)[h := (flights sf ! h)\<lparr>fl_holders := fl_holders (flights sf ! h) - 1\<rparr>]"
      by (simp_all add: flights_of_def)
    show ?thesis
    proof (rule work_falls [of _ _ "OfClient i"])
      show "owner_work c ?s o' \<le> owner_work c s o'" if "o' \<noteq> OfClient i" for o'
        using run_of_hung_up [of o' i t sv s] that Waiting cl fl sf
        by (cases o') (auto simp: nth_list_update flight_work_def flight_dead_def)
    qed (use i cl fl Waiting in \<open>simp_all add: owners_def\<close>)
  qed (use step i in simp_all)
qed

lemma guard_falls:
  assumes step: "service_step sj (GuardRuns h) (sys_service s) = Some sv"
  shows "system_work c (s\<lparr>sys_service := sv\<rparr>) < system_work c s"
proof -
  from step obtain sf where sf: "shared (sys_service s) = Some sf" "h < length (flights sf)"
    "fl_phase (flights sf ! h) = Running" "fl_holders (flights sf ! h) = 0"
    and sv: "flights_of sv = (flights sf)[h := (flights sf ! h)\<lparr>fl_phase := Freed\<rparr>]"
      "clients sv = clients (sys_service s)"
    by (auto simp: with_flights_Some flights_of_def split: if_splits)
  have fl: "flights_of (sys_service s) = flights sf" using sf(1) by (simp add: flights_of_def)
  show ?thesis
  proof (rule work_falls [of _ _ "OfFlight h"])
    show "owner_work c (s\<lparr>sys_service := sv\<rparr>) o' \<le> owner_work c s o'" if "o' \<noteq> OfFlight h" for o'
      using that sv fl by (cases o') auto
  qed (use sf fl sv in \<open>simp_all add: owners_def flight_work_def\<close>)
qed

subsection \<open>An arrival\<close>

lemma work_of_new:
  assumes "owners (sys_service s') = new \<union> owners (sys_service s)" "new \<inter> owners (sys_service s) = {}" "finite new"
    and "\<And>ow. ow \<in> owners (sys_service s) \<Longrightarrow> owner_work c s' ow = owner_work c s ow"
  shows "system_work c s' = (\<Sum>ow \<in> new. owner_work c s' ow) + system_work c s"
  using assms by (simp add: system_work_def sum.union_disjoint)

lemma owners_more:
  assumes "length (flights_of sv') = length (flights_of sv)" "length (clients sv') = Suc (length (clients sv))"
  shows "owners sv' = {OfClient (length (clients sv))} \<union> owners sv"
  using assms by (auto simp: owners_def lessThan_Suc)

lemma arrive_adds:
  assumes own: "runs_owned s" and inv: "service_inv sj (sys_service s)"
  shows "system_work c (s\<lparr>sys_service := arrive sj me body (sys_service s)\<rparr>) \<le> system_work c s + (6 * max_attempt c + 6)"
    (is "system_work c ?s \<le> _")
proof -
  let ?sv = "sys_service s" and ?n = "length (clients (sys_service s))"
  have none: "client_runs s ?n = None" using unowned [OF own, of "OfClient ?n"] by simp
  show ?thesis
  proof (cases rule: arrive_cases [of sj me body ?sv])
    case (idle st)
    have "system_work c ?s = (\<Sum>ow \<in> {OfClient ?n}. owner_work c ?s ow) + system_work c s"
    proof (rule work_of_new)
      show "owners (sys_service ?s) = {OfClient ?n} \<union> owners ?sv"
        using idle(1) by (simp add: flights_of_def owners_more)
      show "owner_work c ?s ow = owner_work c s ow" if "ow \<in> owners ?sv" for ow
        using that idle(1) by (cases ow) (auto simp: flights_of_def nth_append)
    qed simp_all
    moreover have "client_work c st None \<le> 3 * max_attempt c + 2" using idle(2) by (cases st) simp_all
    ultimately show ?thesis using idle(1) none by simp
  next
    case (join sf sf' key h r)
    have cl: "clients (arrive sj me body ?sv) = clients ?sv @ [\<lparr>req_body = body, req_uuid = me, req_stage = Waiting h r\<rparr>]"
      "flights_of (arrive sj me body ?sv) = flights sf'" "flights_of ?sv = flights sf"
      using join(1,5) by (simp_all add: flights_of_def)
    show ?thesis
    proof (cases "\<exists>e. map_of (entries sf) key = Some e \<and> 0 < fl_holders (flights sf ! entry_flight e)")
      case True
      then obtain e where e: "map_of (entries sf) key = Some e" "0 < fl_holders (flights sf ! entry_flight e)" by blast
      define g where "g = entry_flight e"
      from join_live [OF e, of me] join(4)
      have fl: "flights sf' = (flights sf)[g := (flights sf ! g)\<lparr>fl_holders := fl_holders (flights sf ! g) + 1\<rparr>]"
        by (auto simp: g_def)
      have "system_work c ?s = (\<Sum>ow \<in> {OfClient ?n}. owner_work c ?s ow) + system_work c s"
      proof (rule work_of_new)
        show "owners (sys_service ?s) = {OfClient ?n} \<union> owners ?sv" by (rule owners_more) (simp_all add: cl fl)
        show "owner_work c ?s ow = owner_work c s ow" if "ow \<in> owners ?sv" for ow
          using that cl fl e(2)
          by (cases ow) (auto simp: nth_append nth_update_in flight_work_def g_def [symmetric])
      qed simp_all
      then show ?thesis by (simp add: cl)
    next
      case False
      have "flights sf' = flights sf @ [new_flight sf key me]"
        using join_new [of sf key me] False join(4) by auto
      note fl = cl this
      have f_none: "flight_runs s (length (flights sf)) = None"
        using unowned [OF own, of "OfFlight (length (flights sf))"] join(1) by simp
      have "system_work c ?s = (\<Sum>ow \<in> {OfClient ?n, OfFlight (length (flights sf))}. owner_work c ?s ow) + system_work c s"
      proof (rule work_of_new)
        show "owners (sys_service ?s) = {OfClient ?n, OfFlight (length (flights sf))} \<union> owners ?sv"
          by (auto simp: owners_def fl lessThan_Suc)
        show "owner_work c ?s ow = owner_work c s ow" if "ow \<in> owners ?sv" for ow
          using that fl by (cases ow) (auto simp: nth_append)
      qed (simp_all add: fl)
      then show ?thesis by (simp add: fl f_none flight_work_def new_flight_def)
    qed
  qed
qed

subsection \<open>Every step is paid for\<close>

fun is_arrival :: "system_event \<Rightarrow> bool" where
  "is_arrival (Arrives me body) = True"
| "is_arrival _ = False"

text \<open>What moves a request on: all but the arrival of one and a refresh of the ranking.\<close>

fun settles :: "system_event \<Rightarrow> bool" where
  "settles (Arrives me body) = False"
| "settles (Refreshes seen) = False"
| "settles _ = True"

lemma begin_falls:
  assumes may: "may_begin ow (sys_service s)" "run_of ow s = None" and c: "0 < max_attempt c"
    and s': "s' = set_run ow (Some ac) (s\<lparr>sys_decider := d\<rparr>)" and ac: "ac_run ac = run_begin c m (ac_chain ac) t"
  shows "system_work c s' < system_work c s"
proof (rule runs_fall [of _ _ ow])
  have "run_work c (ac_chain ac) (ac_run ac) \<le> 3 * max_attempt c"
    using run_begin_work [OF c, of "ac_chain ac" m t] by (simp add: ac race_limit_def)
  then show "active_work c (run_of ow s') < active_work c (run_of ow s)" by (simp add: s' may(2))
qed (use may(1) in \<open>simp_all add: s'\<close>)

lemma run_falls:
  assumes own: "runs_owned s" and ac: "run_of ow s = Some ac" and ok: "run_ok c (ac_chain ac) (ac_run ac)"
    and step: "run_step sj c (ac_chain ac) ev (ac_run ac) = Some r"
  shows "system_work c (tell calls (set_run ow (Some (ac\<lparr>ac_run := r\<rparr>)) s)) < system_work c s"
proof (rule runs_fall [of _ _ ow])
  show "may_begin ow (sys_service s)" using own ac by (auto simp: runs_owned_def)
  show "active_work c (run_of ow (tell calls (set_run ow (Some (ac\<lparr>ac_run := r\<rparr>)) s))) < active_work c (run_of ow s)"
    using run_step_work [OF ok step] by (simp add: ac)
qed simp_all

definition paying :: "application_state \<Rightarrow> system_event \<Rightarrow> nat" where
  "paying a ev = (if is_arrival ev then 6 * max_attempt (pl_core (app_pipeline a)) + 6 else 0)"

lemma system_step_paid:
  assumes reach: "system_reach sj a s" and app: "app_ok a" and n: "length (flights_of (sys_service s)) \<le> 2 ^ 64"
    and step: "system_step sj ev s = Some s'"
  shows "system_work (pl_core (app_pipeline a)) s' + (if settles ev then 1 else 0) \<le>
    system_work (pl_core (app_pipeline a)) s + paying a ev"
proof -
  let ?c = "pl_core (app_pipeline a)"
  from system_reach_ok [OF reach app] have ok: "sys_ok sj a s" by blast
  then have core: "sys_core s = ?c" by (simp add: sys_ok_def)
  from system_reach_earned [OF reach app n] have own: "runs_owned s" by (simp add: sys_earned_def)
  have falls: ?thesis if "system_work ?c s' < system_work ?c s" using that by (simp add: Suc_le_eq)
  show ?thesis
  proof (cases ev)
    case (Arrives me body)
    with step arrive_adds [OF own system_reach_inv [OF reach app n]] show ?thesis by (auto simp: paying_def)
  next
    case (RunBegins ow r rcv t)
    with step have "may_begin ow (sys_service s)" "run_of ow s = None"
      by (simp_all split: if_splits del: may_begin.simps)
    then show ?thesis
      using RunBegins step app
      by (intro falls) (auto simp: Let_def core app_ok_def split: if_splits simp del: may_begin.simps
          intro!: begin_falls)
  next
    case (RunSteps ow rev)
    with step obtain ac r calls where ac: "run_of ow s = Some ac"
      and r: "run_step sj ?c (ac_chain ac) rev (ac_run ac) = Some r"
      and s': "s' = tell calls (set_run ow (Some (ac\<lparr>ac_run := r\<rparr>)) s)" by (auto simp: core split: option.splits)
    from sys_ok_run [OF ok ac] have "run_ok ?c (ac_chain ac) (ac_run ac)"
      using run_reach_ok by (auto simp: run_good_def)
    from run_falls [OF own ac this r] show ?thesis by (intro falls) (simp only: s')
  next
    case (RunEnds ow)
    with system_service_step [OF step] obtain reply where
      st: "service_step sj (reply_event ow reply) (sys_service s) = Some (sys_service s')" by auto
    have "run_of o' s' = run_of o' s" if "o' \<noteq> ow" for o'
      using step that unfolding RunEnds by (auto split: option.splits prod.splits)
    from reply_falls [OF st this] show ?thesis by (rule falls)
  next
    case (TakesReply i)
    with system_service_step [OF step] have
      st: "service_step sj (Takes i) (sys_service s) = Some (sys_service s')" by (simp del: service_step.simps)
    have "run_of o' s' = run_of o' s" for o'
      using step unfolding TakesReply by (auto simp del: service_step.simps)
    from takes_falls [OF st this own] show ?thesis by (rule falls)
  next
    case (HangsUp i t)
    with step leaves_falls show ?thesis by (intro falls) (auto simp del: service_step.simps)
  next
    case (GuardEvicts h)
    with step guard_falls show ?thesis by (intro falls) (auto simp del: service_step.simps)
  next
    case (Refreshes seen)
    with step have "sys_service s' = sys_service s" "run_of ow s' = run_of ow s" for ow
      by (auto split: if_splits)
    then have "system_work ?c s' = system_work ?c s"
      by (simp add: system_work_def owner_work_same [of s' s])
    then show ?thesis using Refreshes by simp
  qed
qed

lemma system_exec_steps: "system_exec sj evs s = steps (system_step sj) evs s"
proof (induction evs arbitrary: s)
  case (Cons ev evs)
  then show ?case by (cases "system_step sj ev s") (simp_all del: system_step.simps)
qed simp

interpretation system_paid: paid_steps "system_step sj" "\<lambda>s. system_reach sj a s \<and> app_ok a"
    "\<lambda>s. length (flights_of (sys_service s)) \<le> 2 ^ 64" "system_work (pl_core (app_pipeline a))"
    "\<lambda>ev. if settles ev then 1 else 0" "paying a" for sj a
proof (unfold_locales, goal_cases)
  case (1 s ev s')
  then show ?case using system_next by blast
next
  case (2 ev s s')
  then show ?case using system_flights_grow order_trans by blast
next
  case (3 s ev s')
  then show ?case using system_step_paid by blast
qed

subsection \<open>Everyone is answered\<close>

lemma sum_list_if: "sum_list (map (\<lambda>x. if P x then k else (0 :: nat)) xs) = k * length (filter P xs)"
  by (induction xs) simp_all

lemma start_work: "app_ok a \<Longrightarrow> system_work c (system_start a) = 0"
  by (auto simp: system_work_def owners_def system_start_def flights_of_def app_ok_def singleflight_default_def)

lemma pending_goes_on:
  assumes reach: "system_reach sj a s" and app: "app_ok a" and n: "length (flights_of (sys_service s)) \<le> 2 ^ 64"
    and i: "i \<in> pending_clients (sys_service s)"
  shows "\<exists>ev s'. goes_on ev \<and> system_step sj ev s = Some s'"
proof -
  from i have p: "i < length (clients (sys_service s))" "pending (req_stage (clients (sys_service s) ! i))"
    by (simp_all add: pending_clients_def)
  then have "can_be_answered sj i s" by (intro pending_answered [OF reach app n]) (simp_all add: pending_def)
  then obtain evs s' resp where evs: "list_all goes_on evs" "system_exec sj evs s = Some s'"
    "req_stage (clients (sys_service s') ! i) = Replied resp" by (auto simp: can_be_answered_def leads_to_def)
  with p(2) have "evs \<noteq> []" by (auto simp: pending_def)
  then obtain ev more where "evs = ev # more" by (cases evs) simp_all
  with evs show ?thesis by (auto simp: bind_eq_Some_conv simp del: system_step.simps)
qed

lemma settled_stage: "\<not> pending st \<Longrightarrow> st = Gone \<or> (\<exists>resp. st = Replied resp)"
  by (cases st) (simp_all add: pending_def)

text \<open>
  C5: Everyone is answered, whoever schedules. Take any execution of the application built from
  validated settings. Its steps other than arrivals and refreshes are at most \<open>6 * max_attempt + 6\<close> per
  request that arrived. Once no step of a run and no taking of a reply is possible any more, every client
  has its answer or hung up, and no run is left. So when requests stop arriving, and calls return and
  timers fire, all that are left are answered after boundedly many steps, in whichever order these come.
\<close>

theorem everyone_is_answered:
  assumes "validate_settings hp st = Inr ()" "app_build hp bind hc st = Inr a"
    and "system_exec sj evs (system_start a) = Some s" "length (flights_of (sys_service s)) \<le> 2 ^ 64"
  shows "length (filter settles evs) \<le> (6 * max_attempt (sys_core s) + 6) * length (filter is_arrival evs) \<and>
    ((\<forall>ev. goes_on ev \<longrightarrow> system_step sj ev s = None) \<longrightarrow>
       (\<forall>q \<in> set (clients (sys_service s)). req_stage q = Gone \<or> (\<exists>resp. req_stage q = Replied resp)) \<and>
       (\<forall>ow. run_of ow s = None))"
proof -
  note app = app_build_ok(1) [OF assms(2,1)]
  have reach: "system_reach sj a s" by (rule system_exec_reach [OF assms(3) system_begin])
  from system_reach_ok [OF reach app] have core: "sys_core s = pl_core (app_pipeline a)" by (simp add: sys_ok_def)
  have "system_exec sj evs (system_start a) = steps (system_step sj) evs (system_start a)" by (rule system_exec_steps)
  with system_paid.steps_paid [of sj evs "system_start a" s a] assms(3,4) app system_begin [of sj a]
  have "length (filter settles evs) \<le> (6 * max_attempt (sys_core s) + 6) * length (filter is_arrival evs)"
    by (simp add: start_work sum_list_if paying_def [abs_def] core del: system_exec.simps)
  moreover have "pending_clients (sys_service s) = {}" if "\<forall>ev. goes_on ev \<longrightarrow> system_step sj ev s = None"
  proof (rule ccontr)
    assume "pending_clients (sys_service s) \<noteq> {}"
    then obtain i where "i \<in> pending_clients (sys_service s)" by blast
    from pending_goes_on [OF reach app assms(4) this] that show False by fastforce
  qed
  moreover have "req_stage q = Gone \<or> (\<exists>resp. req_stage q = Replied resp)"
    if none: "pending_clients (sys_service s) = {}" and q: "q \<in> set (clients (sys_service s))" for q
  proof -
    from q obtain i where "i < length (clients (sys_service s))" "clients (sys_service s) ! i = q"
      by (auto simp: in_set_conv_nth)
    with none have "\<not> pending (req_stage q)" by (auto simp: pending_clients_def)
    then show ?thesis by (rule settled_stage)
  qed
  moreover have "run_of ow s = None" if "pending_clients (sys_service s) = {}" for ow
    using no_runs_left [OF system_reach_inv [OF reach app assms(4)] _ that] system_reach_earned [OF reach app assms(4)]
    by (simp add: sys_earned_def)
  ultimately show ?thesis by blast
qed

text \<open>
  At the concrete schedule of the theory \<open>Earned\<close>, and after two arrivals and a hang-up, where a step is
  still to be taken.
\<close>

theorem everyone_is_answered_witness:
  "length (filter settles demo_schedule) \<le> 48 \<and>
   (\<exists>s ev s'. system_exec demo_serde [Arrives 1 ''{eth_call'', Arrives 2 ''{eth_call'', HangsUp 0 0]
      (system_start demo_app) = Some s \<and> goes_on ev \<and> system_step demo_serde ev s = Some s')"
proof
  obtain s where s: "system_exec demo_serde demo_schedule (system_start demo_app) = Some s"
    and n: "length (flights_of (sys_service s)) \<le> 2 ^ 64" using demo_live by auto
  have "app_ok demo_app" by (rule app_build_ok(1) [OF demo_app_build demo_live_settings_valid])
  from system_reach_ok [OF system_exec_reach [OF s system_begin] this]
  have "max_attempt (sys_core s) = 3" by (simp add: sys_ok_def demo_app_def)
  moreover have "length (filter is_arrival demo_schedule) = 2" by (simp add: demo_schedule_def)
  ultimately show "length (filter settles demo_schedule) \<le> 48"
    using everyone_is_answered [OF demo_live_settings_valid demo_app_build s n] by simp
next
  obtain s where s: "system_exec demo_serde [Arrives 1 ''{eth_call'', Arrives 2 ''{eth_call'', HangsUp 0 0]
      (system_start demo_app) = Some s"
    and c: "length (flights_of (sys_service s)) \<le> 2 ^ 64" "length (clients (sys_service s)) = 2"
      "req_stage (clients (sys_service s) ! 1) = Waiting 0 (Follower 1)"
    using demo_waiting by auto
  have "clients (sys_service s) ! 1 \<in> set (clients (sys_service s))" using c(2) by simp
  with c(3) everyone_is_answered [OF demo_live_settings_valid demo_app_build s c(1)]
  have "\<exists>ev. goes_on ev \<and> system_step demo_serde ev s \<noteq> None" by fastforce
  with s show "\<exists>s ev s'. system_exec demo_serde [Arrives 1 ''{eth_call'', Arrives 2 ''{eth_call'', HangsUp 0 0]
      (system_start demo_app) = Some s \<and> goes_on ev \<and> system_step demo_serde ev s = Some s'" by blast
qed

end
