(* ===== verification/Spec2Isabelle.thy ===== *)
theory Spec2Isabelle
  imports Server Scrapes Liveness
begin

text \<open>
  A model of rpc-plus-plus, a JSON-RPC proxy for Ethereum nodes written in Rust, with the theorems
  that make its parts correct.

  \<^bold>\<open>The program.\<close> A request body reaches the pipeline (\<open>src/proxy/mod.rs\<close>). The pipeline looks at its
  shape and method (\<open>src/jsonrpc/mod.rs\<close>), may let it share the running flight of an equal request
  (\<open>src/proxy/singleflight\<close>), asks the decider (\<open>src/decider.rs\<close>) for a chain of upstreams, and sends
  it along the chain: one after the other with a pause (\<open>Core::walk\<close>), or raced, where a slow call is
  overtaken by a second one (\<open>src/proxy/hedge.rs\<close>), or, for a method that is not known to be a pure
  read under hedged dispatch, once. Every attempt is made by the upstream client (\<open>src/upstream\<close>) and
  recorded on the observer (\<open>src/observer\<close>), whose counters the Prometheus collector renders and the
  refreshers of two deciders read back to rank the upstreams over a sliding window. The settings
  (\<open>src/config.rs\<close>) choose and size all of it, \<open>src/app.rs\<close> wires it together, and \<open>src/main.rs\<close> runs
  it until a signal.

  \<^bold>\<open>The theories\<close>, in the order of their imports.

  \<^item> \<open>Prelude\<close>: machine types and the parts of the Rust standard library the program uses.
  \<^item> \<open>F64\<close>: the double arithmetic of scores and histogram bounds.
  \<^item> \<open>Jsonrpc\<close>: \<open>src/jsonrpc/mod.rs\<close>. Shape, faults, methods, deduplication key, ids of a body.
  \<^item> \<open>Settings\<close>, \<open>Config\<close>, \<open>Loading\<close>: \<open>src/config.rs\<close>. The settings records; expansion and validation; the
    file, the defaults and the reading of the merged tree.
  \<^item> \<open>Upstream\<close>: \<open>src/upstream/mod.rs\<close>, \<open>src/upstream/call.rs\<close>. Building the upstreams, one call and its errors.
  \<^item> \<open>Snapshot\<close>, \<open>Observer\<close>: \<open>src/observer/snapshot.rs\<close>, \<open>src/observer/mod.rs\<close>. Counters, their
    differences and scores; the handlers that count.
  \<^item> \<open>Atomics\<close>: the same handlers as the additions to single counters they are made of.
  \<^item> \<open>TornReads\<close>: the loads of \<open>UpstreamStats::snapshot\<close> between such additions.
  \<^item> \<open>Prometheus\<close>: \<open>src/observer/prometheus.rs\<close>. The metric families.
  \<^item> \<open>Scraping\<close>, \<open>Scrapes\<close>: two scrapes of one process, taken while handlers run, compared series by
    series.
  \<^item> \<open>Decider\<close>: \<open>src/decider.rs\<close> and the three \<open>decide\<close> functions. The trait is the locale
    \<open>decider_contract\<close>, interpreted on each of the three and, in \<open>App\<close>, on the configured one.
  \<^item> \<open>Ranking\<close>, \<open>Refresher\<close>: \<open>src/decider/window.rs\<close> and the two \<open>refresher.rs\<close>, with the constructors
    of the deciders they rank for. What the two share is the locale \<open>margin_ranking\<close>.
  \<^item> \<open>Core\<close>: \<open>src/proxy/attempt.rs\<close>, \<open>src/proxy/reply.rs\<close> and the sequential half of
    \<open>src/proxy/mod.rs\<close>: one attempt, the walk, the single send.
  \<^item> \<open>Hedge\<close>: \<open>src/proxy/hedge.rs\<close> and \<open>Core::race\<close>. The race as a state machine.
  \<^item> \<open>Singleflight\<close>: \<open>src/proxy/singleflight\<close>. The map of flights as a state machine.
  \<^item> \<open>Pipeline\<close>, \<open>Service\<close>: the rest of \<open>src/proxy/mod.rs\<close>, with the handlers of \<open>src/http/rpc.rs\<close> and
    \<open>src/http/healthz.rs\<close>: one run, and many requests sharing flights; what they promise.
  \<^item> \<open>Walker\<close>, \<open>Dispatch\<close>: the runs of \<open>src/proxy/mod.rs\<close> (\<open>run\<close>, \<open>Core::walk\<close>, \<open>Core::send_once\<close>,
    \<open>Core::race\<close>) as step machines from one await to the next, which can be dropped at any await.
  \<^item> \<open>App\<close>: \<open>src/app.rs\<close>, \<open>src/http/cors.rs\<close>. The configured decider and the start of the program.
  \<^item> \<open>Deciding\<close>: the two accesses of a \<open>decide\<close>, of any number of handlers, between refreshes.
  \<^item> \<open>ServiceSteps\<close>, \<open>System\<close>: the running application. \<open>System\<close> composes the service, the runs, the
    decider, its refresher and the observer; each of its steps is one of the service or none.
  \<^item> \<open>Answers\<close>, \<open>Earned\<close>: what it promises in every state it can reach: of its pool and observer, and
    of its answers.
  \<^item> \<open>Potential\<close>, \<open>Progress\<close>, \<open>Liveness\<close>: that it goes on. The locale \<open>paid_steps\<close> bounds a schedule by
    a potential of the state; it is interpreted on the runs and on the whole application.
  \<^item> \<open>Server\<close>: \<open>src/main.rs\<close>, \<open>src/telemetry.rs\<close>, \<open>src/http\<close> and \<open>run_until_stopped\<close>. The routes and
    the life of the process.

  \<^bold>\<open>State, and what chooses.\<close> A struct is a record and an enum a datatype. An error is the \<open>Inl\<close> of a
  sum. Atomic counters are words of 64 bits that wrap. A decider's state is passed through \<open>decide\<close>.
  The observer is only ever written to by the pipeline, so the pipeline's operations append the calls
  they make on it to a log, and \<open>run_events\<close> replays a log on an observer. What the network does with
  a call is an argument (\<open>network\<close> for a walk). In a race and in the shared service, the runtime chooses
  which future runs next, the network which call returns, and the client when to hang up: these
  choices are the events of a step function (\<open>race_step\<close>, \<open>sf_step\<close>, \<open>service_step\<close>), and a property
  of every reachable state holds for every schedule. Each step is one stretch of code between two
  awaits, or one critical section of the lock on the map of flights. In \<open>System\<close> the events name the
  owner of the run that moves: a flight, or a client that runs on its own. A client that hangs up drops
  its run, or its flight's when it held the last handle (\<open>hung_up\<close>): a dropped run does no more than
  the destructor of the attempts it had open, which reports them as abandoned. The refresher reads
  the observer while handlers write to it: a refresh may see any counters of the observer's upstreams
  (\<open>may_see\<close>), and a run that begins may decide on a ranking that was just replaced (\<open>may_load\<close>). Two fields of the state
  are not the program's: the runs that ended and the calls made on the observer, kept for the
  properties to speak of.

  \<^bold>\<open>What the lemmas show.\<close>

  \<^item> Dispatch: a walk is exactly the visits its chain determines and keeps its bounds; a race keeps its
    bounds on every schedule, returns what the calls it made allow, waits before a hedge, ends, and is
    a walk without the pause when no hedge is due; a write is sent once under hedged dispatch; a run
    reports itself once, as its last recorded call decides; every upstream tried is a configured one.
  \<^item> Sharing: at most one live flight per key, exact eviction, no leak of map entries; only equal
    questions share, a follower is answered under its own id, and nobody waits for a flight that
    cannot complete.
  \<^item> Deciding: what a window covers, when a refresher changes its leader, that a ranking stays a
    permutation of the pool, and how often each upstream leads, of decisions in
    a row and of concurrent ones.
  \<^item> Observing: every counter is what counting the history of events gives, whichever way the
    handlers interleave; a reader sees each counter as it was at some moment while it read; the
    collector emits what it advertises, and between two scrapes, whenever they are taken, no series
    goes back; buckets are cumulative between calls (a scrape in the middle of a handler may show a
    bucket above its count: \<open>torn_scrape\<close>).
  \<^item> Calls and settings: which responses succeed and exactly which error a failure becomes; what validation
    accepts, origins included; settings written as a tree are read back; validated settings start.
  \<^item> Cancellation: however far a run got when it is dropped, each attempt it began is reported once; a
    run has a bounded number of steps and can always take one until it ends.
  \<^item> The whole: every answer was earned by a run for the client's own question on configured upstreams;
    the observer was told about configured upstreams only and its counters are those of what it was
    told; a refresh never panics; every client is answered after boundedly many steps per request,
    whoever schedules, and can be by steps of runs alone, so that a process that got its signal can
    exit. A request whose run was dropped is not counted, which the documentation does not say
    (\<open>Dispatch.no_attempt_lost\<close>).

  \<^bold>\<open>Bounds.\<close> A flight's number is a \<open>u64\<close> that wraps; the properties of flights hold while no more than
  \<open>2 ^ 64\<close> have been made. A race takes at most three steps per upstream its limit allows (a launch is
  followed by one first poll and one answer, and each timer launches), so the loop needs no fuel. The
  exact counts hold modulo \<open>2 ^ 64\<close>, as the counters do; rates and scores, which compare counters, are
  stated for sums below \<open>2 ^ 64\<close>. A sum of \<open>u64\<close> is the one of a release build, which wraps. A double
  is the rational it denotes, rounded to 53 bits after every operation, its exponent unbounded: the
  values that occur are far inside the normal range. A time is a number of nanoseconds without an
  upper bound, except where the code saturates.

  \<^bold>\<open>Not modelled.\<close> The events the program logs (the \<open>tracing\<close> calls). Third-party code is
  an argument: JSON parsing and printing and the hash (the record \<open>serde\<close>), the HTTP client (what it
  reports of a send), URL and origin parsing, the merging of settings files and the reading of their
  leaves (\<open>config_builder\<close>, \<open>readers\<close>), the environment, the listener and its routing (when the server
  future may return), the text encoding of metrics (\<open>text_encoder\<close>). What a property needs of them is a
  hypothesis of it. Poisoned locks do not occur: no code under a lock panics.
\<close>

end
